(* ===== verification/Prelude.thy ===== *)
theory Prelude
  imports Main "HOL-Library.Word" "HOL-Library.Monad_Syntax"
begin

text \<open>
  What the component theories share: the machine integers of the firmware, big- and
  little-endian byte views of them, bounds-checked reads and writes of byte slices, and the
  generic lemmas and \<^theory_text>\<open>named_theorems\<close> collections the component proofs draw on.
  Rust's \<^verbatim>\<open>u8\<close>, \<^verbatim>\<open>u16\<close>, \<^verbatim>\<open>u32\<close> and \<^verbatim>\<open>u64\<close> are words of that width (their \<^verbatim>\<open>+\<close> and \<^verbatim>\<open>wrapping_add\<close> wrap: the
  release profile sets \<^verbatim>\<open>overflow-checks = false\<close>); \<^verbatim>\<open>usize\<close> offsets into the small static buffers are
  \<^typ>\<open>nat\<close>; a \<^verbatim>\<open>[u8]\<close> slice is a list of bytes. A slice access that Rust checks and that could
  panic is an \<^typ>\<open>'a option\<close>, with \<^const>\<open>None\<close> for the panic.
\<close>

unbundle bit_operations_syntax

type_synonym u8 = "8 word"
type_synonym u16 = "16 word"
type_synonym u32 = "32 word"
type_synonym u64 = "64 word"
type_synonym bytes = "u8 list"
type_synonym mac = "u8 list" \<comment> \<open>\<^verbatim>\<open>[u8; 6]\<close>\<close>

named_theorems bytes_simps \<open>byte views of words and slice accesses\<close>
named_theorems frame_len \<open>operations that keep the length of a frame\<close>
named_theorems inv_intros \<open>operations that keep a component's invariant\<close>

section \<open>Words\<close>

lemma word_and_1_iff [simp]: "w AND 1 \<noteq> 0 \<longleftrightarrow> bit w 0" "w AND 1 = 0 \<longleftrightarrow> \<not> bit w 0"
  for w :: "'a::len word"
  by (simp_all add: and_one_eq bit_0 odd_iff_mod_2_eq_one even_iff_mod_2_eq_zero)

lemma word_all_bits_zero: "(\<And>n. n < LENGTH('a) \<Longrightarrow> \<not> bit w n) \<Longrightarrow> w = 0"
  for w :: "'a::len word"
  by (rule bit_word_eqI) simp

lemma word_xor_eq_0_iff: "a XOR b = 0 \<longleftrightarrow> a = b"
  for a b :: "'a::len word"
  by (auto simp: bit_eq_iff bit_simps)

lemma word_xor_cancel: "a XOR c = b XOR c \<longleftrightarrow> a = b"
  for a b c :: "'a::len word"
  by (auto simp: bit_eq_iff bit_simps)

lemma unat_lt_of_len: "unat (w :: 'a::len word) < 2 ^ LENGTH('a)"
  by (rule unsigned_less)

lemma unat_u8_lt: "unat (b :: u8) < 256"
  using unat_lt_of_len [of b] by simp

lemma unat_u16_lt: "unat (w :: u16) < 65536"
  using unat_lt_of_len [of w] by simp

lemma unat_u32_lt: "unat (w :: u32) < 4294967296"
  using unat_lt_of_len [of w] by simp

lemma unat_le_of_u8: "unat (b :: u8) \<le> 255"
  using unat_u8_lt [of b] by linarith

lemma unat_le_of_u16: "unat (w :: u16) \<le> 65535"
  using unat_u16_lt [of w] by linarith

lemma unat_ucast_up: "LENGTH('a) \<le> LENGTH('b) \<Longrightarrow> unat (ucast w :: 'b::len word) = unat (w :: 'a::len word)"
  by (metis unsigned_ucast_eq take_bit_nat_eq_self unat_lt_of_len order_less_le_trans
      one_le_numeral power_increasing)

lemma unat_ucast_widen [simp]:
  "unat (ucast b :: u16) = unat (b :: u8)" "unat (ucast b :: u32) = unat (b :: u8)"
  "unat (ucast w :: u32) = unat (w :: u16)"
  by (simp_all add: unat_ucast_up)

lemma unat_NOT: "unat (NOT w) = 2 ^ LENGTH('a) - 1 - unat w" for w :: "'a::len word"
proof -
  have "w + NOT w = - 1" by (simp add: not_eq_complement)
  then have "NOT w = - 1 - w" by (simp add: algebra_simps)
  moreover have "w \<le> - 1" by simp
  ultimately show ?thesis
    by (simp add: unat_sub unsigned_minus_1_eq_mask mask_eq_exp_minus_1)
qed

section \<open>Byte orders\<close>

text \<open>\<^verbatim>\<open>u16::from_be_bytes([a, b])\<close> and the two bytes of \<^verbatim>\<open>w.to_be_bytes()\<close>.\<close>

definition be16 :: "u8 \<Rightarrow> u8 \<Rightarrow> u16" where
  "be16 a b = push_bit 8 (ucast a) OR ucast b"

definition hi8 :: "u16 \<Rightarrow> u8" where
  "hi8 w = ucast (drop_bit 8 w)"

definition lo8 :: "u16 \<Rightarrow> u8" where
  "lo8 w = ucast w"

definition to_be16 :: "u16 \<Rightarrow> bytes" where
  "to_be16 w = [hi8 w, lo8 w]"

lemma be16_hi_lo [simp, bytes_simps]: "be16 (hi8 w) (lo8 w) = w"
  unfolding be16_def hi8_def lo8_def by (rule bit_word_eqI) (auto simp: bit_simps)

lemma hi8_be16 [simp, bytes_simps]: "hi8 (be16 a b) = a"
  unfolding be16_def hi8_def
  by (rule bit_word_eqI) (auto simp: bit_simps dest: bit_imp_le_length)

lemma lo8_be16 [simp, bytes_simps]: "lo8 (be16 a b) = b"
  unfolding be16_def lo8_def
  by (rule bit_word_eqI) (auto simp: bit_simps dest: bit_imp_le_length)

lemma be16_eq_iff [simp]: "be16 a b = be16 c d \<longleftrightarrow> a = c \<and> b = d"
  by (metis hi8_be16 lo8_be16)

lemma length_to_be16 [simp]: "length (to_be16 w) = 2"
  by (simp add: to_be16_def)

text \<open>\<^verbatim>\<open>u32::from_le_bytes\<close> and \<^verbatim>\<open>to_le_bytes\<close>.\<close>

definition le32 :: "u8 \<Rightarrow> u8 \<Rightarrow> u8 \<Rightarrow> u8 \<Rightarrow> u32" where
  "le32 a b c d = ucast a OR push_bit 8 (ucast b) OR push_bit 16 (ucast c) OR push_bit 24 (ucast d)"

definition to_le32 :: "u32 \<Rightarrow> bytes" where
  "to_le32 w = [ucast w, ucast (drop_bit 8 w), ucast (drop_bit 16 w), ucast (drop_bit 24 w)]"

lemma length_to_le32 [simp]: "length (to_le32 w) = 4"
  by (simp add: to_le32_def)

lemma le32_to_le32 [simp, bytes_simps]:
  "le32 (ucast w) (ucast (drop_bit 8 w)) (ucast (drop_bit 16 w)) (ucast (drop_bit 24 w)) = w"
  for w :: u32
proof (rule bit_word_eqI)
  fix n assume n: "n < LENGTH(32)"
  consider "n < 8" | "8 \<le> n" "n < 16" | "16 \<le> n" "n < 24" | "24 \<le> n" by linarith
  then show "bit (le32 (ucast w) (ucast (drop_bit 8 w)) (ucast (drop_bit 16 w))
      (ucast (drop_bit 24 w))) n = bit w n"
    using n by cases (auto simp: le32_def bit_simps)
qed

lemma to_le32_le32 [simp, bytes_simps]: "to_le32 (le32 a b c d) = [a, b, c, d]"
proof -
  have "ucast (le32 a b c d) = a"
    by (rule bit_word_eqI) (auto simp: le32_def bit_simps)
  moreover have "ucast (drop_bit 8 (le32 a b c d)) = b"
    by (rule bit_word_eqI) (auto simp: le32_def bit_simps dest: bit_imp_le_length)
  moreover have "ucast (drop_bit 16 (le32 a b c d)) = c"
    by (rule bit_word_eqI) (auto simp: le32_def bit_simps dest: bit_imp_le_length)
  moreover have "ucast (drop_bit 24 (le32 a b c d)) = d"
    by (rule bit_word_eqI) (auto simp: le32_def bit_simps dest: bit_imp_le_length)
  ultimately show ?thesis by (simp add: to_le32_def)
qed

section \<open>Addresses\<close>

text \<open>\<^verbatim>\<open>core::net::Ipv4Addr\<close>, which \<^verbatim>\<open>smoltcp::wire::Ipv4Address\<close> re-exports: four octets.\<close>

datatype ipv4 = Ipv4 u8 u8 u8 u8

fun octets :: "ipv4 \<Rightarrow> bytes" where
  "octets (Ipv4 a b c d) = [a, b, c, d]"

definition UNSPECIFIED :: ipv4 where
  "UNSPECIFIED = Ipv4 0 0 0 0"

lemma length_octets [simp]: "length (octets ip) = 4"
  by (cases ip) simp

lemma octets_inj [simp]: "octets a = octets b \<longleftrightarrow> a = b"
  by (cases a; cases b) simp

section \<open>Lists\<close>

text \<open>\<^verbatim>\<open>iter().position(p)\<close>: the index of the first element that satisfies \<open>p\<close>.\<close>

primrec position :: "('a \<Rightarrow> bool) \<Rightarrow> 'a list \<Rightarrow> nat option" where
  "position p [] = None"
| "position p (x # xs) = (if p x then Some 0 else map_option Suc (position p xs))"

lemma position_None_iff: "position p xs = None \<longleftrightarrow> (\<forall>x \<in> set xs. \<not> p x)"
  by (induction xs) auto

lemma position_SomeD:
  "position p xs = Some i \<Longrightarrow> i < length xs \<and> p (xs ! i) \<and> (\<forall>j<i. \<not> p (xs ! j))"
proof (induction xs arbitrary: i)
  case (Cons x xs)
  show ?case
  proof (cases "p x")
    case False
    with Cons.prems obtain k where "position p xs = Some k" "i = Suc k" by auto
    with Cons.IH [of k] False show ?thesis by (auto simp: less_Suc_eq_0_disj)
  qed (use Cons.prems in simp)
qed simp

lemma position_SomeI:
  assumes "i < length xs" and "p (xs ! i)" and "\<And>j. j < i \<Longrightarrow> \<not> p (xs ! j)"
  shows "position p xs = Some i"
proof (cases "position p xs")
  case None
  with assms(1,2) show ?thesis by (auto simp: position_None_iff)
next
  case (Some k)
  with position_SomeD [OF Some] assms show ?thesis by (metis linorder_neqE_nat)
qed

text \<open>With at most one candidate, the first is the one.\<close>

lemma position_unique:
  assumes "i < length xs" and "p (xs ! i)"
    and "\<And>j. j < length xs \<Longrightarrow> p (xs ! j) \<Longrightarrow> j = i"
  shows "position p xs = Some i"
proof (rule position_SomeI [where p = p, OF assms(1) assms(2)])
  fix j assume "j < i"
  with assms(1) have "j < length xs" and "j \<noteq> i" by simp_all
  then show "\<not> p (xs ! j)" using assms(3) by blast
qed

lemma count_update:
  assumes "i < length xs"
  shows "length (filter p (xs[i := x])) + (if p (xs ! i) then 1 else 0)
       = length (filter p xs) + (if p x then 1 else 0)"
  using assms
proof (induction xs arbitrary: i)
  case (Cons y ys)
  show ?case
  proof (cases i)
    case (Suc k)
    with Cons.prems Cons.IH [of k] show ?thesis by simp
  qed simp
qed simp

end
