(* ===== verification/Manchester.thy ===== *)
theory Manchester
  imports Prelude
begin

text \<open>
  \<^verbatim>\<open>src/manchester.rs\<close>: the table of PIO instruction streams, and what they put on the line. A word holds
  sixteen half-bits of two bits each, low end first; the state machine of \<^verbatim>\<open>EthTx::new\<close> jumps to the
  address in those two bits, 0 (idle) and 1 (low) drive the line low, 2 drives it high.
\<close>

definition MANCHESTER_TABLE :: "u32 list" where
  "MANCHESTER_TABLE = [
    0x66666666, 0x66666669, 0x66666696, 0x66666699, 0x66666966, 0x66666969, 0x66666996, 0x66666999,
    0x66669666, 0x66669669, 0x66669696, 0x66669699, 0x66669966, 0x66669969, 0x66669996, 0x66669999,
    0x66696666, 0x66696669, 0x66696696, 0x66696699, 0x66696966, 0x66696969, 0x66696996, 0x66696999,
    0x66699666, 0x66699669, 0x66699696, 0x66699699, 0x66699966, 0x66699969, 0x66699996, 0x66699999,
    0x66966666, 0x66966669, 0x66966696, 0x66966699, 0x66966966, 0x66966969, 0x66966996, 0x66966999,
    0x66969666, 0x66969669, 0x66969696, 0x66969699, 0x66969966, 0x66969969, 0x66969996, 0x66969999,
    0x66996666, 0x66996669, 0x66996696, 0x66996699, 0x66996966, 0x66996969, 0x66996996, 0x66996999,
    0x66999666, 0x66999669, 0x66999696, 0x66999699, 0x66999966, 0x66999969, 0x66999996, 0x66999999,
    0x69666666, 0x69666669, 0x69666696, 0x69666699, 0x69666966, 0x69666969, 0x69666996, 0x69666999,
    0x69669666, 0x69669669, 0x69669696, 0x69669699, 0x69669966, 0x69669969, 0x69669996, 0x69669999,
    0x69696666, 0x69696669, 0x69696696, 0x69696699, 0x69696966, 0x69696969, 0x69696996, 0x69696999,
    0x69699666, 0x69699669, 0x69699696, 0x69699699, 0x69699966, 0x69699969, 0x69699996, 0x69699999,
    0x69966666, 0x69966669, 0x69966696, 0x69966699, 0x69966966, 0x69966969, 0x69966996, 0x69966999,
    0x69969666, 0x69969669, 0x69969696, 0x69969699, 0x69969966, 0x69969969, 0x69969996, 0x69969999,
    0x69996666, 0x69996669, 0x69996696, 0x69996699, 0x69996966, 0x69996969, 0x69996996, 0x69996999,
    0x69999666, 0x69999669, 0x69999696, 0x69999699, 0x69999966, 0x69999969, 0x69999996, 0x69999999,
    0x96666666, 0x96666669, 0x96666696, 0x96666699, 0x96666966, 0x96666969, 0x96666996, 0x96666999,
    0x96669666, 0x96669669, 0x96669696, 0x96669699, 0x96669966, 0x96669969, 0x96669996, 0x96669999,
    0x96696666, 0x96696669, 0x96696696, 0x96696699, 0x96696966, 0x96696969, 0x96696996, 0x96696999,
    0x96699666, 0x96699669, 0x96699696, 0x96699699, 0x96699966, 0x96699969, 0x96699996, 0x96699999,
    0x96966666, 0x96966669, 0x96966696, 0x96966699, 0x96966966, 0x96966969, 0x96966996, 0x96966999,
    0x96969666, 0x96969669, 0x96969696, 0x96969699, 0x96969966, 0x96969969, 0x96969996, 0x96969999,
    0x96996666, 0x96996669, 0x96996696, 0x96996699, 0x96996966, 0x96996969, 0x96996996, 0x96996999,
    0x96999666, 0x96999669, 0x96999696, 0x96999699, 0x96999966, 0x96999969, 0x96999996, 0x96999999,
    0x99666666, 0x99666669, 0x99666696, 0x99666699, 0x99666966, 0x99666969, 0x99666996, 0x99666999,
    0x99669666, 0x99669669, 0x99669696, 0x99669699, 0x99669966, 0x99669969, 0x99669996, 0x99669999,
    0x99696666, 0x99696669, 0x99696696, 0x99696699, 0x99696966, 0x99696969, 0x99696996, 0x99696999,
    0x99699666, 0x99699669, 0x99699696, 0x99699699, 0x99699966, 0x99699969, 0x99699996, 0x99699999,
    0x99966666, 0x99966669, 0x99966696, 0x99966699, 0x99966966, 0x99966969, 0x99966996, 0x99966999,
    0x99969666, 0x99969669, 0x99969696, 0x99969699, 0x99969966, 0x99969969, 0x99969996, 0x99969999,
    0x99996666, 0x99996669, 0x99996696, 0x99996699, 0x99996966, 0x99996969, 0x99996996, 0x99996999,
    0x99999666, 0x99999669, 0x99999696, 0x99999699, 0x99999966, 0x99999969, 0x99999996, 0x99999999]"

section \<open>The line code\<close>

text \<open>The sixteen half-bits of a word, in the order they leave the shift register.\<close>

definition half_bits :: "u32 \<Rightarrow> nat list" where
  "half_bits w = map (\<lambda>i. unat (drop_bit (2 * i) w AND 3)) [0..<16]"

text \<open>Manchester code as IEEE 802.3 has it: a one is low then high, a zero is high then low; bits leave
  least significant first.\<close>

definition manchester_halves :: "u8 \<Rightarrow> nat list" where
  "manchester_halves b = concat (map (\<lambda>i. if bit b i then [1, 2] else [2, 1]) [0..<8])"

lemma length_MANCHESTER_TABLE: "length MANCHESTER_TABLE = 256"
  by (simp add: MANCHESTER_TABLE_def)

text \<open>The table is the product of a table for half bytes with itself.\<close>

definition nibble_code :: "u32 list" where
  "nibble_code = [0x6666, 0x6669, 0x6696, 0x6699, 0x6966, 0x6969, 0x6996, 0x6999,
    0x9666, 0x9669, 0x9696, 0x9699, 0x9966, 0x9969, 0x9996, 0x9999]"

lemma table_product:
  "MANCHESTER_TABLE = concat (map (\<lambda>h. map (\<lambda>l. push_bit 16 h OR l) nibble_code) nibble_code)"
  unfolding nibble_code_def MANCHESTER_TABLE_def list.map concat.simps append.simps
  by simp


lemma nth_concat_blocks:
  "\<forall>x \<in> set xs. length (f x) = n \<Longrightarrow> k < length xs \<Longrightarrow> l < n \<Longrightarrow>
     concat (map f xs) ! (n * k + l) = f (xs ! k) ! l"
proof (induction xs arbitrary: k)
  case (Cons x xs)
  then show ?case by (cases k) (simp_all add: nth_append add.assoc)
qed simp

definition nibble_halves :: "nat \<Rightarrow> nat list" where
  "nibble_halves n = concat (map (\<lambda>i. if bit n i then [1, 2] else [2, 1]) [0..<4])"

definition eight_halves :: "u32 \<Rightarrow> nat list" where
  "eight_halves w = map (\<lambda>i. unat (drop_bit (2 * i) w AND 3)) [0..<8]"

lemma bit_3: "bit (3 :: int) n \<longleftrightarrow> n < 2"
  using bit_mask_iff [where 'a = int, of 2 n] by (simp add: mask_eq_exp_minus_1)

lemma half_bits_split: "half_bits w = eight_halves (take_bit 16 w) @ eight_halves (drop_bit 16 w)"
proof -
  have u: "[0..<16] = [0..<8] @ map (\<lambda>i. i + 8) [0..<8]"
    using upt_add_eq_append [of 0 8 8] map_add_upt [of 8 8] by simp
  have lo: "drop_bit (2 * i) w AND 3 = drop_bit (2 * i) (take_bit 16 w) AND 3" if "i < 8" for i
    using that by (intro bit_word_eqI) (auto simp: bit_and_iff bit_drop_bit_eq bit_take_bit_iff bit_3)
  have hi: "drop_bit (2 * (i + 8)) w AND 3 = drop_bit (2 * i) (drop_bit 16 w) AND 3" for i
    by (rule bit_word_eqI) (simp add: bit_simps bit_3 algebra_simps)
  show ?thesis
    unfolding half_bits_def eight_halves_def u map_append map_map comp_def hi
    using lo by (intro arg_cong2 [where f = append] map_cong refl) simp_all
qed

lemma nibble_checked:
  "list_all (\<lambda>n. take_bit 16 (nibble_code ! n) = nibble_code ! n
     \<and> eight_halves (nibble_code ! n) = nibble_halves n) [0..<16]"
  by code_simp

lemma nibble_code_ok:
  assumes "n < 16"
  shows "take_bit 16 (nibble_code ! n) = nibble_code ! n" "eight_halves (nibble_code ! n) = nibble_halves n"
  using nibble_checked assms by (auto simp: list_all_iff)

lemma half_bits_product:
  assumes "take_bit 16 h = h" and "take_bit 16 l = l"
  shows "half_bits (push_bit 16 h OR l) = eight_halves l @ eight_halves h"
proof -
  have h: "bit h n \<longrightarrow> n < 16" for n using assms(1) by (metis bit_take_bit_iff)
  have l: "bit l n \<longrightarrow> n < 16" for n using assms(2) by (metis bit_take_bit_iff)
  have "take_bit 16 (push_bit 16 h OR l) = l"
    by (rule bit_word_eqI) (use l in \<open>auto simp: bit_simps\<close>)
  moreover have "drop_bit 16 (push_bit 16 h OR l) = h"
    by (rule bit_word_eqI) (use l h in \<open>auto simp: bit_simps\<close>)
  ultimately show ?thesis by (simp add: half_bits_split)
qed

lemma table_nth:
  assumes "h < 16" and "l < 16"
  shows "MANCHESTER_TABLE ! (16 * h + l) = push_bit 16 (nibble_code ! h) OR nibble_code ! l"
proof -
  have n: "length nibble_code = 16" by (simp add: nibble_code_def)
  have "concat (map (\<lambda>h. map (\<lambda>l. push_bit 16 h OR l) nibble_code) nibble_code) ! (16 * h + l)
      = map (\<lambda>l. push_bit 16 (nibble_code ! h) OR l) nibble_code ! l"
    using assms n by (intro nth_concat_blocks) simp_all
  with assms n show ?thesis by (simp add: table_product)
qed

lemma manchester_halves_split:
  "manchester_halves b = nibble_halves (unat b mod 16) @ nibble_halves (unat b div 16)"
proof -
  have u: "[0..<8] = [0..<4] @ map (\<lambda>i. i + 4) [0..<4]"
    using upt_add_eq_append [of 0 4 4] map_add_upt [of 4 4] by simp
  have m: "unat b mod 16 = take_bit 4 (unat b)" by (simp add: take_bit_eq_mod)
  have d: "unat b div 16 = drop_bit 4 (unat b)" by (simp add: drop_bit_eq_div)
  have lo: "bit b i = bit (unat b mod 16) i" if "i < 4" for i
    using that by (simp add: m bit_simps)
  have hi: "bit b (i + 4) = bit (unat b div 16) i" for i
    by (auto simp: d bit_simps add.commute dest: bit_imp_le_length)
  show ?thesis
    unfolding manchester_halves_def nibble_halves_def u map_append map_map comp_def hi concat_append
    using lo by (intro arg_cong2 [where f = append] arg_cong [where f = concat] map_cong refl) simp_all
qed

text \<open>The word for a byte is the byte's Manchester code.\<close>

lemma table_halves: "half_bits (MANCHESTER_TABLE ! unat b) = manchester_halves b"
proof -
  have b: "unat b = 16 * (unat b div 16) + unat b mod 16" by simp
  have lt: "unat b div 16 < 16" "unat b mod 16 < 16" using unat_u8_lt [of b] by simp_all
  show ?thesis
    by (subst b) (simp only: table_nth [OF lt] half_bits_product [OF nibble_code_ok(1) [OF lt(1)] nibble_code_ok(1) [OF lt(2)]]
      nibble_code_ok(2) [OF lt(1)] nibble_code_ok(2) [OF lt(2)] manchester_halves_split)
qed

end
