(* ===== verification/Checksum.thy ===== *)
theory Checksum
  imports Prelude "HOL-Library.Multiset"
begin

text \<open>
  The incremental internet checksum of \<^verbatim>\<open>src/conntrack.rs\<close> (RFC 1624) and the from-scratch
  checksum of \<^verbatim>\<open>tools/conntrack_selftest.rs\<close> that serves as its reference. One's-complement
  addition is a commutative monoid on 16-bit words (the library's locale \<^verbatim>\<open>comm_monoid_list\<close> is
  interpreted on it); its values are compared through their residues modulo 65535, where the
  two zeros \<open>0\<close> and \<open>0xFFFF\<close> coincide.
\<close>

section \<open>The code\<close>

definition add1c :: "u16 \<Rightarrow> u16 \<Rightarrow> u16" where
  "add1c a b =
     (let s = (ucast a :: u32) + ucast b
      in ucast ((s AND 0xffff) + drop_bit 16 s))"

primrec incr_acc :: "u16 \<Rightarrow> (u16 \<times> u16) list \<Rightarrow> u16" where
  "incr_acc acc [] = acc"
| "incr_acc acc (c # changes) =
     (case c of (m, mp) \<Rightarrow> incr_acc (add1c (add1c acc (NOT m)) mp) changes)"

definition checksum_incr :: "u16 \<Rightarrow> (u16 \<times> u16) list \<Rightarrow> u16" where
  "checksum_incr old_check changes = NOT (incr_acc (NOT old_check) changes)"

text \<open>The self-test's reference: a running sum over big-endian words, an odd last byte padded.\<close>

fun fold_be :: "u16 \<Rightarrow> bytes \<Rightarrow> u16" where
  "fold_be acc (a # b # data) = fold_be (add1c acc (be16 a b)) data"
| "fold_be acc [a] = add1c acc (be16 a 0)"
| "fold_be acc [] = acc"

definition checksum_full :: "bytes \<Rightarrow> u16" where
  "checksum_full data = NOT (fold_be 0 data)"

lemma checksum_full_known_vector:
  "checksum_full [0x45, 0x00, 0x00, 0x73, 0x00, 0x00, 0x40, 0x00, 0x40, 0x11, 0x00, 0x00,
     0xc0, 0xa8, 0x00, 0x01, 0xc0, 0xa8, 0x00, 0xc7] = 0xb861"
  by (simp add: checksum_full_def add1c_def be16_def)

section \<open>One's-complement arithmetic\<close>

lemma unat_add1c:
  "unat (add1c a b) =
     (if unat a + unat b < 65536 then unat a + unat b else unat a + unat b - 65535)"
proof -
  define s :: u32 where "s = ucast a + ucast b"
  have s: "unat s = unat a + unat b"
    using unat_u16_lt [of a] unat_u16_lt [of b]
    by (simp add: s_def unat_word_ariths)
  have "(0xffff :: u32) = mask 16"
    by (simp add: mask_eq_exp_minus_1)
  then have "unat (s AND 0xffff) = unat s mod 65536"
    by (simp only: unsigned_take_bit_eq flip: take_bit_eq_mask) (simp add: take_bit_eq_mod)
  moreover have "unat (drop_bit 16 s) = unat s div 65536"
    using unat_u32_lt [of s]
    by (simp only: unsigned_drop_bit_eq) (simp add: drop_bit_eq_div take_bit_nat_eq_self)
  ultimately have "unat ((s AND 0xffff) + drop_bit 16 s) = unat s mod 65536 + unat s div 65536"
    using s unat_u16_lt [of a] unat_u16_lt [of b]
    by (simp add: unat_word_ariths)
  then have "unat (add1c a b) = (unat s mod 65536 + unat s div 65536) mod 65536"
    by (simp add: add1c_def s_def Let_def unsigned_ucast_eq take_bit_eq_mod)
  moreover have "(t mod 65536 + t div 65536) mod 65536 = (if t < 65536 then t else t - 65535)"
    if "t < 131071" for t :: nat
  proof (cases "t < 65536")
    case False
    then obtain d where "t = 65536 + d" by (metis le_Suc_ex linorder_not_less)
    with that show ?thesis by simp
  qed simp
  ultimately show ?thesis
    using s unat_u16_lt [of a] unat_u16_lt [of b] by simp
qed

lemma unat_not_u16: "unat (NOT w) = 65535 - unat w" for w :: u16
  by (simp add: unat_NOT)

lemma add1c_commute: "add1c a b = add1c b a"
  by (simp add: word_unat_eq_iff unat_add1c add.commute)

lemma unat_add1c_add1c:
  "unat (add1c (add1c a b) c) =
     (let t = unat a + unat b + unat c
      in if t < 65536 then t else if t < 131071 then t - 65535 else t - 131070)"
proof (cases "unat a + unat b < 65536")
  case True
  with unat_u16_lt [of c] show ?thesis by (simp add: unat_add1c Let_def)
next
  case False
  with unat_u16_lt [of c] unat_u16_lt [of a] unat_u16_lt [of b] show ?thesis
    by (simp add: unat_add1c Let_def) linarith
qed

interpretation oc: comm_monoid add1c 0
proof
  fix a b c :: u16
  show "add1c (add1c a b) c = add1c a (add1c b c)"
    using unat_add1c_add1c [of a b c] unat_add1c_add1c [of b c a]
    by (simp add: word_unat_eq_iff add1c_commute [of a] ac_simps)
  show "add1c a b = add1c b a"
    by (rule add1c_commute)
  show "add1c a 0 = a"
    using unat_u16_lt [of a] by (simp add: word_unat_eq_iff unat_add1c)
qed

text \<open>The reference sum is the monoid's product over the big-endian words.\<close>

fun words_of :: "bytes \<Rightarrow> u16 list" where
  "words_of (a # b # data) = be16 a b # words_of data"
| "words_of [a] = [be16 a 0]"
| "words_of [] = []"

definition osum :: "u16 list \<Rightarrow> u16" where
  "osum ws = foldr add1c ws 0"

lemma osum_simps [simp]: "osum [] = 0" "osum (w # ws) = add1c w (osum ws)"
  by (simp_all add: osum_def)

lemma osum_append [simp]: "osum (xs @ ys) = add1c (osum xs) (osum ys)"
  by (induction xs) (simp_all add: oc.assoc)

lemma fold_be_osum: "fold_be acc data = add1c acc (osum (words_of data))"
  by (induction acc data rule: fold_be.induct) (simp_all add: oc.assoc)

lemma checksum_full_osum: "checksum_full data = NOT (osum (words_of data))"
  by (simp add: checksum_full_def fold_be_osum)

section \<open>Residues\<close>

definition res :: "u16 \<Rightarrow> nat" where
  "res w = unat w mod 65535"

lemma add1c_eq_0_iff [simp]: "add1c a b = 0 \<longleftrightarrow> a = 0 \<and> b = 0"
  by (auto simp: word_unat_eq_iff unat_add1c)

lemma osum_eq_0_iff: "osum ws = 0 \<longleftrightarrow> (\<forall>w \<in> set ws. w = 0)"
  by (induction ws) auto

lemma res_add1c: "res (add1c a b) = (res a + res b) mod 65535"
proof (cases "unat a + unat b < 65536")
  case True
  then show ?thesis by (simp add: res_def unat_add1c mod_add_eq)
next
  case False
  then have "(unat a + unat b - 65535) mod 65535 = (unat a + unat b) mod 65535"
    by (simp add: mod_if)
  with False show ?thesis by (simp add: res_def unat_add1c mod_add_eq)
qed

lemma res_eqD:
  assumes "res a = res b" and "a \<noteq> 0" and "b \<noteq> 0"
  shows "a = b"
proof -
  have pos: "0 < unat a" "0 < unat b" using assms(2,3) by (simp_all add: unat_gt_0)
  have "x = y" if "x mod 65535 = y mod 65535" "0 < x" "0 < y" "x < 65536" "y < 65536" for x y :: nat
    using that by (cases "x = 65535"; cases "y = 65535") simp_all
  from this [of "unat a" "unat b"] pos assms(1) unat_u16_lt [of a] unat_u16_lt [of b]
  show ?thesis by (simp add: res_def word_unat_eq_iff)
qed

lemma res_NOT: "(res (NOT w) + res w) mod 65535 = 0"
  using unat_u16_lt [of w] by (simp add: res_def unat_NOT mod_add_eq)

lemma add1c_NOT: "add1c w (NOT w) = 0xFFFF"
  using unat_u16_lt [of w] by (simp add: word_unat_eq_iff unat_add1c unat_NOT)

lemma res_all_ones [simp]: "res 0xFFFF = 0" "res 0 = 0"
  by (simp_all add: res_def)

text \<open>A run of updates adds up the complements of the old words and the new words.\<close>

lemma incr_acc_osum:
  "incr_acc acc changes =
     add1c acc (add1c (osum (map (\<lambda>c. NOT (fst c)) changes)) (osum (map snd changes)))"
  by (induction changes arbitrary: acc) (auto simp: oc.assoc oc.left_commute)

lemma mod_sum_zero:
  fixes a b c d m :: nat
  assumes "(a + b) mod m = 0" and "(c + d) mod m = 0"
  shows "((a + c) mod m + (b + d) mod m) mod m = 0"
proof -
  have "m dvd (a + b) + (c + d)"
    using assms by (intro dvd_add [of m "a + b"] mod_0_imp_dvd)
  moreover have "(a + b) + (c + d) = (a + c) + (b + d)" by simp
  ultimately show ?thesis by (simp add: mod_add_eq)
qed

lemma res_osum_NOT: "(res (osum (map NOT ws)) + res (osum ws)) mod 65535 = 0"
proof (induction ws)
  case (Cons w ws)
  have "(res (NOT w) + res w) mod 65535 = 0" by (rule res_NOT)
  with Cons show ?case
    by (simp add: res_add1c mod_sum_zero)
qed simp

text \<open>Only the multiset of the summed words matters.\<close>

lemma osum_remove1: "w \<in> set ws \<Longrightarrow> osum ws = add1c w (osum (remove1 w ws))"
  by (induction ws) (auto simp: oc.left_commute)

lemma osum_mset: "mset xs = mset ys \<Longrightarrow> osum xs = osum ys"
proof (induction xs arbitrary: ys)
  case Nil
  then show ?case by simp
next
  case (Cons x xs)
  then have "x \<in> set ys" by (metis list.set_intros(1) set_mset_mset)
  from Cons.prems have "mset xs = mset (remove1 x ys)"
    by (simp flip: Cons.prems)
  then have "osum xs = osum (remove1 x ys)" by (rule Cons.IH)
  with \<open>x \<in> set ys\<close> show ?case by (simp add: osum_remove1)
qed

section \<open>RFC 1624\<close>

lemma nat_mod_eqI: "int x mod 65535 = int y mod 65535 \<Longrightarrow> x mod 65535 = y mod 65535"
proof -
  assume "int x mod 65535 = int y mod 65535"
  then have "int (x mod 65535) = int (y mod 65535)" by (simp add: zmod_int)
  then show ?thesis by (simp only: of_nat_eq_iff)
qed

lemma dvd_int_mod: "(x + y) mod 65535 = 0 \<Longrightarrow> (65535 :: int) dvd int x + int y" for x y :: nat
  by (metis mod_0_imp_dvd int_dvd_int_iff of_nat_add of_nat_numeral)

lemma res_cancel:
  assumes "(res c + res a) mod 65535 = 0" and "(res c + res b) mod 65535 = 0"
  shows "res a = res b"
proof -
  have "int (res a) mod 65535 = int (res b) mod 65535"
    using dvd_diff [OF dvd_int_mod [OF assms(1)] dvd_int_mod [OF assms(2)]]
    by (simp add: mod_eq_dvd_iff)
  then have "res a mod 65535 = res b mod 65535" by (rule nat_mod_eqI)
  then show ?thesis by (simp add: res_def)
qed

lemma dvd_add1c: "(65535 :: int) dvd (int (res a) + int (res b)) - int (res (add1c a b))"
  by (simp add: res_add1c zmod_int flip: mod_eq_dvd_iff)

text \<open>
  The checksum field \<open>hc\<close> and the words it covers: \<open>olds\<close> are replaced by \<open>news\<close>, the \<open>rest\<close>
  stays. The sum of all of them, checksum included, is congruent before and after.
\<close>

lemma incr_residue:
  assumes len: "length olds = length news"
  shows "(res (checksum_incr hc (zip olds news)) + res (osum (rest @ news))) mod 65535
       = (res hc + res (osum (rest @ olds))) mod 65535"
proof -
  define M :: int where "M = 65535"
  define acc where "acc = incr_acc (NOT hc) (zip olds news)"
  define a where "a = osum (map NOT olds)"
  define n where "n = osum news"
  let ?r = "\<lambda>w. int (res w)"
  have "map (\<lambda>c. NOT (fst c)) (zip olds news) = map NOT olds" and "map snd (zip olds news) = news"
    using len by (induction olds news rule: list_induct2) simp_all
  then have acc: "acc = add1c (NOT hc) (add1c a n)"
    by (simp add: acc_def incr_acc_osum a_def n_def)
  have d1: "M dvd ?r (NOT acc) + ?r acc" and d2: "M dvd ?r (NOT hc) + ?r hc"
    and d3: "M dvd ?r a + ?r (osum olds)"
    unfolding M_def a_def by (rule dvd_int_mod res_NOT res_osum_NOT)+
  have d4: "M dvd (?r (NOT hc) + ?r (add1c a n)) - ?r acc" and d5: "M dvd (?r a + ?r n) - ?r (add1c a n)"
    and d6: "M dvd (?r (osum rest) + ?r n) - ?r (osum (rest @ news))"
    and d7: "M dvd (?r (osum rest) + ?r (osum olds)) - ?r (osum (rest @ olds))"
    unfolding M_def acc n_def by (simp_all add: dvd_add1c)
  have "(?r (NOT acc) + ?r (osum (rest @ news))) - (?r hc + ?r (osum (rest @ olds)))
      = (?r (NOT acc) + ?r acc) - (?r (NOT hc) + ?r hc) - (?r a + ?r (osum olds))
        + ((?r (NOT hc) + ?r (add1c a n)) - ?r acc) + ((?r a + ?r n) - ?r (add1c a n))
        - ((?r (osum rest) + ?r n) - ?r (osum (rest @ news)))
        + ((?r (osum rest) + ?r (osum olds)) - ?r (osum (rest @ olds)))"
    by simp
  also have "M dvd \<dots>"
    by (rule dvd_add [OF dvd_diff [OF dvd_add [OF dvd_add [OF dvd_diff
          [OF dvd_diff [OF d1 d2] d3] d4] d5] d6] d7])
  finally have "(?r (NOT acc) + ?r (osum (rest @ news))) mod M = (?r hc + ?r (osum (rest @ olds))) mod M"
    by (simp only: mod_eq_dvd_iff)
  then show ?thesis
    unfolding M_def acc_def checksum_incr_def by (intro nat_mod_eqI) simp
qed

text \<open>
  Two checksums that agree up to the residue make the same packet valid, provided the packet is
  not all zeros: a valid packet's sum, checksum included, is all ones.
\<close>

lemma incr_valid:
  assumes len: "length olds = length news"
    and old: "osum (hc # rest @ olds) = 0xFFFF"
    and nz: "osum (rest @ news) \<noteq> 0"
  shows "osum (checksum_incr hc (zip olds news) # rest @ news) = 0xFFFF"
proof (rule res_eqD)
  have "res (osum (hc # rest @ olds)) = 0" using old by simp
  then have "(res hc + res (osum (rest @ olds))) mod 65535 = 0" by (simp add: res_add1c)
  then have "(res (checksum_incr hc (zip olds news)) + res (osum (rest @ news))) mod 65535 = 0"
    by (simp only: incr_residue [OF len])
  then show "res (osum (checksum_incr hc (zip olds news) # rest @ news)) = res 0xFFFF"
    by (simp add: res_add1c)
  show "osum (checksum_incr hc (zip olds news) # rest @ news) \<noteq> 0"
    using nz by simp
qed simp

lemma incr_eq_recomputed:
  assumes len: "length olds = length news" and nz: "osum (rest @ news) \<noteq> 0"
  shows "checksum_incr (NOT (osum (rest @ olds))) (zip olds news) = NOT (osum (rest @ news))"
    (is "?c = NOT ?n")
proof -
  let ?o = "osum (rest @ olds)"
  define acc where "acc = incr_acc ?o (zip olds news)"
  have c: "?c = NOT acc" by (simp add: checksum_incr_def acc_def)
  have "(res (NOT ?o) + res ?o) mod 65535 = 0" by (rule res_NOT)
  then have "(res ?c + res ?n) mod 65535 = 0" by (simp only: incr_residue [OF len])
  moreover have "(res ?c + res acc) mod 65535 = 0" unfolding c by (rule res_NOT)
  ultimately have "res acc = res ?n"
    by (metis res_cancel)
  moreover have "acc \<noteq> 0"
  proof
    assume "acc = 0"
    then have "?o = 0" and "\<forall>p \<in> set (zip olds news). NOT (fst p) = 0"
      and *: "osum (map snd (zip olds news)) = 0"
      by (auto simp: acc_def incr_acc_osum osum_eq_0_iff)
    with len have "osum news = 0" by simp
    with \<open>?o = 0\<close> have "?n = 0" by simp
    with nz show False by contradiction
  qed
  ultimately have "acc = ?n" using nz by (rule res_eqD)
  with c show ?thesis by simp
qed

lemma checksum_incr_recomputes:
  assumes "length olds = length news"
    and "mset (words_of data) = R + mset olds"
    and "mset (words_of data') = R + mset news"
    and "\<exists>w \<in> set (words_of data'). w \<noteq> 0"
  shows "checksum_incr (checksum_full data) (zip olds news) = checksum_full data'"
proof -
  obtain rest where R: "R = mset rest" by (metis ex_mset)
  have "osum (words_of data) = osum (rest @ olds)" and n: "osum (words_of data') = osum (rest @ news)"
    using assms(2,3) R by (auto simp only: mset_append intro: osum_mset)
  moreover have "osum (rest @ news) \<noteq> 0"
    using assms(4) osum_eq_0_iff [of "words_of data'"] n by force
  ultimately show ?thesis
    using incr_eq_recomputed [OF assms(1), of rest] by (simp add: checksum_full_osum)
qed

text \<open>New data that is all zeros gets \<open>0\<close>, where the recomputation gives \<open>0xFFFF\<close>.\<close>

lemma checksum_incr_zero:
  assumes len: "length olds = length news" and some: "olds \<noteq> []"
    and data: "mset (words_of data) = R + mset olds" and data': "mset (words_of data') = R + mset news"
    and zero: "\<forall>w \<in> set (words_of data'). w = 0"
  shows "checksum_incr (checksum_full data) (zip olds news) = 0 \<and> checksum_full data' = 0xFFFF"
proof -
  obtain rest where R: "R = mset rest" by (metis ex_mset)
  have o: "osum (words_of data) = osum (rest @ olds)" and n: "osum (words_of data') = osum (rest @ news)"
    using data data' R by (auto simp only: mset_append intro: osum_mset)
  have n0: "osum (rest @ news) = 0" using zero osum_eq_0_iff [of "words_of data'"] n by simp
  define acc where "acc = incr_acc (osum (rest @ olds)) (zip olds news)"
  have c: "checksum_incr (NOT (osum (rest @ olds))) (zip olds news) = NOT acc" by (simp add: checksum_incr_def acc_def)
  have "(res (NOT acc) + res (osum (rest @ news))) mod 65535 = (res (NOT (osum (rest @ olds))) + res (osum (rest @ olds))) mod 65535"
    by (simp only: c [symmetric] incr_residue [OF len])
  also have "\<dots> = 0" by (rule res_NOT)
  finally have dvd: "unat (NOT acc) mod 65535 = 0" using n0 by (simp add: res_def)
  have "NOT acc \<noteq> 0xFFFF"
  proof
    assume "NOT acc = 0xFFFF"
    then have "NOT (NOT acc) = NOT 0xFFFF" by simp
    then have "acc = 0" by simp
    then have "osum (rest @ olds) = 0" "\<forall>p \<in> set (zip olds news). NOT (fst p) = 0"
      by (auto simp: acc_def incr_acc_osum osum_eq_0_iff)
    with len some show False by (cases olds; cases news) (auto simp: osum_eq_0_iff)
  qed
  then have "unat (NOT acc) \<noteq> 65535" by (simp add: word_unat_eq_iff)
  then have "unat (NOT acc) < 65535" using unat_le_of_u16 [of "NOT acc"] by linarith
  with dvd have "unat (NOT acc) = 0" by simp
  then have "NOT acc = 0" by (simp add: unat_eq_0)
  with c o n n0 show ?thesis by (simp add: checksum_full_osum)
qed

section \<open>Properties\<close>

text \<open>C16. RFC 1624: when the words \<open>olds\<close> covered by a checksum are replaced by \<open>news\<close>, the
  incremental update gives the checksum a full recomputation over the new data gives, for every
  number and order of changes, unless all of the new data is zero.\<close>

theorem checksum_incr_is_recomputation:
  assumes "length olds = length news"
    and "mset (words_of data) = R + mset olds"
    and "mset (words_of data') = R + mset news"
    and "\<exists>w \<in> set (words_of data'). w \<noteq> 0"
  shows "checksum_incr (checksum_full data) (zip olds news) = checksum_full data'"
  by (rule checksum_incr_recomputes [OF assms])

theorem checksum_incr_is_recomputation_witness:
  "checksum_incr (checksum_full [0x45, 0, 0xc0, 0xa8]) (zip [be16 0xc0 0xa8] [be16 8 9])
     = checksum_full [0x45, 0, 8, 9]"
  by (rule checksum_incr_is_recomputation [where R = "{#be16 0x45 0#}"])
    (simp_all add: be16_def)

text \<open>In the one case left out, the incremental update and the recomputation differ: data that
  becomes all zeros gets the checksum \<open>0\<close> where the recomputation gives \<open>0xFFFF\<close>, so the
  "incremental equals full recompute" assertion of the self-test does not hold for all inputs.\<close>

theorem checksum_incr_all_zero_divergence:
  "checksum_incr (checksum_full [0, 5]) [(5, 0)] = 0 \<and> checksum_full [0, 0] = 0xFFFF"
  by (simp add: checksum_full_def checksum_incr_def add1c_def be16_def)

end
