(* ===== verification/Crc.thy ===== *)
theory Crc
  imports Prelude
begin

text \<open>
  \<^verbatim>\<open>src/crc.rs\<close>: the bitwise, reflected CRC-32 of the Ethernet FCS. The register step is a linear
  map over GF(2) with a trivial kernel; the locale \<open>linear_register\<close> states that contract and
  proves once what follows from it for repeated steps, and its interpretation on \<open>step_bit\<close>
  gives the error-detection theorems.
\<close>

section \<open>The code\<close>

definition step_bit :: "u32 \<Rightarrow> u32" where
  "step_bit crc =
     (if crc AND 1 \<noteq> 0 then drop_bit 1 crc XOR 0xEDB88320 else drop_bit 1 crc)"

definition step_byte :: "u32 \<Rightarrow> u8 \<Rightarrow> u32" where
  "step_byte crc b = (step_bit ^^ 8) (crc XOR ucast b)"

primrec update :: "u32 \<Rightarrow> bytes \<Rightarrow> u32" where
  "update crc [] = crc"
| "update crc (b # data) = update (step_byte crc b) data"

definition finalize :: "u32 \<Rightarrow> u32" where
  "finalize crc = crc XOR 0xFFFFFFFF"

definition crc32_ieee802_3 :: "bytes \<Rightarrow> u32" where
  "crc32_ieee802_3 data = finalize (update 0xFFFFFFFF data)"

definition crc32_ieee802_3_padded :: "bytes \<Rightarrow> nat \<Rightarrow> u32" where
  "crc32_ieee802_3_padded data pad_len =
     finalize (((\<lambda>crc. step_byte crc 0) ^^ pad_len) (update 0xFFFFFFFF data))"

text \<open>The register step on literals, for evaluation; the standard check value of CRC-32.\<close>

lemma step_byte_eval:
  "step_byte crc b =
     step_bit (step_bit (step_bit (step_bit (step_bit (step_bit (step_bit (step_bit
       (crc XOR ucast b))))))))"
  by (simp add: step_byte_def eval_nat_numeral)

lemmas crc_eval = crc32_ieee802_3_def finalize_def update.simps step_byte_eval step_bit_def

lemma crc32_check_value:
  "crc32_ieee802_3 [0x31, 0x32, 0x33, 0x34, 0x35, 0x36, 0x37, 0x38, 0x39] = 0xCBF43926"
  by (simp add: crc_eval)

section \<open>Linear shift registers\<close>

locale linear_register =
  fixes step :: "'a::len word \<Rightarrow> 'a word"
  assumes step_xor: "step (a XOR b) = step a XOR step b"
    and step_kernel: "step x = 0 \<Longrightarrow> x = 0"
    and step_shift: "\<not> bit x 0 \<Longrightarrow> step x = drop_bit 1 x"
begin

lemma iter_xor: "(step ^^ n) (a XOR b) = (step ^^ n) a XOR (step ^^ n) b"
  by (induction n) (simp_all add: step_xor)

lemma iter_kernel: "(step ^^ n) x = 0 \<Longrightarrow> x = 0"
  by (induction n) (auto dest: step_kernel)

lemma iter_inj: "(step ^^ n) a = (step ^^ n) b \<longleftrightarrow> a = b"
proof
  assume "(step ^^ n) a = (step ^^ n) b"
  then have "(step ^^ n) (a XOR b) = 0"
    by (simp add: iter_xor)
  then have "a XOR b = 0" by (rule iter_kernel)
  then show "a = b" by (simp add: word_xor_eq_0_iff)
qed simp

lemma iter_shift: "(\<And>i. i < n \<Longrightarrow> \<not> bit x i) \<Longrightarrow> (step ^^ n) x = drop_bit n x"
proof (induction n)
  case 0
  then show ?case by simp
next
  case (Suc n)
  then have "(step ^^ n) x = drop_bit n x" by simp
  moreover have "\<not> bit (drop_bit n x) 0"
    using Suc.prems [of n] by (simp add: bit_simps)
  ultimately show ?case
    by (simp add: step_shift)
qed

end

lemma step_bit_xor: "step_bit (a XOR b) = step_bit a XOR step_bit b"
  unfolding step_bit_def by (auto simp: bit_simps intro!: bit_word_eqI)

lemma step_bit_kernel:
  assumes "step_bit x = 0"
  shows "x = 0"
proof -
  have low: "\<not> bit x 0"
  proof
    assume "bit x 0"
    then have "bit (step_bit x) 31"
      by (simp add: step_bit_def bit_simps) (auto dest: bit_imp_le_length)
    with assms show False by simp
  qed
  with assms have "drop_bit 1 x = 0" by (simp add: step_bit_def)
  then have "\<not> bit (drop_bit 1 x) n" for n by simp
  then have "\<not> bit x (Suc n)" for n by (simp add: bit_drop_bit_eq)
  with low show ?thesis
    by (intro word_all_bits_zero) (metis not0_implies_Suc)
qed

interpretation reg: linear_register step_bit
  by unfold_locales (simp_all add: step_bit_xor step_bit_kernel, simp add: step_bit_def)

lemma bit_iter_shift8: "(step_bit ^^ 8) (push_bit 8 w) = take_bit 24 w"
proof -
  have "(step_bit ^^ 8) (push_bit 8 w) = drop_bit 8 (push_bit 8 w)"
    by (rule reg.iter_shift) (simp add: bit_simps)
  also have "\<dots> = take_bit 24 w"
    by (rule bit_word_eqI) (auto simp: bit_simps)
  finally show ?thesis .
qed

section \<open>Runs of the register\<close>

lemma update_append: "update crc (xs @ ys) = update (update crc xs) ys"
  by (induction xs arbitrary: crc) simp_all

lemma step_byte_xor: "step_byte (a XOR b) (x XOR y) = step_byte a x XOR step_byte b y"
proof -
  have "(a XOR b) XOR ucast (x XOR y) = (a XOR ucast x) XOR (b XOR ucast y)"
    by (simp only: unsigned_xor_eq xor.assoc xor.left_commute)
  then show ?thesis
    by (simp only: step_byte_def reg.iter_xor)
qed

lemma update_xor:
  "length xs = length ys \<Longrightarrow>
     update (a XOR b) (map2 (XOR) xs ys) = update a xs XOR update b ys"
proof (induction xs ys arbitrary: a b rule: list_induct2)
  case Nil
  then show ?case by simp
next
  case (Cons x xs y ys)
  have "step_byte (a XOR b) (x XOR y) = step_byte a x XOR step_byte b y"
    by (rule step_byte_xor)
  then show ?case
    using Cons.IH by simp
qed

lemma step_byte_inj: "step_byte a x = step_byte b x \<longleftrightarrow> a = b"
  by (simp only: step_byte_def reg.iter_inj word_xor_cancel)

lemma update_inj: "update a xs = update b xs \<longleftrightarrow> a = b"
  by (induction xs arbitrary: a b) (simp_all add: step_byte_inj)

lemma update_replicate_0: "update crc (replicate n 0) = ((\<lambda>crc. step_byte crc 0) ^^ n) crc"
  by (induction n arbitrary: crc) (simp_all add: funpow_Suc_right del: funpow.simps(2))

text \<open>Up to four bytes, read as one little-endian word, pass through the register as one value.\<close>

primrec le_word :: "bytes \<Rightarrow> u32" where
  "le_word [] = 0"
| "le_word (d # ds) = ucast d XOR push_bit 8 (le_word ds)"

lemma bit_le_word: "bit (le_word ds) n \<Longrightarrow> n < 8 * length ds"
proof (induction ds arbitrary: n)
  case (Cons d ds)
  then have "n < 8 \<or> 8 \<le> n \<and> bit (le_word ds) (n - 8)"
    by (auto simp: bit_simps dest: bit_imp_le_length)
  with Cons.IH [of "n - 8"] show ?case by auto
qed simp

lemma take_bit_le_word: "length ds \<le> 3 \<Longrightarrow> take_bit 24 (le_word ds) = le_word ds"
  by (rule bit_word_eqI) (use bit_le_word [of ds] in \<open>fastforce simp: bit_simps\<close>)

lemma update_le_word:
  "length ds \<le> 4 \<Longrightarrow> update c ds = (step_bit ^^ (8 * length ds)) (c XOR le_word ds)"
proof (induction ds arbitrary: c)
  case Nil
  then show ?case by simp
next
  case (Cons d ds)
  then have "update c (d # ds) = (step_bit ^^ (8 * length ds)) (step_byte c d XOR le_word ds)"
    by simp
  also have "le_word ds = (step_bit ^^ 8) (push_bit 8 (le_word ds))"
    using Cons.prems by (simp add: bit_iter_shift8 take_bit_le_word)
  also have "step_byte c d XOR \<dots> = (step_bit ^^ 8) ((c XOR ucast d) XOR push_bit 8 (le_word ds))"
    by (simp only: step_byte_def reg.iter_xor)
  also have "(step_bit ^^ (8 * length ds)) \<dots>
      = (step_bit ^^ (8 * length (d # ds))) (c XOR le_word (d # ds))"
    by (simp only: funpow_add [unfolded comp_def, THEN fun_cong, symmetric] le_word.simps
        xor.assoc length_Cons mult_Suc_right add.commute [of 8])
  finally show ?case .
qed

lemma le_word_eq_0: "length ds \<le> 4 \<Longrightarrow> le_word ds = 0 \<Longrightarrow> d \<in> set ds \<Longrightarrow> d = 0"
proof (induction ds)
  case Nil
  then show ?case by simp
next
  case (Cons e ds)
  have "\<not> bit e n" for n
  proof
    assume "bit e n"
    moreover from this have "n < 8" using bit_imp_le_length by fastforce
    ultimately have "bit (le_word (e # ds)) n" by (simp add: bit_simps)
    with Cons.prems(2) show False by simp
  qed
  then have e: "e = 0" by (simp add: bit_eq_iff)
  then have "push_bit 8 (le_word ds) = 0" using Cons.prems(2) by simp
  then have "take_bit 24 (le_word ds) = 0"
    by (metis bit_iter_shift8 reg.iter_shift drop_bit_of_0 bit_0_eq bot_apply bot_bool_def)
  then have "le_word ds = 0" using Cons.prems(1) by (simp add: take_bit_le_word)
  with Cons e show ?case by auto
qed

lemma le_word_to_le32: "le_word (to_le32 w) = w"
proof (rule bit_word_eqI)
  fix n assume n: "n < LENGTH(32)"
  consider "n < 8" | "8 \<le> n" "n < 16" | "16 \<le> n" "n < 24" | "24 \<le> n" by linarith
  then show "bit (le_word (to_le32 w)) n = bit w n"
    using n by cases (auto simp: to_le32_def bit_simps)
qed

lemma le_word_le32: "le_word [a, b, c, d] = le32 a b c d"
proof (rule bit_word_eqI)
  fix n assume n: "n < LENGTH(32)"
  consider "n < 8" | "8 \<le> n" "n < 16" | "16 \<le> n" "n < 24" | "24 \<le> n" by linarith
  then show "bit (le_word [a, b, c, d]) n = bit (le32 a b c d) n"
    using n by cases (auto simp: le32_def bit_simps dest: bit_imp_le_length)
qed

lemma le32_inj: "le32 a b c d = le32 a' b' c' d' \<longleftrightarrow> [a, b, c, d] = [a', b', c', d']"
proof
  assume "le32 a b c d = le32 a' b' c' d'"
  then have "to_le32 (le32 a b c d) = to_le32 (le32 a' b' c' d')" by simp
  then show "[a, b, c, d] = [a', b', c', d']" by (simp only: to_le32_le32)
qed simp

lemma length_4_cases:
  assumes "length xs = 4"
  obtains a b c d where "xs = [a, b, c, d]"
  using assms by (auto simp: numeral_eq_Suc length_Suc_conv)

lemma le_word_inj:
  assumes "length xs = 4" and "length ys = 4"
  shows "le_word xs = le_word ys \<longleftrightarrow> xs = ys"
  using assms by (elim length_4_cases) (simp only: le_word_le32 le32_inj)

text \<open>Every frame with a correct FCS leaves the same value in the register.\<close>

definition fcs_residue :: u32 where
  "fcs_residue = 0xDEBB20E3"

lemma fcs_residue_iter: "(step_bit ^^ 32) 0xFFFFFFFF = fcs_residue"
proof -
  have "update 0xFFFFFFFF [0, 0, 0, 0] = fcs_residue"
    by (simp add: update.simps step_byte_eval step_bit_def fcs_residue_def)
  moreover have "update 0xFFFFFFFF [0, 0, 0, 0] = (step_bit ^^ 32) 0xFFFFFFFF"
  proof -
    have "length [0, 0, 0, 0 :: u8] = 4" and "le_word [0, 0, 0, 0] = 0" by simp_all
    then show ?thesis
      by (simp only: update_le_word) simp_all
  qed
  ultimately show ?thesis by (simp only:)
qed

lemma update_fcs_residue:
  assumes "length fcs = 4"
  shows "update c fcs = fcs_residue \<longleftrightarrow> fcs = to_le32 (finalize c)"
proof -
  have "update c fcs = fcs_residue \<longleftrightarrow>
      (step_bit ^^ 32) (c XOR le_word fcs) = (step_bit ^^ 32) 0xFFFFFFFF"
    using update_le_word [of fcs c] assms by (simp only: fcs_residue_iter) simp
  also have "\<dots> \<longleftrightarrow> c XOR le_word fcs = 0xFFFFFFFF"
    by (rule reg.iter_inj)
  also have "\<dots> \<longleftrightarrow> le_word fcs = finalize c"
    by (auto simp: finalize_def bit_eq_iff bit_simps)
  also have "\<dots> \<longleftrightarrow> fcs = to_le32 (finalize c)"
    using assms le_word_inj [of fcs "to_le32 (finalize c)"] by (simp add: le_word_to_le32)
  finally show ?thesis .
qed

lemma update_burst:
  assumes len: "length u = length v" "length u \<le> 4" and neq: "u \<noteq> v"
  shows "update c (u @ s) \<noteq> update c (v @ s)"
proof
  assume "update c (u @ s) = update c (v @ s)"
  then have "update c u = update c v"
    by (simp add: update_append update_inj)
  then have "update (c XOR c) (map2 (XOR) u v) = 0"
    using update_xor [OF len(1), of c c] by (simp only: xor_self_eq)
  then have "(step_bit ^^ (8 * length u)) (le_word (map2 (XOR) u v)) = 0"
    using update_le_word [of "map2 (XOR) u v" 0] len by simp
  then have "le_word (map2 (XOR) u v) = 0"
    by (rule reg.iter_kernel)
  then have "\<forall>d \<in> set (map2 (XOR) u v). d = 0"
    using le_word_eq_0 [of "map2 (XOR) u v"] len by simp
  with len(1) have "u = v"
    by (induction u v rule: list_induct2) (auto simp: word_xor_eq_0_iff)
  with neq show False by contradiction
qed

section \<open>Properties\<close>

text \<open>The padded CRC, which folds zero bytes into the register without storing them, is the
  CRC of the zero-extended frame.\<close>

theorem crc_padded_is_crc_of_padding:
  "crc32_ieee802_3_padded data n = crc32_ieee802_3 (data @ replicate n 0)"
  by (simp add: crc32_ieee802_3_padded_def crc32_ieee802_3_def update_append update_replicate_0)

text \<open>C24. Any error burst within four consecutive bytes changes the CRC: two messages of the
  same length that differ only there have different checksums, whatever surrounds the burst.\<close>

theorem crc_detects_bursts:
  assumes "length u = length v" and "length u \<le> 4" and "u \<noteq> v"
  shows "crc32_ieee802_3 (p @ u @ s) \<noteq> crc32_ieee802_3 (p @ v @ s)"
proof -
  have "update (update 0xFFFFFFFF p) (u @ s) \<noteq> update (update 0xFFFFFFFF p) (v @ s)"
    using assms by (rule update_burst)
  then show ?thesis
    by (simp only: crc32_ieee802_3_def finalize_def update_append [of _ p] word_xor_cancel)
      simp
qed

theorem crc_detects_bursts_witness:
  "crc32_ieee802_3 ([1, 2] @ [0, 0, 0, 1] @ [7]) \<noteq> crc32_ieee802_3 ([1, 2] @ [0x80, 0, 0, 0] @ [7])"
  by (rule crc_detects_bursts) simp_all

end
