(* ===== verification/EthRx.thy ===== *)
theory EthRx
  imports Crc
begin

text \<open>
  The receive path's pure functions, \<^verbatim>\<open>src/eth_rx.rs\<close>: sample access, edge and delimiter search, the
  scan for active runs, the peek at the destination address, frame length and frame check. The build
  is the default one (60 MHz sampling: six samples per bit). A bit read out of the sample buffer is a
  boolean. Reads of a slice that Rust checks are options, \<^const>\<open>None\<close> for the panic; a function that
  itself returns an \<^verbatim>\<open>Option\<close> then has two layers. Loops over a range run over the list of its values.
\<close>

section \<open>Samples\<close>

definition SAMPLES_PER_BIT :: nat where "SAMPLES_PER_BIT = 6"
definition HB1_CENTER_OFFSET :: nat where "HB1_CENTER_OFFSET = 4"

definition sample_bit :: "bytes \<Rightarrow> nat \<Rightarrow> bool option" where
  "sample_bit bs off = (if off div 8 < length bs then Some (bit (bs ! (off div 8)) (off mod 8)) else None)"

primrec falling_edge_loop :: "bytes \<Rightarrow> nat \<Rightarrow> nat list \<Rightarrow> bool \<Rightarrow> nat option option" where
  "falling_edge_loop bs base [] prev = Some None"
| "falling_edge_loop bs base (i # is) prev = do {
     s \<leftarrow> sample_bit bs (base + i);
     if prev \<and> \<not> s then Some (Some i) else falling_edge_loop bs base is s
   }"

definition find_first_falling_edge :: "bytes \<Rightarrow> nat \<Rightarrow> nat \<Rightarrow> nat option option" where
  "find_first_falling_edge bs base nsamples = do {
     prev \<leftarrow> sample_bit bs base;
     falling_edge_loop bs base [1..<nsamples] prev
   }"

definition data_bit :: "bytes \<Rightarrow> nat \<Rightarrow> nat \<Rightarrow> nat \<Rightarrow> nat \<Rightarrow> bool option option" where
  "data_bit bs base f k nsamples =
     (let idx = f + HB1_CENTER_OFFSET + SAMPLES_PER_BIT * k
      in if nsamples \<le> idx then Some None else map_option Some (sample_bit bs (base + idx)))"

primrec sfd_loop :: "bytes \<Rightarrow> nat \<Rightarrow> nat \<Rightarrow> nat \<Rightarrow> nat list \<Rightarrow> bool \<Rightarrow> nat option option" where
  "sfd_loop bs base f nsamples [] prev = Some None"
| "sfd_loop bs base f nsamples (k # ks) prev = do {
     r \<leftarrow> data_bit bs base f k nsamples;
     case r of
       None \<Rightarrow> Some None
     | Some cur \<Rightarrow> if cur \<and> prev then Some (Some k) else sfd_loop bs base f nsamples ks cur
   }"

definition find_sfd_end :: "bytes \<Rightarrow> nat \<Rightarrow> nat \<Rightarrow> nat \<Rightarrow> nat \<Rightarrow> nat option option" where
  "find_sfd_end bs base f nsamples max_bits = do {
     r \<leftarrow> data_bit bs base f 0 nsamples;
     case r of
       None \<Rightarrow> Some None
     | Some prev \<Rightarrow> sfd_loop bs base f nsamples [1..<max_bits] prev
   }"

section \<open>Active runs\<close>

definition active :: "u8 \<Rightarrow> bool" where
  "active b \<longleftrightarrow> b \<noteq> 0x00 \<and> b \<noteq> 0xFF"

function skip_while :: "(u8 \<Rightarrow> bool) \<Rightarrow> bytes \<Rightarrow> nat \<Rightarrow> nat" where
  "skip_while p bs i = (if i < length bs \<and> p (bs ! i) then skip_while p bs (i + 1) else i)"
  by auto
termination by (relation "measure (\<lambda>(p, bs, i). length bs - i)") auto

declare skip_while.simps [simp del]

lemma skip_while_ge: "i \<le> skip_while p bs i"
proof (induction p bs i rule: skip_while.induct)
  case (1 p bs i)
  then show ?case by (subst skip_while.simps) auto
qed

lemma skip_while_le: "i \<le> length bs \<Longrightarrow> skip_while p bs i \<le> length bs"
proof (induction p bs i rule: skip_while.induct)
  case (1 p bs i)
  then show ?case by (subst skip_while.simps) auto
qed

lemma skip_while_all: "i \<le> j \<Longrightarrow> j < skip_while p bs i \<Longrightarrow> p (bs ! j)"
proof (induction p bs i rule: skip_while.induct)
  case (1 p bs i)
  show ?case
  proof (cases "i < length bs \<and> p (bs ! i)")
    case True
    with 1 show ?thesis
      by (cases "i = j") (auto simp: skip_while.simps [of p bs i])
  next
    case False
    with 1 show ?thesis by (simp add: skip_while.simps [of p bs i] split: if_splits)
  qed
qed

lemma skip_while_stop: "skip_while p bs i < length bs \<Longrightarrow> \<not> p (bs ! skip_while p bs i)"
proof (induction p bs i rule: skip_while.induct)
  case (1 p bs i)
  then show ?case
    by (cases "i < length bs \<and> p (bs ! i)") (auto simp: skip_while.simps [of p bs i])
qed

text \<open>The outer \<^verbatim>\<open>loop\<close> of \<^verbatim>\<open>find_active_run_from\<close>: skip idle bytes, then measure the run.\<close>

function find_active_run_from :: "bytes \<Rightarrow> nat \<Rightarrow> nat \<Rightarrow> (nat \<times> nat) option" where
  "find_active_run_from bs start min_len =
     (let run_start = skip_while (\<lambda>b. \<not> active b) bs start
      in if length bs \<le> run_start then None
         else
           (let i = skip_while active bs run_start; run_len = i - run_start
            in if min_len \<le> run_len then Some (run_start, run_len)
               else if length bs \<le> i then None
               else find_active_run_from bs i min_len))"
  by auto

lemma run_progress:
  assumes "skip_while (\<lambda>b. \<not> active b) bs start < length bs"
  shows "start < skip_while active bs (skip_while (\<lambda>b. \<not> active b) bs start)"
proof -
  let ?s = "skip_while (\<lambda>b. \<not> active b) bs start"
  have "active (bs ! ?s)" using skip_while_stop [OF assms] by simp
  then have "Suc ?s \<le> skip_while active bs ?s"
    using assms skip_while_ge [of "Suc ?s" active bs] by (simp add: skip_while.simps [of active bs ?s])
  with skip_while_ge [of start "\<lambda>b. \<not> active b" bs] show ?thesis by simp
qed

termination find_active_run_from
  by (relation "measure (\<lambda>(bs, i, m). length bs - i)")
    (auto intro!: diff_less_mono2 run_progress simp: not_le dest: order_less_le_trans [OF run_progress])

declare find_active_run_from.simps [simp del]

section \<open>Address, length, check\<close>

text \<open>Eight data bits from index \<open>k\<close>, least significant first.\<close>

primrec read_bits :: "bytes \<Rightarrow> nat \<Rightarrow> nat \<Rightarrow> nat \<Rightarrow> nat list \<Rightarrow> nat \<Rightarrow> u8 \<Rightarrow> u8 option option" where
  "read_bits bs base f nsamples [] k b = Some (Some b)"
| "read_bits bs base f nsamples (j # js) k b = do {
     r \<leftarrow> data_bit bs base f (k + j) nsamples;
     case r of
       None \<Rightarrow> Some None
     | Some d \<Rightarrow> read_bits bs base f nsamples js k (b OR push_bit j (of_bool d))
   }"

primrec read_mac :: "bytes \<Rightarrow> nat \<Rightarrow> nat \<Rightarrow> nat \<Rightarrow> nat \<Rightarrow> nat list \<Rightarrow> mac \<Rightarrow> mac option option" where
  "read_mac bs base f nsamples start_bit [] m = Some (Some m)"
| "read_mac bs base f nsamples start_bit (i # is) m = do {
     r \<leftarrow> read_bits bs base f nsamples [0..<8] (start_bit + i * 8) 0;
     case r of
       None \<Rightarrow> Some None
     | Some b \<Rightarrow> read_mac bs base f nsamples start_bit is (m @ [b])
   }"

definition MAX_PEEK_BITS :: nat where "MAX_PEEK_BITS = 200"

definition peek_dst_mac :: "bytes \<Rightarrow> nat \<Rightarrow> nat \<Rightarrow> mac option option" where
  "peek_dst_mac bs base nbytes =
     (let nsamples = nbytes * 8; base_bit = base * 8
      in do {
        fo \<leftarrow> find_first_falling_edge bs base_bit nsamples;
        case fo of
          None \<Rightarrow> Some None
        | Some f \<Rightarrow> do {
            so \<leftarrow> find_sfd_end bs base_bit f nsamples MAX_PEEK_BITS;
            case so of
              None \<Rightarrow> Some None
            | Some sfd_end \<Rightarrow>
                (let start_bit = sfd_end + 1
                 in if MAX_PEEK_BITS < start_bit + 48 then Some None
                    else read_mac bs base_bit f nsamples start_bit [0..<6] [])
          }
      })"

definition derive_frame_len :: "bytes \<Rightarrow> nat" where
  "derive_frame_len frame =
     (if length frame < 18 then length frame
      else
        (let etype = be16 (frame ! 12) (frame ! 13)
         in if etype = 0x0800 then
              (let ip_total_len = unat (be16 (frame ! 16) (frame ! 17));
                   computed = max (14 + ip_total_len + 4) 64
               in if computed \<le> length frame then computed else length frame)
            else if etype = 0x0806 \<and> 64 \<le> length frame then 64
            else length frame))"

definition verify_fcs :: "bytes \<Rightarrow> nat \<Rightarrow> bool" where
  "verify_fcs frame frame_len =
     (if frame_len < 14 + 4 \<or> length frame < frame_len then False
      else
        (let computed = crc32_ieee802_3 (take (frame_len - 4) frame);
             on_wire = le32 (frame ! (frame_len - 4)) (frame ! (frame_len - 3))
               (frame ! (frame_len - 2)) (frame ! (frame_len - 1))
         in computed = on_wire))"

section \<open>Every read is in bounds\<close>

lemma sample_bit_Some: "off < 8 * length bs \<Longrightarrow> \<exists>b. sample_bit bs off = Some b"
  by (simp add: sample_bit_def)

lemma data_bit_total: "base + nsamples \<le> 8 * length bs \<Longrightarrow> \<exists>r. data_bit bs base f k nsamples = Some r"
  using sample_bit_Some [of "base + (f + HB1_CENTER_OFFSET + SAMPLES_PER_BIT * k)" bs]
  by (auto simp: data_bit_def Let_def)

lemma falling_edge_loop_total:
  "\<forall>i \<in> set is. base + i < 8 * length bs \<Longrightarrow> \<exists>r. falling_edge_loop bs base is prev = Some r"
proof (induction "is" arbitrary: prev)
  case (Cons i "is")
  obtain s where "sample_bit bs (base + i) = Some s" using sample_bit_Some [of "base + i" bs] Cons.prems by auto
  with Cons show ?case by simp
qed simp

lemma find_first_falling_edge_total:
  "0 < nsamples \<Longrightarrow> base + nsamples \<le> 8 * length bs \<Longrightarrow> \<exists>r. find_first_falling_edge bs base nsamples = Some r"
  using sample_bit_Some [of base bs] falling_edge_loop_total [of "[1..<nsamples]" base bs]
  by (auto simp: find_first_falling_edge_def)

lemma sfd_loop_total:
  assumes "base + nsamples \<le> 8 * length bs"
  shows "\<exists>r. sfd_loop bs base f nsamples ks prev = Some r"
proof (induction ks arbitrary: prev)
  case (Cons k ks)
  obtain r where "data_bit bs base f k nsamples = Some r" using data_bit_total [OF assms] by blast
  with Cons show ?case by (cases r) auto
qed simp

lemma find_sfd_end_total:
  assumes "base + nsamples \<le> 8 * length bs"
  shows "\<exists>r. find_sfd_end bs base f nsamples m = Some r"
proof -
  obtain r where "data_bit bs base f 0 nsamples = Some r" using data_bit_total [OF assms] by blast
  then show ?thesis
    using sfd_loop_total [OF assms, of f "[1..<m]"] by (cases r) (auto simp: find_sfd_end_def)
qed

lemma read_bits_total:
  assumes "base + nsamples \<le> 8 * length bs"
  shows "\<exists>r. read_bits bs base f nsamples js k b = Some r"
proof (induction js arbitrary: b)
  case (Cons j js)
  obtain r where "data_bit bs base f (k + j) nsamples = Some r" using data_bit_total [OF assms] by blast
  with Cons show ?case by (cases r) auto
qed simp

lemma read_mac_total:
  assumes "base + nsamples \<le> 8 * length bs"
  shows "\<exists>r. read_mac bs base f nsamples sb is m = Some r
    \<and> (\<forall>m'. r = Some m' \<longrightarrow> length m' = length m + length is)"
proof (induction "is" arbitrary: m)
  case (Cons i "is")
  obtain r where "read_bits bs base f nsamples [0..<8] (sb + i * 8) 0 = Some r"
    using read_bits_total [OF assms] by blast
  then show ?case using Cons.IH [of "m @ [the r]"] by (cases r) auto
qed simp

lemma peek_dst_mac_total:
  assumes "base + n \<le> length bs" and "0 < n"
  shows "\<exists>r. peek_dst_mac bs base n = Some r \<and> (\<forall>m. r = Some m \<longrightarrow> length m = 6)"
proof -
  have b: "base * 8 + n * 8 \<le> 8 * length bs" using assms(1) by simp
  obtain fo where fo: "find_first_falling_edge bs (base * 8) (n * 8) = Some fo"
    using find_first_falling_edge_total [OF _ b] assms(2) by auto
  show ?thesis
  proof (cases fo)
    case None
    with fo show ?thesis by (simp add: peek_dst_mac_def)
  next
    case (Some f)
    obtain so where so: "find_sfd_end bs (base * 8) f (n * 8) MAX_PEEK_BITS = Some so"
      using find_sfd_end_total [OF b] by blast
    show ?thesis
    proof (cases so)
      case None
      with fo so Some show ?thesis by (simp add: peek_dst_mac_def)
    next
      case (Some e)
      with fo so \<open>fo = Some f\<close> read_mac_total [OF b, of f "e + 1" "[0..<6]" "[]"] show ?thesis
        by (auto simp: peek_dst_mac_def Let_def)
    qed
  qed
qed

section \<open>Runs\<close>

text \<open>What an answer of the scan is: a maximal run of active bytes, long enough, and no stretch of
  \<open>min_len\<close> active bytes begins before it.\<close>

definition long_from :: "bytes \<Rightarrow> nat \<Rightarrow> nat \<Rightarrow> bool" where
  "long_from bs m j \<longleftrightarrow> j + m \<le> length bs \<and> (\<forall>i < m. active (bs ! (j + i)))"

lemma find_active_run_correct:
  "0 < m \<Longrightarrow> (case find_active_run_from bs start m of
      None \<Rightarrow> \<forall>j \<ge> start. \<not> long_from bs m j
    | Some (off, n) \<Rightarrow> start \<le> off \<and> m \<le> n \<and> off + n \<le> length bs
        \<and> (\<forall>i. off \<le> i \<and> i < off + n \<longrightarrow> active (bs ! i))
        \<and> (off + n < length bs \<longrightarrow> \<not> active (bs ! (off + n)))
        \<and> (\<forall>j. start \<le> j \<and> j < off \<longrightarrow> \<not> long_from bs m j))"
proof (induction bs start m rule: find_active_run_from.induct)
  case (1 bs start m)
  define s where "s = skip_while (\<lambda>b. \<not> active b) bs start"
  define i where "i = skip_while active bs s"
  have idle: "\<not> active (bs ! j)" if "start \<le> j" "j < s" for j
    using skip_while_all [OF that [unfolded s_def]] by simp
  have act: "active (bs ! j)" if "s \<le> j" "j < i" for j
    using skip_while_all [OF that [unfolded i_def]] .
  have ss: "start \<le> s" "s \<le> i" unfolding s_def i_def by (rule skip_while_ge)+
  have before: "\<not> long_from bs m j" if "start \<le> j" "j < s" for j
    using idle [OF that] \<open>0 < m\<close> by (auto simp: long_from_def intro!: exI [of _ 0])
  note step = find_active_run_from.simps [of bs start m, folded s_def, unfolded Let_def, folded i_def]
  show ?case
  proof (cases "length bs \<le> s")
    case True
    then have "\<not> long_from bs m j" if "start \<le> j" for j
      using before [of j] that \<open>0 < m\<close> by (cases "j < s") (auto simp: long_from_def)
    with True step show ?thesis by simp
  next
    case False
    then have ib: "i \<le> length bs" unfolding i_def by (intro skip_while_le) simp
    have stop: "\<not> active (bs ! i)" if "i < length bs"
      using that unfolding i_def by (rule skip_while_stop)
    show ?thesis
    proof (cases "m \<le> i - s")
      case True
      with step False have "find_active_run_from bs start m = Some (s, i - s)" by simp
      with True ss ib stop act before show ?thesis by auto
    next
      case short: False
      have cut: "\<not> long_from bs m j" if "start \<le> j" "j < i" for j
      proof (cases "j < s")
        case False
        have "\<exists>k < m. \<not> active (bs ! (j + k))" if "j + m \<le> length bs"
        proof -
          have "i - j < m" "j + (i - j) = i" "i < length bs"
            using short False \<open>j < i\<close> that by auto
          with stop show ?thesis by (intro exI [of _ "i - j"]) simp
        qed
        then show ?thesis by (auto simp: long_from_def)
      qed (rule before [OF that(1)])
      show ?thesis
      proof (cases "length bs \<le> i")
        case True
        then have "\<not> long_from bs m j" if "start \<le> j" for j
          using cut [of j] that \<open>0 < m\<close> by (cases "j < i") (auto simp: long_from_def)
        with True short False step show ?thesis by simp
      next
        case more: False
        then have rec: "find_active_run_from bs start m = find_active_run_from bs i m"
          using short False step by simp
        have ih: "case find_active_run_from bs i m of
            None \<Rightarrow> \<forall>j \<ge> i. \<not> long_from bs m j
          | Some (off, n) \<Rightarrow> i \<le> off \<and> m \<le> n \<and> off + n \<le> length bs
              \<and> (\<forall>k. off \<le> k \<and> k < off + n \<longrightarrow> active (bs ! k))
              \<and> (off + n < length bs \<longrightarrow> \<not> active (bs ! (off + n)))
              \<and> (\<forall>j. i \<le> j \<and> j < off \<longrightarrow> \<not> long_from bs m j)"
          by (rule 1(1) [OF s_def _ i_def refl]) (use False short more \<open>0 < m\<close> in auto)
        show ?thesis
        proof (cases "find_active_run_from bs i m")
          case None
          have "\<not> long_from bs m j" if "start \<le> j" for j
            using ih cut [of j] that unfolding None by (cases "j < i") auto
          then show ?thesis unfolding rec None by simp
        next
          case (Some r)
          obtain off n where r: "r = (off, n)" by (cases r)
          have "\<not> long_from bs m j" if "start \<le> j" "j < off" for j
            using ih cut [of j] that unfolding Some r by (cases "j < i") auto
          then show ?thesis unfolding rec using ih ss unfolding Some r by auto
        qed
      qed
    qed
  qed
qed

section \<open>The frame check\<close>

lemma to_le32_inj: "to_le32 a = to_le32 b \<longleftrightarrow> a = b"
proof
  assume "to_le32 a = to_le32 b"
  then have "le32 (ucast a) (ucast (drop_bit 8 a)) (ucast (drop_bit 16 a)) (ucast (drop_bit 24 a))
      = le32 (ucast b) (ucast (drop_bit 8 b)) (ucast (drop_bit 16 b)) (ucast (drop_bit 24 b))"
    unfolding to_le32_def list.inject by (elim conjE) (simp only:)
  then show "a = b" by (simp only: le32_to_le32)
qed simp

lemma take_fcs:
  assumes "18 \<le> n" and "n \<le> length frame"
  shows "take n frame = take (n - 4) frame
    @ [frame ! (n - 4), frame ! (n - 3), frame ! (n - 2), frame ! (n - 1)]"
proof -
  have "take 4 (drop (n - 4) frame)
      = [frame ! (n - 4), frame ! (n - 3), frame ! (n - 2), frame ! (n - 1)]"
  proof (rule nth_equalityI)
    fix i assume "i < length (take 4 (drop (n - 4) frame))"
    then have "i < 4" by simp
    then consider "i = 0" | "i = 1" | "i = 2" | "i = 3" by linarith
    then show "take 4 (drop (n - 4) frame) ! i
        = [frame ! (n - 4), frame ! (n - 3), frame ! (n - 2), frame ! (n - 1)] ! i"
      using assms by cases (simp_all add: numeral_eq_Suc Suc_diff_Suc)
  qed (use assms in simp)
  then show ?thesis using take_add [of "n - 4" 4 frame] assms by simp
qed

text \<open>The check in terms of the register: after all bytes, address to FCS, it holds the residue.\<close>

lemma verify_fcs_residue:
  "verify_fcs frame n \<longleftrightarrow>
     18 \<le> n \<and> n \<le> length frame \<and> update 0xFFFFFFFF (take n frame) = fcs_residue"
proof (cases "18 \<le> n \<and> n \<le> length frame")
  case True
  let ?f = "[frame ! (n - 4), frame ! (n - 3), frame ! (n - 2), frame ! (n - 1)]"
  have "update 0xFFFFFFFF (take n frame) = fcs_residue
      \<longleftrightarrow> ?f = to_le32 (crc32_ieee802_3 (take (n - 4) frame))"
    using take_fcs [of n frame] True update_fcs_residue [of ?f]
    by (simp add: update_append crc32_ieee802_3_def)
  also have "\<dots> \<longleftrightarrow> le32 (frame ! (n - 4)) (frame ! (n - 3)) (frame ! (n - 2)) (frame ! (n - 1))
      = crc32_ieee802_3 (take (n - 4) frame)"
    by (simp only: to_le32_inj [symmetric] to_le32_le32)
  finally show ?thesis using True by (auto simp: verify_fcs_def)
qed (auto simp: verify_fcs_def)

lemma verify_fcs_append:
  assumes "14 \<le> length d"
  shows "verify_fcs (d @ to_le32 (crc32_ieee802_3 d) @ s) (length d + 4)"
  using assms update_fcs_residue [of "to_le32 (crc32_ieee802_3 d)" "update 0xFFFFFFFF d"]
  by (simp add: verify_fcs_residue update_append crc32_ieee802_3_def)

lemma derive_frame_len_le: "derive_frame_len frame \<le> length frame"
  by (simp add: derive_frame_len_def Let_def)

section \<open>Properties\<close>

text \<open>The scan for active runs is exact: it answers a maximal stretch of active bytes of at
  least the asked length, and passes over no place where so many active bytes begin.\<close>

theorem active_run_exact:
  "case find_active_run_from bs start (Suc m) of
      None \<Rightarrow> \<forall>j \<ge> start. \<not> long_from bs (Suc m) j
    | Some (off, n) \<Rightarrow> start \<le> off \<and> Suc m \<le> n \<and> off + n \<le> length bs
        \<and> (\<forall>i. off \<le> i \<and> i < off + n \<longrightarrow> active (bs ! i))
        \<and> (off + n < length bs \<longrightarrow> \<not> active (bs ! (off + n)))
        \<and> (\<forall>j. start \<le> j \<and> j < off \<longrightarrow> \<not> long_from bs (Suc m) j)"
  by (rule find_active_run_correct) simp

lemma active_run_example: "find_active_run_from [0, 7, 0, 5, 6, 0xFF] 0 (Suc 1) = Some (3, 2)"
  by (simp add: find_active_run_from.simps skip_while.simps active_def)

theorem active_run_exact_witness:
  "\<not> long_from [0, 7, 0, 5, 6, 0xFF] (Suc 1) 1 \<and> find_active_run_from [0, 7, 0, 5, 6, 0xFF] 0 (Suc 1) = Some (3, 2)"
proof -
  have "\<forall>j. 0 \<le> j \<and> j < 3 \<longrightarrow> \<not> long_from [0, 7, 0, 5, 6, 0xFF] (Suc 1) j"
    using active_run_exact [where bs = "[0, 7, 0, 5, 6, 0xFF]" and start = 0 and m = 1]
    unfolding active_run_example option.case prod.case by (elim conjE)
  then have "\<not> long_from [0, 7, 0, 5, 6, 0xFF] (Suc 1) 1" by (elim conjE allE [of _ 1]) simp
  with active_run_example show ?thesis by (rule conjI [rotated])
qed

text \<open>The address peek is safe on everything the scan hands it: for a run that the scan found
  it stays inside the sample buffer, returns, and an address it answers has six bytes.\<close>

theorem peek_in_bounds:
  assumes "find_active_run_from bs start 100 = Some (off, n)"
  shows "\<exists>r. peek_dst_mac bs off n = Some r \<and> (\<forall>m. r = Some m \<longrightarrow> length m = 6)"
  using find_active_run_correct [where bs = bs and start = start and m = 100] assms by (intro peek_dst_mac_total) simp_all

text \<open>Two hundred bytes of one pattern: a run, whose peek finds a falling edge and a delimiter.\<close>

lemma skip_while_all_p:
  "(\<forall>j. i \<le> j \<and> j < length bs \<longrightarrow> p (bs ! j)) \<Longrightarrow> i \<le> length bs \<Longrightarrow> skip_while p bs i = length bs"
  using skip_while_le [of i bs p] skip_while_stop [of p bs i] skip_while_ge [of i p bs]
  by (cases "skip_while p bs i < length bs") auto

lemma run_of_replicate:
  assumes "active b" and "0 < m" and "m \<le> n"
  shows "find_active_run_from (replicate n b) 0 m = Some (0, n)"
proof -
  have "skip_while (\<lambda>b. \<not> active b) (replicate n b) 0 = 0"
    using assms by (subst skip_while.simps) simp
  moreover have "skip_while active (replicate n b) 0 = n"
    using skip_while_all_p [of 0 "replicate n b" active] assms by simp
  ultimately show ?thesis using assms by (simp add: find_active_run_from.simps)
qed

theorem peek_in_bounds_witness:
  "\<exists>r. peek_dst_mac (replicate 120 0x55) 0 120 = Some r \<and> (\<forall>m. r = Some m \<longrightarrow> length m = 6)"
  by (rule peek_in_bounds [where start = 0]) (rule run_of_replicate; simp add: active_def)

text \<open>The frame check catches every burst of at most four bytes, in the header, the payload
  or the check sequence itself: of two frames that differ only there at most one passes.\<close>

theorem verify_fcs_rejects_bursts:
  assumes "verify_fcs (p @ u @ s) n"
    and "length u = length v" and "length u \<le> 4" and "u \<noteq> v" and "length p + length u \<le> n"
  shows "\<not> verify_fcs (p @ v @ s) n"
proof
  assume v: "verify_fcs (p @ v @ s) n"
  define t where "t = take (n - length p - length u) s"
  have "take n (p @ u @ s) = p @ u @ t" "take n (p @ v @ s) = p @ v @ t"
    using assms(2,5) by (simp_all add: t_def)
  with assms(1) v have "update 0xFFFFFFFF (p @ u @ t) = update 0xFFFFFFFF (p @ v @ t)"
    by (simp only: verify_fcs_residue)
  then have "update (update 0xFFFFFFFF p) (u @ t) = update (update 0xFFFFFFFF p) (v @ t)"
    by (simp only: update_append [of _ p])
  with update_burst [OF assms(2,3,4)] show False by blast
qed

theorem verify_fcs_rejects_bursts_witness:
  "\<not> verify_fcs (replicate 13 0 @ [1, 2] @ [0] @ to_le32 (crc32_ieee802_3 (replicate 16 0))) 20"
proof (rule verify_fcs_rejects_bursts)
  show "verify_fcs (replicate 13 0 @ [0, 0] @ [0] @ to_le32 (crc32_ieee802_3 (replicate 16 0))) 20"
    using verify_fcs_append [of "replicate 16 0" "[]"] by (simp add: numeral_eq_Suc)
qed simp_all

end
