(* ===== verification/EthTx.thy ===== *)
theory EthTx
  imports Manchester Checksum EthRx
begin

text \<open>
  The transmitter, \<^verbatim>\<open>src/eth_tx.rs\<close>. The hardware is a parameter: a clock that every register access
  advances, the carrier flag and the free space of the PIO FIFO as functions of it. The FIFO is the
  list of words it accepted, oldest first. \<^verbatim>\<open>while !tx.write(w) {}\<close> spins until the FIFO accepts, as a
  partial function; the bounded loops are total. Interrupt masking by \<^verbatim>\<open>critical_section\<close> has no state.
  The default build is half-duplex: carrier sense is on.
\<close>

section \<open>State\<close>

definition MAX_TX_FRAME :: nat where "MAX_TX_FRAME = 1526"
definition CARRIER_WAIT_SPINS :: nat where "CARRIER_WAIT_SPINS = 200000"
definition CSMA_SLOT_CYCLES :: u32 where "CSMA_SLOT_CYCLES = 240"
definition CSMA_BACKOFF_MASK :: u32 where "CSMA_BACKOFF_MASK = 0x0F"
definition CSMA_MAX_ATTEMPTS :: nat where "CSMA_MAX_ATTEMPTS = 10"

record udp_endpoint =
  src_mac :: mac
  dst_mac :: mac
  ep_src_ip :: bytes
  ep_dst_ip :: bytes
  ep_src_port :: u16
  ep_dst_port :: u16

text \<open>The hardware, and \<^verbatim>\<open>EthTx\<close> with the clock and the words the FIFO took.\<close>

record line =
  carrier :: "nat \<Rightarrow> bool"
  fifo_free :: "nat \<Rightarrow> bool"

record eth_tx =
  clock :: nat
  sent :: "u32 list"
  ip_identifier :: u16
  lfsr :: u32
  raw_frame :: bytes

definition tx_new :: "nat \<Rightarrow> eth_tx" where
  "tx_new t = \<lparr>clock = t, sent = [], ip_identifier = 0, lfsr = 0x2545F491, raw_frame = replicate MAX_TX_FRAME 0\<rparr>"

section \<open>Carrier sense\<close>

definition next_rand :: "eth_tx \<Rightarrow> u32 \<times> eth_tx" where
  "next_rand tx =
     (let x = lfsr tx; x = x XOR push_bit 13 x; x = x XOR drop_bit 17 x; x = x XOR push_bit 5 x
      in (x, tx\<lparr>lfsr := x\<rparr>))"

definition carrier_present :: "line \<Rightarrow> eth_tx \<Rightarrow> bool \<times> eth_tx" where
  "carrier_present hw tx = (carrier hw (clock tx), tx\<lparr>clock := clock tx + 1\<rparr>)"

function wait_carrier_loop :: "line \<Rightarrow> nat \<Rightarrow> eth_tx \<Rightarrow> nat \<times> eth_tx" where
  "wait_carrier_loop hw spins tx =
     (let (busy, tx) = carrier_present hw tx
      in if busy then
           (let spins = spins + 1
            in if CARRIER_WAIT_SPINS \<le> spins then (spins, tx) else wait_carrier_loop hw spins tx)
         else (spins, tx))"
  by auto
termination by (relation "measure (\<lambda>(hw, spins, tx). CARRIER_WAIT_SPINS - spins)") auto

declare wait_carrier_loop.simps [simp del]

definition wait_carrier_idle :: "line \<Rightarrow> eth_tx \<Rightarrow> nat \<times> eth_tx" where
  "wait_carrier_idle hw tx = wait_carrier_loop hw 0 tx"

primrec csma_loop :: "line \<Rightarrow> nat \<Rightarrow> eth_tx \<Rightarrow> eth_tx" where
  "csma_loop hw 0 tx = tx"
| "csma_loop hw (Suc n) tx =
     (let (_, tx) = wait_carrier_idle hw tx;
          (r, tx) = next_rand tx;
          slots = r AND CSMA_BACKOFF_MASK;
          tx = (if slots \<noteq> 0 then tx\<lparr>clock := clock tx + unat (slots * CSMA_SLOT_CYCLES)\<rparr> else tx);
          (busy, tx) = carrier_present hw tx
      in if \<not> busy then tx else csma_loop hw n tx)"

definition csma_acquire :: "line \<Rightarrow> eth_tx \<Rightarrow> eth_tx" where
  "csma_acquire hw tx = csma_loop hw CSMA_MAX_ATTEMPTS tx"

section \<open>Sending\<close>

definition tx_write :: "line \<Rightarrow> eth_tx \<Rightarrow> u32 \<Rightarrow> bool \<times> eth_tx" where
  "tx_write hw tx w =
     (let now = clock tx; tx = tx\<lparr>clock := now + 1\<rparr>
      in if fifo_free hw now then (True, tx\<lparr>sent := sent tx @ [w]\<rparr>) else (False, tx))"

partial_function (option) push_word :: "line \<Rightarrow> eth_tx \<Rightarrow> u32 \<Rightarrow> eth_tx option" where
  "push_word hw tx w =
     (case tx_write hw tx w of (ok, tx) \<Rightarrow> if ok then Some tx else push_word hw tx w)"

primrec push_words :: "line \<Rightarrow> u32 list \<Rightarrow> eth_tx \<Rightarrow> eth_tx option" where
  "push_words hw [] tx = Some tx"
| "push_words hw (w # ws) tx = do {
     tx \<leftarrow> push_word hw tx w;
     push_words hw ws tx
   }"

definition send_nlp :: "line \<Rightarrow> eth_tx \<Rightarrow> eth_tx option" where
  "send_nlp hw tx =
     (let (_, tx) = wait_carrier_idle hw tx;
          (_, tx) = tx_write hw tx 0x0000000A
      in push_words hw (replicate 12 0) tx)"

definition encode :: "bytes \<Rightarrow> u32 list" where
  "encode bs = map (\<lambda>b. MANCHESTER_TABLE ! unat b) bs"

definition send_raw_frame :: "line \<Rightarrow> eth_tx \<Rightarrow> bytes \<Rightarrow> eth_tx option" where
  "send_raw_frame hw tx body =
     (let pad_len = 60 - length body;
          crc = (if pad_len = 0 then crc32_ieee802_3 body else crc32_ieee802_3_padded body pad_len);
          crc_bytes = to_le32 crc;
          tx = csma_acquire hw tx;
          pre_word = MANCHESTER_TABLE ! 0x55;
          zero_word = MANCHESTER_TABLE ! 0x00
      in do {
        tx \<leftarrow> push_words hw (replicate 7 pre_word) tx;
        tx \<leftarrow> push_word hw tx (MANCHESTER_TABLE ! 0xD5);
        tx \<leftarrow> push_words hw (encode body) tx;
        tx \<leftarrow> push_words hw (replicate pad_len zero_word) tx;
        tx \<leftarrow> push_words hw (encode crc_bytes) tx;
        tx \<leftarrow> push_word hw tx 0x00000AAA;
        push_words hw (replicate 12 0) tx
      })"

section \<open>UDP frames\<close>

text \<open>\<^verbatim>\<open>ipv4_checksum\<close>: the loop that folds the carries back in, and the sum.\<close>

lemma unat_low16: "unat (s AND 0xffff) = unat s mod 65536" for s :: u32
proof -
  have "(0xffff :: u32) = mask 16" by (simp add: mask_eq_exp_minus_1)
  then show ?thesis
    by (simp only: unsigned_take_bit_eq flip: take_bit_eq_mask) (simp add: take_bit_eq_mod)
qed

lemma unat_high16: "unat (drop_bit 16 s) = unat s div 65536" for s :: u32
  using unat_u32_lt [of s]
  by (simp only: unsigned_drop_bit_eq) (simp add: drop_bit_eq_div take_bit_nat_eq_self)

lemma unat_fold_step: "unat ((s AND 0xffff) + drop_bit 16 s) = unat s mod 65536 + unat s div 65536"
  for s :: u32
proof -
  have "unat s mod 65536 + unat s div 65536 < 2 ^ 32" using unat_u32_lt [of s] by simp
  then show ?thesis by (simp add: unat_word_ariths unat_low16 unat_high16)
qed

function fold_carries :: "u32 \<Rightarrow> u32" where
  "fold_carries s = (if drop_bit 16 s \<noteq> 0 then fold_carries ((s AND 0xffff) + drop_bit 16 s) else s)"
  by auto

lemma carries_iff: "drop_bit 16 s \<noteq> 0 \<longleftrightarrow> 65536 \<le> unat s" for s :: u32
proof -
  have "drop_bit 16 s = 0 \<longleftrightarrow> unat s div 65536 = 0"
    by (simp only: unat_high16 [symmetric] unsigned_eq_0_iff)
  then show ?thesis by (simp add: div_eq_0_iff not_less)
qed

lemma fold_less: "65536 \<le> n \<Longrightarrow> n mod 65536 + n div 65536 < n" for n :: nat
  using div_mult_mod_eq [of n 65536] div_le_mono [of 65536 n 65536] by linarith

termination fold_carries
  by (relation "measure unat") (simp_all only: wf_measure in_measure unat_fold_step carries_iff fold_less)

declare fold_carries.simps [simp del]

definition ipv4_checksum :: "u16 list \<Rightarrow> u16" where
  "ipv4_checksum ws = NOT (ucast (fold_carries (foldl (\<lambda>s w. s + ucast w) 0 ws)))"

text \<open>\<^verbatim>\<open>out[i..i + n].copy_from_slice(xs)\<close> (and \<^verbatim>\<open>out[i] = x\<close>), which panics past the end.\<close>

definition put :: "bytes \<Rightarrow> nat \<Rightarrow> bytes \<Rightarrow> bytes option" where
  "put out i xs = (if i + length xs \<le> length out then Some (take i out @ xs @ drop (i + length xs) out) else None)"

definition build_eth_ipv4_udp_frame :: "udp_endpoint \<Rightarrow> bytes \<Rightarrow> bytes \<Rightarrow> u16 \<Rightarrow> (bytes \<times> nat) option" where
  "build_eth_ipv4_udp_frame ep payload out ip_id = do {
     out \<leftarrow> put out 0 (replicate 7 0x55);
     let i = 7;
     out \<leftarrow> put out i [0xD5];
     let i = i + 1;
     let frame_start = i;
     out \<leftarrow> put out i (dst_mac ep);
     let i = i + 6;
     out \<leftarrow> put out i (src_mac ep);
     let i = i + 6;
     out \<leftarrow> put out i [0x08, 0x00];
     let i = i + 2;
     let udp_len = (word_of_nat (length payload + 8) :: u16);
     let ip_total_len = 20 + udp_len;
     let ip_header_start = i;
     out \<leftarrow> put out i [0x45];
     out \<leftarrow> put out (i + 1) [0x00];
     out \<leftarrow> put out (i + 2) (to_be16 ip_total_len);
     out \<leftarrow> put out (i + 4) (to_be16 ip_id);
     out \<leftarrow> put out (i + 6) [0x40];
     out \<leftarrow> put out (i + 7) [0x00];
     out \<leftarrow> put out (i + 8) [0x40];
     out \<leftarrow> put out (i + 9) [0x11];
     out \<leftarrow> put out (i + 10) [0];
     out \<leftarrow> put out (i + 11) [0];
     out \<leftarrow> put out (i + 12) (ep_src_ip ep);
     out \<leftarrow> put out (i + 16) (ep_dst_ip ep);
     let cksum = ipv4_checksum (map (\<lambda>k. be16 (out ! (ip_header_start + 2 * k)) (out ! (ip_header_start + 2 * k + 1))) [0..<10]);
     out \<leftarrow> put out (i + 10) (to_be16 cksum);
     let i = i + 20;
     out \<leftarrow> put out i (to_be16 (ep_src_port ep));
     let i = i + 2;
     out \<leftarrow> put out i (to_be16 (ep_dst_port ep));
     let i = i + 2;
     out \<leftarrow> put out i (to_be16 udp_len);
     let i = i + 2;
     out \<leftarrow> put out i [0];
     out \<leftarrow> put out (i + 1) [0];
     let i = i + 2;
     out \<leftarrow> put out i payload;
     let i = i + length payload;
     let crc = crc32_ieee802_3 (take (i - frame_start) (drop frame_start out));
     out \<leftarrow> put out i (to_le32 crc);
     let i = i + 4;
     Some (out, i)
   }"

definition send_udp_broadcast :: "line \<Rightarrow> eth_tx \<Rightarrow> udp_endpoint \<Rightarrow> bytes \<Rightarrow> eth_tx option" where
  "send_udp_broadcast hw tx ep payload = do {
     (out, total_bytes) \<leftarrow> build_eth_ipv4_udp_frame ep payload (raw_frame tx) (ip_identifier tx);
     let tx = tx\<lparr>raw_frame := out\<rparr>;
     let tx = tx\<lparr>ip_identifier := ip_identifier tx + 1\<rparr>;
     let tx = snd (wait_carrier_idle hw tx);
     tx \<leftarrow> push_words hw (encode (take total_bytes (raw_frame tx))) tx;
     tx \<leftarrow> push_word hw tx 0x00000AAA;
     push_words hw (replicate 12 0) tx
   }"

section \<open>The header checksum\<close>

lemma fold_carries_spec:
  "unat (fold_carries s) < 65536 \<and> unat (fold_carries s) mod 65535 = unat s mod 65535
   \<and> (fold_carries s = 0 \<longleftrightarrow> s = 0)"
proof (induction s rule: fold_carries.induct)
  case (1 s)
  show ?case
  proof (cases "drop_bit 16 s = 0")
    case True
    then have "unat s < 65536" using carries_iff [of s] by simp
    with True show ?thesis by (simp add: fold_carries.simps [of s])
  next
    case False
    let ?t = "(s AND 0xffff) + drop_bit 16 s"
    have t: "unat ?t = unat s mod 65536 + unat s div 65536" by (rule unat_fold_step)
    have "unat s = unat ?t + 65535 * (unat s div 65536)"
      unfolding t using div_mult_mod_eq [of "unat s" 65536] by linarith
    then have "unat ?t mod 65535 = unat s mod 65535" by (metis mod_mult_self2)
    moreover have "?t \<noteq> 0"
    proof
      assume "?t = 0"
      then have "unat s mod 65536 + unat s div 65536 = 0" using t by simp
      moreover have "65536 \<le> unat s" using False carries_iff [of s] by simp
      ultimately show False using div_le_mono [of 65536 "unat s" 65536] by simp
    qed
    moreover have "s \<noteq> 0" using False by auto
    ultimately show ?thesis using 1 False by (simp add: fold_carries.simps [of s])
  qed
qed

lemma sum_words:
  "unat s + 65535 * length ws < 2 ^ 32 \<Longrightarrow>
     unat (foldl (\<lambda>s w. s + ucast w) s ws) = unat s + sum_list (map unat ws)" for s :: u32 and ws :: "u16 list"
proof (induction ws arbitrary: s)
  case (Cons w ws)
  have w: "unat w \<le> 65535" by (rule unat_le_of_u16)
  with Cons.prems have "unat (s + ucast w) = unat s + unat w"
    by (simp add: unat_word_ariths)
  with Cons.IH [of "s + ucast w"] Cons.prems w show ?case by simp
qed simp

lemma sum_list_residue: "sum_list (map unat ws) mod 65535 = res (osum ws)"
proof (induction ws)
  case (Cons w ws)
  have "sum_list (map unat (w # ws)) mod 65535 = (unat w mod 65535 + sum_list (map unat ws) mod 65535) mod 65535"
    by (simp add: mod_add_eq)
  also have "\<dots> = res (osum (w # ws))"
    unfolding Cons by (simp add: res_add1c) (simp add: res_def)
  finally show ?case .
qed simp

lemma sum_list_zero: "sum_list (map unat ws) = 0 \<longleftrightarrow> osum ws = 0" for ws :: "u16 list"
  by (induction ws) (auto simp: unsigned_eq_0_iff)

text \<open>Adding first and folding the carries at the end, as here, is the end-around-carry sum of
  the incremental updates in \<^verbatim>\<open>conntrack.rs\<close>.\<close>

lemma ipv4_checksum_osum:
  assumes "length ws \<le> 65536"
  shows "ipv4_checksum ws = NOT (osum ws)"
proof -
  define s where "s = foldl (\<lambda>s w. s + ucast w) (0 :: u32) ws"
  have "65535 * length ws < 2 ^ 32" using assms by simp
  then have s: "unat s = sum_list (map unat ws)" using sum_words [of 0 ws] by (simp add: s_def)
  define c where "c = (ucast (fold_carries s) :: u16)"
  have c: "unat c = unat (fold_carries s)"
    using fold_carries_spec [of s] by (simp add: c_def unsigned_ucast_eq take_bit_eq_mod)
  have "res c = res (osum ws)"
    using fold_carries_spec [of s] by (simp add: res_def c s sum_list_residue [unfolded res_def])
  moreover have "c = 0 \<longleftrightarrow> osum ws = 0"
  proof -
    have "c = 0 \<longleftrightarrow> fold_carries s = 0" using c by (metis unsigned_eq_0_iff)
    also have "\<dots> \<longleftrightarrow> s = 0" using fold_carries_spec [of s] by simp
    also have "\<dots> \<longleftrightarrow> osum ws = 0" using s sum_list_zero [of ws] by (metis unsigned_eq_0_iff)
    finally show ?thesis .
  qed
  ultimately have "c = osum ws"
    using res_eqD [of c "osum ws"] by (cases "c = 0") simp_all
  then show ?thesis by (simp add: ipv4_checksum_def s_def [symmetric] c_def [symmetric])
qed

section \<open>What gets sent\<close>

text \<open>The documented behaviour of the state machine: it drains the FIFO, so space comes back.\<close>

definition drains :: "line \<Rightarrow> bool" where
  "drains hw \<longleftrightarrow> (\<forall>t. \<exists>t' \<ge> t. fifo_free hw t')"

lemma push_word_after:
  "fifo_free hw (clock tx + d) \<Longrightarrow>
     \<exists>t. push_word hw tx w = Some (tx\<lparr>clock := t, sent := sent tx @ [w]\<rparr>)"
proof (induction d arbitrary: tx)
  case 0
  then show ?case by (intro exI [of _ "clock tx + 1"]) (simp add: push_word.simps [of hw tx] tx_write_def Let_def)
next
  case (Suc d)
  show ?case
  proof (cases "fifo_free hw (clock tx)")
    case True
    then show ?thesis by (intro exI [of _ "clock tx + 1"]) (simp add: push_word.simps [of hw tx] tx_write_def Let_def)
  next
    case False
    then have "push_word hw tx w = push_word hw (tx\<lparr>clock := clock tx + 1\<rparr>) w"
      by (simp add: push_word.simps [of hw tx] tx_write_def Let_def)
    with Suc.IH [of "tx\<lparr>clock := clock tx + 1\<rparr>"] Suc.prems show ?thesis by simp
  qed
qed

lemma push_word_sent:
  assumes "drains hw"
  shows "\<exists>t. push_word hw tx w = Some (tx\<lparr>clock := t, sent := sent tx @ [w]\<rparr>)"
proof -
  obtain t' where "clock tx \<le> t'" "fifo_free hw t'" using assms by (auto simp: drains_def)
  then have "fifo_free hw (clock tx + (t' - clock tx))" by simp
  then show ?thesis by (rule push_word_after)
qed

lemma push_words_sent:
  assumes "drains hw"
  shows "\<exists>t. push_words hw ws tx = Some (tx\<lparr>clock := t, sent := sent tx @ ws\<rparr>)"
proof (induction ws arbitrary: tx)
  case Nil
  then show ?case by (intro exI [of _ "clock tx"]) simp
next
  case (Cons w ws)
  obtain t where t: "push_word hw tx w = Some (tx\<lparr>clock := t, sent := sent tx @ [w]\<rparr>)"
    using push_word_sent [OF assms] by blast
  obtain t' where "push_words hw ws (tx\<lparr>clock := t, sent := sent tx @ [w]\<rparr>)
      = Some (tx\<lparr>clock := t', sent := (sent tx @ [w]) @ ws\<rparr>)"
    using Cons [of "tx\<lparr>clock := t, sent := sent tx @ [w]\<rparr>"] by auto
  with t show ?case by auto
qed

lemma push_words_append:
  "push_words hw (xs @ ys) tx = do { tx \<leftarrow> push_words hw xs tx; push_words hw ys tx }"
  by (induction xs arbitrary: tx) simp_all

lemma push_word_words: "push_word hw tx w = push_words hw [w] tx"
  by simp

lemma encode_append [simp]: "encode (xs @ ys) = encode xs @ encode ys"
  by (simp add: encode_def)

lemma encode_replicate [simp]: "encode (replicate n b) = replicate n (MANCHESTER_TABLE ! unat b)"
  by (simp add: encode_def)

text \<open>The bytes of a frame on the line: the body, padded to 60, with its check sequence.\<close>

definition frame_bytes :: "bytes \<Rightarrow> bytes" where
  "frame_bytes body =
     (let padded = body @ replicate (60 - length body) 0 in padded @ to_le32 (crc32_ieee802_3 padded))"

definition on_wire :: "bytes \<Rightarrow> u32 list" where
  "on_wire bs = encode (replicate 7 0x55 @ [0xD5] @ bs) @ [0xAAA] @ replicate 12 0"

lemma crc_of_padding: "crc32_ieee802_3_padded data n = crc32_ieee802_3 (data @ replicate n 0)"
  by (simp add: crc32_ieee802_3_padded_def crc32_ieee802_3_def update_append update_replicate_0)

lemma send_raw_frame_words: "send_raw_frame hw tx body = push_words hw (on_wire (frame_bytes body)) (csma_acquire hw tx)"
proof -
  have crc: "(if 60 - length body = 0 then crc32_ieee802_3 body else crc32_ieee802_3_padded body (60 - length body))
      = crc32_ieee802_3 (body @ replicate (60 - length body) 0)"
    by (simp add: crc_of_padding)
  have e: "MANCHESTER_TABLE ! unat (b :: u8) = hd (encode [b])" for b by (simp add: encode_def)
  show ?thesis
    unfolding send_raw_frame_def Let_def crc push_word_words on_wire_def frame_bytes_def
      encode_append encode_replicate append_assoc push_words_append [symmetric] bind_assoc [symmetric]
    by (simp add: encode_def push_words_append [symmetric] flip: append_assoc)
qed

lemma verify_frame_bytes: "verify_fcs (frame_bytes body @ rest) (max (length body) 60 + 4)"
proof -
  let ?p = "body @ replicate (60 - length body) 0"
  have "length ?p = max (length body) 60" by simp
  with verify_fcs_append [of ?p rest] show ?thesis by (simp add: frame_bytes_def Let_def)
qed

section \<open>Carrier sense, bounded\<close>

lemma wait_carrier_clock:
  "spins \<le> CARRIER_WAIT_SPINS \<Longrightarrow> \<exists>n t. wait_carrier_loop hw spins tx = (n, tx\<lparr>clock := t\<rparr>)
     \<and> clock tx < t \<and> t \<le> clock tx + (CARRIER_WAIT_SPINS - spins) + 1"
proof (induction hw spins tx rule: wait_carrier_loop.induct)
  case (1 hw spins tx)
  show ?case
  proof (cases "carrier hw (clock tx) \<and> spins + 1 < CARRIER_WAIT_SPINS")
    case True
    then obtain n t where "wait_carrier_loop hw (spins + 1) (tx\<lparr>clock := clock tx + 1\<rparr>)
        = (n, tx\<lparr>clock := t\<rparr>) \<and> clock tx + 1 < t \<and> t \<le> clock tx + 1 + (CARRIER_WAIT_SPINS - (spins + 1)) + 1"
      using 1(1) [of "(True, tx\<lparr>clock := clock tx + 1\<rparr>)" True "tx\<lparr>clock := clock tx + 1\<rparr>" "spins + 1"]
      by (auto simp: carrier_present_def)
    with True show ?thesis
      by (subst wait_carrier_loop.simps) (auto simp: carrier_present_def)
  next
    case False
    then show ?thesis
      by (subst wait_carrier_loop.simps) (auto simp: carrier_present_def Let_def intro!: exI [of _ "clock tx + 1"])
  qed
qed

lemma wait_carrier_idle_clock:
  obtains n t where "wait_carrier_idle hw tx = (n, tx\<lparr>clock := t\<rparr>)" and "clock tx < t"
    and "t \<le> clock tx + CARRIER_WAIT_SPINS + 1"
  using wait_carrier_clock [of 0 hw tx] by (auto simp: wait_carrier_idle_def)

definition xorshift :: "u32 \<Rightarrow> u32" where
  "xorshift x =
     (let x = x XOR push_bit 13 x; x = x XOR drop_bit 17 x in x XOR push_bit 5 x)"

lemma next_rand_xorshift: "next_rand tx = (xorshift (lfsr tx), tx\<lparr>lfsr := xorshift (lfsr tx)\<rparr>)"
  by (simp add: next_rand_def xorshift_def Let_def)

lemma xor_push_nonzero:
  fixes x :: "'a::len word"
  assumes "x XOR push_bit k x = 0" and "0 < k"
  shows "x = 0"
proof (rule word_all_bits_zero)
  fix n assume "n < LENGTH('a)"
  then show "\<not> bit x n"
  proof (induction n rule: less_induct)
    case (less n)
    have "bit (x XOR push_bit k x) n = False" using assms(1) by simp
    then have "bit x n \<longleftrightarrow> k \<le> n \<and> bit x (n - k)" using less.prems by (auto simp: bit_simps)
    with less assms(2) show ?case by auto
  qed
qed

lemma xor_drop_nonzero:
  fixes x :: "'a::len word"
  assumes "x XOR drop_bit k x = 0" and "0 < k"
  shows "x = 0"
proof (rule word_all_bits_zero)
  fix n assume "n < LENGTH('a)"
  then show "\<not> bit x n"
  proof (induction "LENGTH('a) - n" arbitrary: n rule: less_induct)
    case less
    have "bit (x XOR drop_bit k x) n = False" using assms(1) by simp
    then have x: "bit x n \<longleftrightarrow> bit x (k + n)" by (simp add: bit_simps)
    show ?case
    proof (cases "k + n < LENGTH('a)")
      case True
      with less.hyps [of "k + n"] less.prems assms(2) x show ?thesis by simp
    next
      case False
      with x show ?thesis by (auto dest: bit_imp_le_length)
    qed
  qed
qed

lemma xorshift_nonzero: "x \<noteq> 0 \<Longrightarrow> xorshift x \<noteq> 0"
  unfolding xorshift_def Let_def
  by (metis xor_push_nonzero xor_drop_nonzero zero_less_numeral)

lemma xorshift_iter_nonzero: "x \<noteq> 0 \<Longrightarrow> (xorshift ^^ k) x \<noteq> 0"
  by (induction k) (simp_all add: xorshift_nonzero)

definition ATTEMPT_BOUND :: nat where
  "ATTEMPT_BOUND = CARRIER_WAIT_SPINS + 15 * 240 + 2"

lemma backoff_bound: "unat ((r AND CSMA_BACKOFF_MASK) * CSMA_SLOT_CYCLES) \<le> 15 * 240"
proof -
  have "(0x0F :: u32) = mask 4" by (simp add: mask_eq_exp_minus_1)
  then have "unat (r AND 0x0F) = unat r mod 16"
    by (simp only: unsigned_take_bit_eq flip: take_bit_eq_mask) (simp add: take_bit_eq_mod)
  then have "unat (r AND 0x0F) < 16" by simp
  then have "unat (r AND 0x0F) * 240 \<le> 15 * 240" by simp
  then show ?thesis
    by (simp add: CSMA_BACKOFF_MASK_def CSMA_SLOT_CYCLES_def unat_word_ariths)
qed

lemma lfsr_clock_commute: "tx\<lparr>lfsr := a, clock := b\<rparr> = tx\<lparr>clock := b, lfsr := a\<rparr>" for tx :: eth_tx
  by simp

lemma csma_attempt:
  obtains t where "clock tx < t" and "t \<le> clock tx + ATTEMPT_BOUND"
    and "csma_loop hw (Suc n) tx = (let tx = tx\<lparr>clock := t, lfsr := xorshift (lfsr tx)\<rparr>
      in if \<not> carrier hw (t - 1) then tx else csma_loop hw n tx)"
proof -
  obtain m t0 where w: "wait_carrier_idle hw tx = (m, tx\<lparr>clock := t0\<rparr>)" "clock tx < t0"
    "t0 \<le> clock tx + CARRIER_WAIT_SPINS + 1" by (rule wait_carrier_idle_clock)
  let ?r = "xorshift (lfsr tx)"
  let ?s = "?r AND CSMA_BACKOFF_MASK"
  define d where "d = (if ?s \<noteq> 0 then unat (?s * CSMA_SLOT_CYCLES) else 0)"
  have d: "d \<le> 15 * 240" using backoff_bound [of ?r] by (simp add: d_def)
  show thesis
  proof (rule that [of "t0 + d + 1"])
    show "clock tx < t0 + d + 1" using w(2) by simp
    show "t0 + d + 1 \<le> clock tx + ATTEMPT_BOUND" using w(3) d by (simp add: ATTEMPT_BOUND_def)
    show "csma_loop hw (Suc n) tx = (let tx = tx\<lparr>clock := t0 + d + 1, lfsr := xorshift (lfsr tx)\<rparr>
      in if \<not> carrier hw (t0 + d + 1 - 1) then tx else csma_loop hw n tx)"
      by (simp add: w next_rand_xorshift carrier_present_def d_def Let_def lfsr_clock_commute)
  qed
qed

lemma csma_loop_spec:
  "\<exists>k t. csma_loop hw n tx = tx\<lparr>clock := t, lfsr := (xorshift ^^ k) (lfsr tx)\<rparr> \<and> k \<le> n
     \<and> clock tx \<le> t \<and> t \<le> clock tx + k * ATTEMPT_BOUND \<and> (k < n \<longrightarrow> \<not> carrier hw (t - 1))"
proof (induction n arbitrary: tx)
  case 0
  then show ?case by (intro exI [of _ 0] exI [of _ "clock tx"]) simp
next
  case (Suc n)
  obtain t0 where t0: "clock tx < t0" "t0 \<le> clock tx + ATTEMPT_BOUND"
    "csma_loop hw (Suc n) tx = (let tx = tx\<lparr>clock := t0, lfsr := xorshift (lfsr tx)\<rparr>
      in if \<not> carrier hw (t0 - 1) then tx else csma_loop hw n tx)" by (rule csma_attempt)
  show ?case
  proof (cases "carrier hw (t0 - 1)")
    case False
    with t0 show ?thesis by (intro exI [of _ "Suc 0"] exI [of _ t0]) simp
  next
    case True
    let ?tx = "tx\<lparr>clock := t0, lfsr := xorshift (lfsr tx)\<rparr>"
    obtain k t where kt: "csma_loop hw n ?tx = ?tx\<lparr>clock := t, lfsr := (xorshift ^^ k) (lfsr ?tx)\<rparr>"
      "k \<le> n" "t0 \<le> t" "t \<le> t0 + k * ATTEMPT_BOUND" "k < n \<longrightarrow> \<not> carrier hw (t - 1)"
      using Suc [of ?tx] by auto
    have "csma_loop hw (Suc n) tx = tx\<lparr>clock := t, lfsr := (xorshift ^^ Suc k) (lfsr tx)\<rparr>"
      using t0(3) kt(1) True by (simp add: funpow_swap1)
    with kt(2-5) t0(1,2) show ?thesis
      by (intro exI [of _ "Suc k"] exI [of _ t]) auto
  qed
qed

section \<open>The frame builder\<close>

lemma put_put:
  assumes "j = i + length xs"
  shows "do { out \<leftarrow> put out i xs; put out j ys } = put out i (xs @ ys)"
proof (cases "i + length xs + length ys \<le> length out")
  case True
  then show ?thesis using assms by (simp add: put_def ac_simps)
next
  case False
  then show ?thesis using assms by (auto simp: put_def)
qed

lemma put_put_bind:
  assumes "j = i + length xs"
  shows "do { out \<leftarrow> put out i xs; out \<leftarrow> put out j ys; f out } = do { out \<leftarrow> put out i (xs @ ys); f out }"
  unfolding put_put [OF assms, symmetric] by (simp add: bind_assoc)

lemma put_0: "length xs \<le> length out \<Longrightarrow> put out 0 xs = Some (xs @ drop (length xs) out)"
  by (simp add: put_def)

lemma put_inside: "length xs = i \<Longrightarrow> length ys = length zs \<Longrightarrow> put (xs @ ys @ rest) i zs = Some (xs @ zs @ rest)"
  by (simp add: put_def)

lemma put_next: "length xs = i \<Longrightarrow> length ys \<le> length rest \<Longrightarrow> put (xs @ rest) i ys = Some ((xs @ ys) @ drop (length ys) rest)"
  by (simp add: put_def)

lemma put_too_long: "length out < i + length xs \<Longrightarrow> put out i xs = None"
  by (simp add: put_def)

text \<open>The pieces of the frame.\<close>

definition ip_header :: "udp_endpoint \<Rightarrow> nat \<Rightarrow> u16 \<Rightarrow> u16 \<Rightarrow> bytes" where
  "ip_header ep n ip_id ck =
     [0x45, 0] @ to_be16 (20 + word_of_nat (n + 8)) @ to_be16 ip_id @ [0x40, 0, 0x40, 0x11] @ to_be16 ck
       @ ep_src_ip ep @ ep_dst_ip ep"

definition udp_header :: "udp_endpoint \<Rightarrow> nat \<Rightarrow> bytes" where
  "udp_header ep n = to_be16 (ep_src_port ep) @ to_be16 (ep_dst_port ep) @ to_be16 (word_of_nat (n + 8)) @ [0, 0]"

definition header_checksum :: "udp_endpoint \<Rightarrow> nat \<Rightarrow> u16 \<Rightarrow> u16" where
  "header_checksum ep n ip_id = checksum_full (ip_header ep n ip_id 0)"

definition udp_body :: "udp_endpoint \<Rightarrow> bytes \<Rightarrow> u16 \<Rightarrow> bytes" where
  "udp_body ep payload ip_id = dst_mac ep @ src_mac ep @ [8, 0]
     @ ip_header ep (length payload) ip_id (header_checksum ep (length payload) ip_id)
     @ udp_header ep (length payload) @ payload"

definition endpoint_ok :: "udp_endpoint \<Rightarrow> bool" where
  "endpoint_ok ep \<longleftrightarrow> length (dst_mac ep) = 6 \<and> length (src_mac ep) = 6
     \<and> length (ep_src_ip ep) = 4 \<and> length (ep_dst_ip ep) = 4"

lemma length_ip_header: "endpoint_ok ep \<Longrightarrow> length (ip_header ep n ip_id ck) = 20"
  by (simp add: ip_header_def endpoint_ok_def)

lemma endpoint_octets:
  assumes "endpoint_ok ep"
  obtains a b c d a' b' c' d' where "ep_src_ip ep = [a, b, c, d]" and "ep_dst_ip ep = [a', b', c', d']"
proof -
  have "length (ep_src_ip ep) = 4" "length (ep_dst_ip ep) = 4" using assms by (simp_all add: endpoint_ok_def)
  then show thesis by (elim length_4_cases) (rule that)
qed

lemma header_words:
  assumes "endpoint_ok ep" and "length pre = i"
  shows "map (\<lambda>k. be16 ((pre @ ip_header ep n ip_id ck @ rest) ! (i + 2 * k))
      ((pre @ ip_header ep n ip_id ck @ rest) ! (i + 2 * k + 1))) [0..<10]
    = words_of (ip_header ep n ip_id ck)"
proof -
  obtain a b c d a' b' c' d' where s: "ep_src_ip ep = [a, b, c, d]" and t: "ep_dst_ip ep = [a', b', c', d']"
    using assms(1) by (rule endpoint_octets)
  have "[0..<10] = [0, 1, 2, 3, 4, 5, 6, 7, 8, 9]" by code_simp
  then show ?thesis
    using assms(2) by (simp add: ip_header_def s t to_be16_def nth_append)
qed

lemma length_header_words:
  assumes "endpoint_ok ep"
  shows "length (words_of (ip_header ep n ip_id ck)) = 10"
proof -
  obtain a b c d a' b' c' d' where s: "ep_src_ip ep = [a, b, c, d]" and t: "ep_dst_ip ep = [a', b', c', d']"
    using assms(1) by (rule endpoint_octets)
  show ?thesis by (simp add: ip_header_def s t to_be16_def)
qed

lemma header_words_split:
  assumes "endpoint_ok ep"
  shows "\<exists>xs ys. \<forall>ck. words_of (ip_header ep n ip_id ck) = xs @ ck # ys"
proof -
  obtain a b c d a' b' c' d' where s: "ep_src_ip ep = [a, b, c, d]" and t: "ep_dst_ip ep = [a', b', c', d']"
    using assms(1) by (rule endpoint_octets)
  define xs where "xs = [be16 0x45 0, 20 + word_of_nat (n + 8), ip_id, be16 0x40 0, be16 0x40 0x11]"
  define ys where "ys = [be16 a b, be16 c d, be16 a' b', be16 c' d']"
  have "words_of (ip_header ep n ip_id ck) = xs @ ck # ys" for ck
    unfolding ip_header_def s t to_be16_def xs_def ys_def append.simps words_of.simps be16_hi_lo ..
  then have "\<forall>ck. words_of (ip_header ep n ip_id ck) = xs @ ck # ys" ..
  then have "\<exists>ys. \<forall>ck. words_of (ip_header ep n ip_id ck) = xs @ ck # ys" ..
  then show ?thesis ..
qed

lemma header_checksum_valid:
  assumes "endpoint_ok ep"
  shows "osum (words_of (ip_header ep n ip_id (header_checksum ep n ip_id))) = 0xFFFF"
proof -
  obtain xs ys where ws: "\<forall>ck. words_of (ip_header ep n ip_id ck) = xs @ ck # ys"
    using header_words_split [OF assms] by blast
  define z where "z = osum (words_of (ip_header ep n ip_id 0))"
  have z: "z = add1c (osum xs) (osum ys)" by (simp add: z_def ws)
  have "osum (words_of (ip_header ep n ip_id (header_checksum ep n ip_id))) = add1c (header_checksum ep n ip_id) z"
    by (simp add: ws z oc.left_commute)
  also have "add1c (header_checksum ep n ip_id) z = add1c (NOT z) z"
    by (simp only: header_checksum_def checksum_full_osum z_def)
  also have "add1c (NOT z) z = 0xFFFF" unfolding add1c_commute [of "NOT z"] by (rule add1c_NOT)
  finally show ?thesis .
qed

text \<open>The writes collapse into one prefix of the buffer, with the checksum patched in.\<close>

definition udp_frame_bytes :: "udp_endpoint \<Rightarrow> bytes \<Rightarrow> u16 \<Rightarrow> bytes" where
  "udp_frame_bytes ep payload ip_id =
     (let body = udp_body ep payload ip_id
      in replicate 7 0x55 @ [0xD5] @ body @ to_le32 (crc32_ieee802_3 body))"

lemma length_udp_body: "endpoint_ok ep \<Longrightarrow> length (udp_body ep payload ip_id) = 42 + length payload"
  by (simp add: udp_body_def length_ip_header udp_header_def endpoint_ok_def)

lemma length_udp_frame_bytes: "endpoint_ok ep \<Longrightarrow> length (udp_frame_bytes ep payload ip_id) = 54 + length payload"
  by (simp add: udp_frame_bytes_def Let_def length_udp_body)

definition frame_head :: "udp_endpoint \<Rightarrow> bytes" where
  "frame_head ep = replicate 7 0x55 @ [0xD5] @ dst_mac ep @ src_mac ep @ [8, 0]"

lemma length_frame_head: "endpoint_ok ep \<Longrightarrow> length (frame_head ep) = 22"
  by (simp add: frame_head_def endpoint_ok_def)

lemma build_steps:
  assumes "endpoint_ok ep"
  shows "build_eth_ipv4_udp_frame ep payload out ip_id = do {
      out \<leftarrow> put out 0 (frame_head ep @ ip_header ep (length payload) ip_id 0);
      out \<leftarrow> put out 32 (to_be16 (ipv4_checksum (map (\<lambda>k. be16 (out ! (22 + 2 * k)) (out ! (22 + 2 * k + 1))) [0..<10])));
      out \<leftarrow> put out 42 (udp_header ep (length payload) @ payload);
      out \<leftarrow> put out (50 + length payload)
        (to_le32 (crc32_ieee802_3 (take (42 + length payload) (drop 8 out))));
      Some (out, 54 + length payload)
    }"
proof -
  have l: "length (dst_mac ep) = 6" "length (src_mac ep) = 6" "length (ep_src_ip ep) = 4" "length (ep_dst_ip ep) = 4"
    using assms by (simp_all add: endpoint_ok_def)
  have z: "to_be16 0 = [0, 0]" by (simp add: to_be16_def hi8_def lo8_def)
  have head: "do {
      out \<leftarrow> put out 0 (replicate 7 0x55);
      out \<leftarrow> put out 7 [0xD5];
      out \<leftarrow> put out (7 + 1) (dst_mac ep);
      out \<leftarrow> put out (7 + 1 + 6) (src_mac ep);
      out \<leftarrow> put out (7 + 1 + 6 + 6) [0x08, 0x00];
      out \<leftarrow> put out (7 + 1 + 6 + 6 + 2) [0x45];
      out \<leftarrow> put out (7 + 1 + 6 + 6 + 2 + 1) [0x00];
      out \<leftarrow> put out (7 + 1 + 6 + 6 + 2 + 2) (to_be16 (20 + word_of_nat (length payload + 8)));
      out \<leftarrow> put out (7 + 1 + 6 + 6 + 2 + 4) (to_be16 ip_id);
      out \<leftarrow> put out (7 + 1 + 6 + 6 + 2 + 6) [0x40];
      out \<leftarrow> put out (7 + 1 + 6 + 6 + 2 + 7) [0x00];
      out \<leftarrow> put out (7 + 1 + 6 + 6 + 2 + 8) [0x40];
      out \<leftarrow> put out (7 + 1 + 6 + 6 + 2 + 9) [0x11];
      out \<leftarrow> put out (7 + 1 + 6 + 6 + 2 + 10) [0];
      out \<leftarrow> put out (7 + 1 + 6 + 6 + 2 + 11) [0];
      out \<leftarrow> put out (7 + 1 + 6 + 6 + 2 + 12) (ep_src_ip ep);
      out \<leftarrow> put out (7 + 1 + 6 + 6 + 2 + 16) (ep_dst_ip ep);
      f out
    } = do { out \<leftarrow> put out 0 (frame_head ep @ ip_header ep (length payload) ip_id 0); f out }"
    for f :: "bytes \<Rightarrow> (bytes \<times> nat) option" and out
    by (simp add: put_put_bind l frame_head_def ip_header_def z)
  have tail: "do {
      out \<leftarrow> put out (7 + 1 + 6 + 6 + 2 + 20) (to_be16 (ep_src_port ep));
      out \<leftarrow> put out (7 + 1 + 6 + 6 + 2 + 20 + 2) (to_be16 (ep_dst_port ep));
      out \<leftarrow> put out (7 + 1 + 6 + 6 + 2 + 20 + 2 + 2) (to_be16 (word_of_nat (length payload + 8)));
      out \<leftarrow> put out (7 + 1 + 6 + 6 + 2 + 20 + 2 + 2 + 2) [0];
      out \<leftarrow> put out (7 + 1 + 6 + 6 + 2 + 20 + 2 + 2 + 2 + 1) [0];
      out \<leftarrow> put out (7 + 1 + 6 + 6 + 2 + 20 + 2 + 2 + 2 + 2) payload;
      f out
    } = do { out \<leftarrow> put out 42 (udp_header ep (length payload) @ payload); f out }"
    for f :: "bytes \<Rightarrow> (bytes \<times> nat) option" and out
    by (simp add: put_put_bind udp_header_def)
  have o1: "7 + 1 = (8 :: nat)" and o2: "8 + 6 + 6 + 2 = (22 :: nat)"
    and o3: "22 + 10 = (32 :: nat)" "22 + 20 + 2 + 2 + 2 + 2 = (50 :: nat)"
    and o4: "50 + length payload - 8 = 42 + length payload" "50 + length payload + 4 = 54 + length payload"
    by simp_all
  show ?thesis
    unfolding build_eth_ipv4_udp_frame_def Let_def head tail unfolding o1 unfolding o2 unfolding o3 unfolding o4 ..
qed

lemma build_frame:
  assumes ep: "endpoint_ok ep" and fit: "length payload + 54 \<le> length out"
  shows "build_eth_ipv4_udp_frame ep payload out ip_id =
    Some (udp_frame_bytes ep payload ip_id @ drop (54 + length payload) out, 54 + length payload)"
proof -
  let ?n = "length payload"
  let ?pre = "frame_head ep" and ?zero = "ip_header ep ?n ip_id 0" and ?ck = "header_checksum ep ?n ip_id"
  let ?h = "ip_header ep ?n ip_id ?ck" and ?u = "udp_header ep ?n @ payload"
  have lp: "length ?pre = 22" using ep by (rule length_frame_head)
  have lh: "length (ip_header ep ?n ip_id c) = 20" for c using ep by (rule length_ip_header)
  have lu: "length ?u = 8 + ?n" by (simp add: udp_header_def)
  have s1: "put out 0 (?pre @ ?zero) = Some (?pre @ ?zero @ drop 42 out)"
    using fit lp lh by (subst put_0) simp_all
  have ck: "ipv4_checksum (map (\<lambda>k. be16 ((?pre @ ?zero @ drop 42 out) ! (22 + 2 * k))
      ((?pre @ ?zero @ drop 42 out) ! (22 + 2 * k + 1))) [0..<10]) = ?ck"
  proof -
    have "length (words_of ?zero) = 10" using ep by (rule length_header_words)
    then show ?thesis
      unfolding header_words [OF ep lp] by (simp add: ipv4_checksum_osum header_checksum_def checksum_full_osum)
  qed
  define A where "A = [0x45, 0] @ to_be16 (20 + word_of_nat (?n + 8)) @ to_be16 ip_id @ [0x40, 0, 0x40, 0x11 :: u8]"
  have hA: "ip_header ep ?n ip_id c = A @ to_be16 c @ ep_src_ip ep @ ep_dst_ip ep" for c
    by (simp add: ip_header_def A_def)
  have s2: "put (?pre @ ?zero @ drop 42 out) 32 (to_be16 ?ck) = Some (?pre @ ?h @ drop 42 out)"
    using put_inside [of "?pre @ A" 32 "to_be16 0" "to_be16 ?ck" "ep_src_ip ep @ ep_dst_ip ep @ drop 42 out"] lp
    by (simp add: hA A_def)
  have s3: "put (?pre @ ?h @ drop 42 out) 42 ?u = Some ((?pre @ ?h @ ?u) @ drop (50 + ?n) out)"
    using put_next [of "?pre @ ?h" 42 ?u "drop 42 out"] lp lh lu fit by (simp add: add.commute)
  have e: "?pre @ ?h @ ?u = (replicate 7 0x55 @ [0xD5]) @ udp_body ep payload ip_id"
    by (simp only: frame_head_def udp_body_def append_assoc)
  have body: "take (42 + ?n) (drop 8 ((?pre @ ?h @ ?u) @ drop (50 + ?n) out)) = udp_body ep payload ip_id"
    unfolding e using length_udp_body [OF ep, of payload ip_id] by simp
  have s4: "put ((?pre @ ?h @ ?u) @ drop (50 + ?n) out) (50 + ?n) xs
      = Some (((?pre @ ?h @ ?u) @ xs) @ drop (54 + ?n) out)" if "length xs = 4" for xs
    using put_next [of "?pre @ ?h @ ?u" "50 + ?n" xs "drop (50 + ?n) out"] lp lh lu fit that
    by (simp add: add.commute)
  show ?thesis
    unfolding build_steps [OF ep] s1 bind.bind_lunit ck s2 s3 body s4 [OF length_to_le32]
    unfolding e by (simp only: udp_frame_bytes_def Let_def append_assoc)
qed

lemma put_length: "put out i xs = Some out' \<Longrightarrow> length out' = length out \<and> i + length xs \<le> length out"
  by (auto simp: put_def split: if_splits)

lemma build_panics:
  assumes ep: "endpoint_ok ep" and "length out < length payload + 54"
  shows "build_eth_ipv4_udp_frame ep payload out ip_id = None"
proof (rule ccontr)
  assume "build_eth_ipv4_udp_frame ep payload out ip_id \<noteq> None"
  then obtain r where "build_eth_ipv4_udp_frame ep payload out ip_id = Some r" by auto
  then have "54 + length payload \<le> length out"
    unfolding build_steps [OF ep] bind_eq_Some_conv by (elim exE conjE) (drule put_length, simp)+
  then show False using assms(2) by simp
qed

lemma send_raw_frame_ok:
  assumes "drains hw"
  shows "\<exists>t l. send_raw_frame hw tx body =
    Some (tx\<lparr>clock := t, lfsr := l, sent := sent tx @ on_wire (frame_bytes body)\<rparr>)"
proof -
  obtain k t where c: "csma_acquire hw tx = tx\<lparr>clock := t, lfsr := (xorshift ^^ k) (lfsr tx)\<rparr>"
    using csma_loop_spec [of hw CSMA_MAX_ATTEMPTS tx] by (auto simp: csma_acquire_def)
  obtain t' where "push_words hw (on_wire (frame_bytes body)) (csma_acquire hw tx)
      = Some ((csma_acquire hw tx)\<lparr>clock := t', sent := sent (csma_acquire hw tx) @ on_wire (frame_bytes body)\<rparr>)"
    using push_words_sent [OF assms] by blast
  then have "send_raw_frame hw tx body =
      Some (tx\<lparr>clock := t', lfsr := (xorshift ^^ k) (lfsr tx), sent := sent tx @ on_wire (frame_bytes body)\<rparr>)"
    by (simp add: send_raw_frame_words c)
  then show ?thesis by blast
qed

section \<open>Properties\<close>

text \<open>What a frame looks like on the wire: as long as the state machine drains the FIFO, sending
  returns, and the words it queued are the Manchester code of seven preamble bytes, the delimiter,
  the body padded with zeros to 60 bytes and its frame check sequence, then the end-of-frame pulse and
  the gap. Nothing else of the transmitter changes than its clock and its random state.\<close>

theorem send_raw_frame_on_wire:
  assumes "drains hw"
  shows "\<exists>t l. send_raw_frame hw tx body =
    Some (tx\<lparr>clock := t, lfsr := l, sent := sent tx @ on_wire (frame_bytes body)\<rparr>)"
  using assms by (rule send_raw_frame_ok)

definition idle_line :: line where
  "idle_line = \<lparr>carrier = (\<lambda>t. False), fifo_free = (\<lambda>t. even t)\<rparr>"

lemma drains_idle_line: "drains idle_line"
proof -
  have "\<exists>t' \<ge> t. even t'" for t :: nat by (intro exI [of _ "2 * t"]) simp
  then show ?thesis by (simp add: drains_def idle_line_def)
qed

theorem send_raw_frame_on_wire_witness:
  "\<exists>t l. send_raw_frame idle_line (tx_new 0) [1, 2, 3] =
    Some ((tx_new 0)\<lparr>clock := t, lfsr := l, sent := sent (tx_new 0) @ on_wire (frame_bytes [1, 2, 3])\<rparr>)"
  using drains_idle_line by (rule send_raw_frame_on_wire)

text \<open>C23. Carrier sense cannot wedge the transmitter and cannot get stuck in its randomness: it returns after
  at most ten attempts, each within a fixed number of clock steps; when it gave up before the tenth it
  saw the line idle in its last step; and a nonzero random state stays nonzero.\<close>

theorem csma_bounded:
  "\<exists>k t. csma_acquire hw tx = tx\<lparr>clock := t, lfsr := (xorshift ^^ k) (lfsr tx)\<rparr> \<and> k \<le> 10
     \<and> t \<le> clock tx + 10 * ATTEMPT_BOUND \<and> (k < 10 \<longrightarrow> \<not> carrier hw (t - 1))
     \<and> (lfsr tx \<noteq> 0 \<longrightarrow> (xorshift ^^ k) (lfsr tx) \<noteq> 0)"
proof -
  obtain k t where kt: "csma_loop hw 10 tx = tx\<lparr>clock := t, lfsr := (xorshift ^^ k) (lfsr tx)\<rparr>" "k \<le> 10"
    "t \<le> clock tx + k * ATTEMPT_BOUND" "k < 10 \<longrightarrow> \<not> carrier hw (t - 1)"
    using csma_loop_spec [of hw 10 tx] by auto
  have "k * ATTEMPT_BOUND \<le> 10 * ATTEMPT_BOUND" using kt(2) by (rule mult_le_mono1)
  with kt(3) have "t \<le> clock tx + 10 * ATTEMPT_BOUND" by linarith
  with kt(1,2,4) show ?thesis
    using xorshift_iter_nonzero [of "lfsr tx" k]
    by - (rule exI [of _ k], rule exI [of _ t], auto simp: csma_acquire_def CSMA_MAX_ATTEMPTS_def)
qed

theorem csma_bounded_witness:
  "\<exists>t. clock (csma_acquire \<lparr>carrier = (\<lambda>t. True), fifo_free = (\<lambda>t. True)\<rparr> (tx_new 0)) = t \<and> t \<le> 10 * ATTEMPT_BOUND
    \<and> lfsr (csma_acquire \<lparr>carrier = (\<lambda>t. True), fifo_free = (\<lambda>t. True)\<rparr> (tx_new 0)) \<noteq> 0"
  using csma_bounded [of "\<lparr>carrier = (\<lambda>t. True), fifo_free = (\<lambda>t. True)\<rparr>" "tx_new 0"]
  by (auto simp: tx_new_def)

text \<open>C31. The UDP frame builder: with the transmitter's 1526-byte buffer it succeeds exactly for payloads of
  up to 1472 bytes, and panics on longer ones. What it writes is preamble and delimiter, then a frame whose IP
  header has a valid checksum and whose check sequence the receiver accepts.\<close>

theorem udp_frame_built:
  assumes "endpoint_ok ep" and "length out = MAX_TX_FRAME"
  shows "(length payload \<le> 1472 \<longrightarrow>
      build_eth_ipv4_udp_frame ep payload out ip_id =
        Some (udp_frame_bytes ep payload ip_id @ drop (54 + length payload) out, 54 + length payload)
      \<and> osum (words_of (take 20 (drop 22 (udp_frame_bytes ep payload ip_id)))) = 0xFFFF
      \<and> verify_fcs (drop 8 (udp_frame_bytes ep payload ip_id)) (46 + length payload))
    \<and> (1472 < length payload \<longrightarrow> build_eth_ipv4_udp_frame ep payload out ip_id = None)"
proof -
  let ?body = "udp_body ep payload ip_id"
  have f: "udp_frame_bytes ep payload ip_id = (replicate 7 0x55 @ [0xD5]) @ ?body @ to_le32 (crc32_ieee802_3 ?body)"
    by (simp add: udp_frame_bytes_def Let_def)
  have d: "drop 8 (udp_frame_bytes ep payload ip_id) = ?body @ to_le32 (crc32_ieee802_3 ?body)"
    unfolding f by simp
  have v: "verify_fcs (drop 8 (udp_frame_bytes ep payload ip_id)) (46 + length payload)"
    unfolding d using verify_fcs_append [of ?body "[]"] length_udp_body [OF assms(1), of payload ip_id] by simp
  have "drop 22 (udp_frame_bytes ep payload ip_id) = drop 14 (drop 8 (udp_frame_bytes ep payload ip_id))" by simp
  also have "\<dots> = ip_header ep (length payload) ip_id (header_checksum ep (length payload) ip_id)
      @ udp_header ep (length payload) @ payload @ to_le32 (crc32_ieee802_3 ?body)"
    unfolding d using assms(1) by (simp add: udp_body_def endpoint_ok_def)
  finally have "take 20 (drop 22 (udp_frame_bytes ep payload ip_id))
      = ip_header ep (length payload) ip_id (header_checksum ep (length payload) ip_id)"
    by (simp add: length_ip_header [OF assms(1)])
  with v header_checksum_valid [OF assms(1)] build_frame [OF assms(1), of payload out ip_id] assms(2)
    build_panics [OF assms(1), of out payload ip_id]
  show ?thesis by (simp add: MAX_TX_FRAME_def)
qed

definition sample_endpoint :: udp_endpoint where
  "sample_endpoint = \<lparr>src_mac = [2, 0, 0, 0, 0, 1], dst_mac = replicate 6 0xFF, ep_src_ip = [192, 168, 37, 24],
     ep_dst_ip = [255, 255, 255, 255], ep_src_port = 1234, ep_dst_port = 1234\<rparr>"

theorem udp_frame_built_witness:
  "build_eth_ipv4_udp_frame sample_endpoint (replicate 1473 7) (replicate 1526 0) 0 = None
   \<and> (\<exists>out. build_eth_ipv4_udp_frame sample_endpoint [1, 2] (replicate 1526 0) 0 = Some (out, 56))"
proof -
  have ep: "endpoint_ok sample_endpoint" by (simp add: endpoint_ok_def sample_endpoint_def)
  have out: "length (replicate 1526 (0 :: u8)) = MAX_TX_FRAME" by (simp add: MAX_TX_FRAME_def)
  show ?thesis
    using udp_frame_built [OF ep out, of "replicate 1473 7" 0] udp_frame_built [OF ep out, of "[1, 2]" 0]
    by simp
qed

end
