(* ===== verification/Dpll.thy ===== *)
theory Dpll
  imports EthRx
begin

text \<open>
  The edge-tracking decoder, \<^verbatim>\<open>src/eth_rx_dpll.rs\<close>. Its reads through \<^verbatim>\<open>get_unchecked\<close> are options with
  \<^const>\<open>None\<close> for a read outside the buffer, like the checked reads that would panic, so a proof that the
  decoder is total is a proof of the \<^verbatim>\<open>SAFETY\<close> comments. The two loops are partial functions of the
  option monad; not returning is \<^const>\<open>None\<close> too. \<^verbatim>\<open>usize\<close> has 32 bits: \<^verbatim>\<open>checked_mul\<close> and \<^verbatim>\<open>checked_add\<close> compare
  with \<open>2 ^ 32\<close>. The casts to \<^verbatim>\<open>i32\<close> are exact, since a buffer is at most 32 KiB.
\<close>

section \<open>Anchors\<close>

definition MAX_FRAME_BYTES :: nat where "MAX_FRAME_BYTES = 1600"

definition sample_bit_unchecked :: "bytes \<Rightarrow> nat \<Rightarrow> u8 option" where
  "sample_bit_unchecked buf off =
     (if off div 8 < length buf then Some (drop_bit (off mod 8) (buf ! (off div 8)) AND 1) else None)"

definition sample_bit_checked :: "bytes \<Rightarrow> nat \<Rightarrow> u8 option" where
  "sample_bit_checked buf off =
     (if off div 8 < length buf then Some (drop_bit (off mod 8) (buf ! (off div 8)) AND 1) else None)"

primrec find_f_loop :: "bytes \<Rightarrow> nat list \<Rightarrow> u8 \<Rightarrow> nat option option" where
  "find_f_loop buf [] prev = Some None"
| "find_f_loop buf (i # is) prev = do {
     s \<leftarrow> sample_bit_checked buf i;
     if prev = 1 \<and> s = 0 then Some (Some i) else find_f_loop buf is s
   }"

definition find_f :: "bytes \<Rightarrow> nat \<Rightarrow> nat option option" where
  "find_f buf ns = do {
     prev \<leftarrow> sample_bit_checked buf 0;
     find_f_loop buf [1..<ns] prev
   }"

definition find_sfd_read :: "bytes \<Rightarrow> nat \<Rightarrow> nat \<Rightarrow> nat \<Rightarrow> u8 option option" where
  "find_sfd_read buf ns f k =
     (let idx = f + 4 + 6 * k in if idx < ns then map_option Some (sample_bit_checked buf idx) else Some None)"

primrec find_sfd_loop :: "bytes \<Rightarrow> nat \<Rightarrow> nat \<Rightarrow> nat list \<Rightarrow> u8 \<Rightarrow> nat option option" where
  "find_sfd_loop buf ns f [] prev = Some None"
| "find_sfd_loop buf ns f (k # ks) prev = do {
     r \<leftarrow> find_sfd_read buf ns f k;
     case r of
       None \<Rightarrow> Some None
     | Some c \<Rightarrow> if c = 1 \<and> prev = 1 then Some (Some k) else find_sfd_loop buf ns f ks c
   }"

definition find_sfd :: "bytes \<Rightarrow> nat \<Rightarrow> nat \<Rightarrow> nat option option" where
  "find_sfd buf ns f = do {
     r \<leftarrow> find_sfd_read buf ns f 0;
     case r of
       None \<Rightarrow> Some None
     | Some prev \<Rightarrow> find_sfd_loop buf ns f [1..<1600] prev
   }"

definition find_edge_w1 :: "bytes \<Rightarrow> nat \<Rightarrow> nat option" where
  "find_edge_w1 buf center = do {
     s_m2 \<leftarrow> sample_bit_unchecked buf (center - 2);
     s_m1 \<leftarrow> sample_bit_unchecked buf (center - 1);
     s_0 \<leftarrow> sample_bit_unchecked buf center;
     s_p1 \<leftarrow> sample_bit_unchecked buf (center + 1);
     Some (if s_m1 \<noteq> s_0 then center
           else if s_m2 \<noteq> s_m1 then center - 1
           else if s_0 \<noteq> s_p1 then center + 1
           else center)
   }"

definition EDGE_DELTA :: "int list" where
  "EDGE_DELTA = [0, -1, 0, 0, 1, -1, 0, 0]"

section \<open>The decoder\<close>

text \<open>The local variables of \<^verbatim>\<open>decode_frame_edge_track\<close>.\<close>

record dpll =
  dp_tr :: nat
  dp_frame :: bytes
  dp_byte :: u8
  dp_bit_idx :: nat
  dp_cap_bytes :: nat
  dp_pending :: "u32 option"

text \<open>The length cap from the header, set when byte 18 has come in.\<close>

definition header_cap :: "bytes \<Rightarrow> nat \<Rightarrow> nat" where
  "header_cap frame cap =
     (if length frame = 18 \<and> cap = MAX_FRAME_BYTES then
        (let ethertype = be16 (frame ! 12) (frame ! 13)
         in if ethertype = 0x0800 then
              (let ip_total = unat (be16 (frame ! 16) (frame ! 17));
                   derived = max (14 + ip_total + 4) 64
               in min derived MAX_FRAME_BYTES)
            else cap)
      else cap)"

text \<open>One data bit enters the frame; \<open>Inl\<close> is the early return (or \<^verbatim>\<open>break\<close>) with the frame.\<close>

definition absorb_bit :: "dpll \<Rightarrow> u8 \<Rightarrow> bytes + dpll" where
  "absorb_bit st b =
     (let byte = dp_byte st OR push_bit (dp_bit_idx st) b;
          bit_idx = dp_bit_idx st + 1
      in if bit_idx = 8 then
           (if MAX_FRAME_BYTES \<le> length (dp_frame st) then Inl (dp_frame st)
            else
              (let frame = dp_frame st @ [byte];
                   cap_bytes = header_cap frame (dp_cap_bytes st)
               in if cap_bytes \<le> length frame then Inl frame
                  else Inr (st \<lparr>dp_frame := frame, dp_byte := 0, dp_bit_idx := 0,
                                dp_cap_bytes := cap_bytes\<rparr>)))
         else Inr (st \<lparr>dp_byte := byte, dp_bit_idx := bit_idx\<rparr>))"

definition next_bit :: "bytes \<Rightarrow> dpll \<Rightarrow> u8 option" where
  "next_bit buf st = (case dp_pending st of
     Some b \<Rightarrow> Some (ucast b)
   | None \<Rightarrow> sample_bit_unchecked buf (dp_tr st - 1))"

text \<open>The window load and the table step at the end of the fast loop's body.\<close>

definition fast_advance :: "bytes \<Rightarrow> dpll \<Rightarrow> dpll option" where
  "fast_advance buf st =
     (let lo = dp_tr st + 4; bi = lo div 8
      in if bi + 1 < length buf then
           (let w = drop_bit (lo mod 8) (ucast (buf ! bi) OR push_bit 8 (ucast (buf ! (bi + 1)))) :: u32;
                e = unat ((w XOR drop_bit 1 w) AND 7);
                delta = EDGE_DELTA ! e
            in Some (st \<lparr>dp_tr := nat (int (dp_tr st) + 6 + delta),
                         dp_pending := Some (drop_bit (nat (1 + delta)) w AND 1)\<rparr>))
         else None)"

partial_function (option) fast_loop :: "bytes \<Rightarrow> nat \<Rightarrow> dpll \<Rightarrow> (bytes + dpll) option" where
  "fast_loop buf ns st =
     (if 1 \<le> dp_tr st \<and> dp_tr st + 20 \<le> ns then do {
        b \<leftarrow> next_bit buf st;
        case absorb_bit st b of
          Inl frame \<Rightarrow> Some (Inl frame)
        | Inr st \<Rightarrow> do {
            st \<leftarrow> fast_advance buf st;
            fast_loop buf ns st
          }
      } else Some (Inr st))"

partial_function (option) tail_loop :: "bytes \<Rightarrow> nat \<Rightarrow> dpll \<Rightarrow> bytes option" where
  "tail_loop buf ns st =
     (if dp_tr st = 0 \<or> ns < dp_tr st then Some (dp_frame st)
      else do {
        b \<leftarrow> next_bit buf st;
        case absorb_bit (st \<lparr>dp_pending := None\<rparr>) b of
          Inl frame \<Rightarrow> Some frame
        | Inr st \<Rightarrow>
            (if 2 ^ 32 \<le> dp_tr st + 6 then Some (dp_frame st)
             else
               (let next_center = dp_tr st + 6
                in if next_center < 2 \<or> ns \<le> next_center + 1
                   then tail_loop buf ns (st \<lparr>dp_tr := next_center\<rparr>)
                   else do {
                     tr \<leftarrow> find_edge_w1 buf next_center;
                     tail_loop buf ns (st \<lparr>dp_tr := tr\<rparr>)
                   }))
      })"

definition dpll_start :: "nat \<Rightarrow> dpll" where
  "dpll_start tr = \<lparr>dp_tr = tr, dp_frame = [], dp_byte = 0, dp_bit_idx = 0,
     dp_cap_bytes = MAX_FRAME_BYTES, dp_pending = None\<rparr>"

text \<open>Everything before the loops: the anchor of the first data bit, \<^const>\<open>None\<close> inside for the early
  returns.\<close>

definition first_anchor :: "bytes \<Rightarrow> nat \<Rightarrow> nat option option" where
  "first_anchor buf ns = do {
     fo \<leftarrow> find_f buf ns;
     case fo of
       None \<Rightarrow> Some None
     | Some f \<Rightarrow> do {
         so \<leftarrow> find_sfd buf ns f;
         case so of
           None \<Rightarrow> Some None
         | Some sfd \<Rightarrow>
             (let start = sfd + 1; initial_center = f + (5 + 6 * start)
              in if 2 ^ 32 \<le> initial_center then Some None
                 else if 2 \<le> initial_center \<and> initial_center + 1 < ns
                 then map_option Some (find_edge_w1 buf initial_center)
                 else Some (Some initial_center))
       }
   }"

definition decode_frame_edge_track :: "bytes \<Rightarrow> bytes option option" where
  "decode_frame_edge_track buf =
     (let ns_full = length buf * 8
      in if 2 ^ 32 \<le> ns_full then Some None
         else do {
           a \<leftarrow> first_anchor buf ns_full;
           case a of
             None \<Rightarrow> Some None
           | Some tr \<Rightarrow> do {
               r \<leftarrow> fast_loop buf ns_full (dpll_start tr);
               case r of
                 Inl frame \<Rightarrow> Some (Some frame)
               | Inr st \<Rightarrow> map_option Some (tail_loop buf ns_full st)
             }
         })"

section \<open>Samples and edges\<close>

definition samp :: "bytes \<Rightarrow> nat \<Rightarrow> bool" where
  "samp buf i = bit (buf ! (i div 8)) (i mod 8)"

definition edge_at :: "bytes \<Rightarrow> nat \<Rightarrow> bool" where
  "edge_at buf i \<longleftrightarrow> samp buf (i - 1) \<noteq> samp buf i"

text \<open>The edge search by its contract: the centre if an edge is there or none is near, else the lower
  neighbour before the upper one.\<close>

definition track :: "bytes \<Rightarrow> nat \<Rightarrow> nat" where
  "track buf c =
     (if edge_at buf c then c else if edge_at buf (c - 1) then c - 1
      else if edge_at buf (c + 1) then c + 1 else c)"

lemma and_1_of_bool: "x AND 1 = of_bool (bit x 0)" for x :: "'a::len word"
  by (rule bit_word_eqI) (auto simp: bit_simps)

lemma sample_unchecked_val:
  "i < 8 * length buf \<Longrightarrow> sample_bit_unchecked buf i = Some (of_bool (samp buf i))"
  by (simp add: sample_bit_unchecked_def samp_def and_1_of_bool bit_drop_bit_eq less_mult_imp_div_less mult.commute)

lemma sample_checked_val:
  "i < 8 * length buf \<Longrightarrow> sample_bit_checked buf i = Some (of_bool (samp buf i))"
  by (simp add: sample_bit_checked_def samp_def and_1_of_bool bit_drop_bit_eq less_mult_imp_div_less mult.commute)

lemma track_bounds: "2 \<le> c \<Longrightarrow> c - 1 \<le> track buf c \<and> track buf c \<le> c + 1"
  by (auto simp: track_def)

lemma find_edge_w1_val:
  assumes "2 \<le> c" and "c + 1 < 8 * length buf"
  shows "find_edge_w1 buf c = Some (track buf c)"
proof -
  have "c - 1 - 1 = c - 2" by simp
  with assms show ?thesis
    by (simp add: find_edge_w1_def sample_unchecked_val track_def edge_at_def)
qed

text \<open>The table step of the fast loop is the edge search.\<close>

lemma and_7_bits: "w AND 7 = of_bool (bit w 0) OR push_bit 1 (of_bool (bit w 1)) OR push_bit 2 (of_bool (bit w 2))"
  for w :: u32
proof (rule bit_word_eqI)
  fix n assume "n < LENGTH(32)"
  have "bit (7 :: u32) n \<longleftrightarrow> n < 3"
    using bit_mask_iff [where 'a = "32 word", of 3 n] \<open>n < LENGTH(32)\<close> by (simp add: mask_eq_exp_minus_1)
  then consider "n = 0" | "n = 1" | "n = 2" | "3 \<le> n" by linarith
  then show "bit (w AND 7) n
      = bit (of_bool (bit w 0) OR push_bit 1 (of_bool (bit w 1)) OR push_bit 2 (of_bool (bit w 2)) :: u32) n"
    using \<open>bit (7 :: u32) n \<longleftrightarrow> n < 3\<close> by cases (auto simp: bit_simps)
qed

lemma next_byte:
  fixes a i :: nat
  shows "a mod 8 + i < 8 \<Longrightarrow> (a + i) div 8 = a div 8 \<and> (a + i) mod 8 = a mod 8 + i"
    and "8 \<le> a mod 8 + i \<Longrightarrow> a mod 8 + i < 16 \<Longrightarrow> (a + i) div 8 = a div 8 + 1 \<and> (a + i) mod 8 = a mod 8 + i - 8"
proof -
  have a: "a div 8 * 8 + a mod 8 = a" and ai: "(a + i) div 8 * 8 + (a + i) mod 8 = a + i"
    by (rule div_mult_mod_eq)+
  show "(a + i) div 8 = a div 8 \<and> (a + i) mod 8 = a mod 8 + i" if "a mod 8 + i < 8"
  proof -
    have "(a + i) div 8 = a div 8" using that a by (intro div_nat_eqI) (unfold mult_Suc_right, linarith+)
    with a ai show ?thesis by linarith
  qed
  show "(a + i) div 8 = a div 8 + 1 \<and> (a + i) mod 8 = a mod 8 + i - 8"
    if "8 \<le> a mod 8 + i" "a mod 8 + i < 16"
  proof -
    have "8 * (a div 8 + 1) \<le> a + i" "a + i < 8 * Suc (a div 8 + 1)"
      using that a unfolding mult_Suc_right distrib_left by linarith+
    then have "(a + i) div 8 = a div 8 + 1" by (rule div_nat_eqI)
    with a ai show ?thesis by linarith
  qed
qed

lemma window_bit:
  assumes "lo div 8 + 1 < length buf" and "i < 4"
  shows "bit (drop_bit (lo mod 8) (ucast (buf ! (lo div 8)) OR push_bit 8 (ucast (buf ! (lo div 8 + 1)))) :: u32) i
    = samp buf (lo + i)"
proof (cases "lo mod 8 + i < 8")
  case True
  then show ?thesis using next_byte(1) [of lo i] by (simp add: samp_def bit_simps)
next
  case False
  have "lo mod 8 < 8" by simp
  then have lt: "lo mod 8 + i < 16" using assms(2) by linarith
  with False next_byte(2) [of lo i] have "(lo + i) div 8 = lo div 8 + 1" "(lo + i) mod 8 = lo mod 8 + i - 8"
    by simp_all
  with False lt show ?thesis
    by (simp add: samp_def bit_simps not_less) (auto dest: bit_imp_le_length)
qed

lemma table_step:
  assumes "1 \<le> tr" and "tr + 20 \<le> 8 * length buf"
  shows "fast_advance buf (st\<lparr>dp_tr := tr\<rparr>) = Some (st\<lparr>dp_tr := track buf (tr + 6),
      dp_pending := Some (of_bool (samp buf (track buf (tr + 6) - 1)))\<rparr>)"
proof -
  define lo where "lo = tr + 4"
  define w where "w = (drop_bit (lo mod 8) (ucast (buf ! (lo div 8)) OR push_bit 8 (ucast (buf ! (lo div 8 + 1)))) :: u32)"
  have ib: "lo div 8 + 1 < length buf" using assms by (simp add: lo_def)
  have wb: "bit w k = samp buf (lo + k)" if "k < 4" for k
    unfolding w_def using window_bit [OF ib that] .
  have b: "bit w 0 = samp buf (tr + 4)" "bit w 1 = samp buf (tr + 5)" "bit w 2 = samp buf (tr + 6)"
    "bit w 3 = samp buf (tr + 7)"
    using wb [of 0] wb [of 1] wb [of 2] wb [of 3] by (simp_all add: lo_def add.commute)
  have e: "(w XOR drop_bit 1 w) AND 7 = of_bool (samp buf (tr + 4) \<noteq> samp buf (tr + 5))
      OR push_bit 1 (of_bool (samp buf (tr + 5) \<noteq> samp buf (tr + 6)))
      OR push_bit 2 (of_bool (samp buf (tr + 6) \<noteq> samp buf (tr + 7)))"
    unfolding and_7_bits using b by (simp add: bit_simps numeral_2_eq_2 numeral_3_eq_3)
  have pend: "drop_bit k w AND 1 = of_bool (bit w k)" for k
    by (simp add: and_1_of_bool bit_drop_bit_eq)
  have tr_st: "dp_tr (st\<lparr>dp_tr := tr\<rparr>) = tr" by simp
  have s: "fast_advance buf (st\<lparr>dp_tr := tr\<rparr>) = Some (st\<lparr>
      dp_tr := nat (int tr + 6 + EDGE_DELTA ! unat ((w XOR drop_bit 1 w) AND 7)),
      dp_pending := Some (of_bool (bit w (nat (1 + EDGE_DELTA ! unat ((w XOR drop_bit 1 w) AND 7)))))\<rparr>)"
    unfolding fast_advance_def Let_def tr_st lo_def [symmetric] w_def [symmetric] pend if_P [OF ib]
    by (simp del: One_nat_def)
  have t: "tr + 6 - Suc 0 = tr + 5" "tr + 5 - Suc 0 = tr + 4" "tr + 6 + 1 = tr + 7" "tr + 7 - Suc 0 = tr + 6"
    "nat (int tr + 6) = tr + 6" "nat (5 + int tr) = tr + 5" "nat (7 + int tr) = tr + 7" "6 + tr = tr + 6" "7 + tr = tr + 7" by simp_all
  show ?thesis
    unfolding s e track_def edge_at_def
    by (cases "samp buf (tr + 4)"; cases "samp buf (tr + 5)"; cases "samp buf (tr + 6)"; cases "samp buf (tr + 7)")
      (simp_all add: t EDGE_DELTA_def b [unfolded One_nat_def])
qed


section \<open>The reference decoder\<close>

text \<open>One loop, one bit a step: the data bit is the sample before the tracked edge, the next edge is
  searched around \<open>tr + 6\<close>, and the last edges before the end of the buffer are taken on trust.\<close>

definition next_edge :: "bytes \<Rightarrow> nat \<Rightarrow> nat" where
  "next_edge buf tr = (if 8 * length buf \<le> tr + 7 then tr + 6 else track buf (tr + 6))"

lemma next_edge_bounds: "tr + 5 \<le> next_edge buf tr" "next_edge buf tr \<le> tr + 7"
  using track_bounds [of "tr + 6" buf] by (simp_all add: next_edge_def)

lemma next_edge_later: "tr < next_edge buf tr"
  using next_edge_bounds(1) [of tr buf] by simp

function decode_from :: "bytes \<Rightarrow> dpll \<Rightarrow> bytes" where
  "decode_from buf st =
     (if dp_tr st = 0 \<or> 8 * length buf < dp_tr st then dp_frame st
      else case absorb_bit (st\<lparr>dp_pending := None\<rparr>) (of_bool (samp buf (dp_tr st - 1))) of
        Inl frame \<Rightarrow> frame
      | Inr st' \<Rightarrow> decode_from buf (st'\<lparr>dp_tr := next_edge buf (dp_tr st)\<rparr>))"
  by auto
termination
  by (relation "measure (\<lambda>(buf, st). 8 * length buf + 1 - dp_tr st)")
    (auto intro!: diff_less_mono2 next_edge_later)

declare decode_from.simps [simp del]

text \<open>The state of the fast loop: what is pending is the sample before the tracked edge.\<close>

definition pending_ok :: "bytes \<Rightarrow> dpll \<Rightarrow> bool" where
  "pending_ok buf st \<longleftrightarrow> dp_pending st = None \<or> dp_pending st = Some (of_bool (samp buf (dp_tr st - 1)))"

lemma next_bit_val:
  assumes "pending_ok buf st" and "1 \<le> dp_tr st" and "dp_tr st \<le> 8 * length buf"
  shows "next_bit buf st = Some (of_bool (samp buf (dp_tr st - 1)))"
  using assms sample_unchecked_val [of "dp_tr st - 1" buf]
  by (auto simp: pending_ok_def next_bit_def)

lemma absorb_bit_pending:
  "absorb_bit (st\<lparr>dp_pending := p\<rparr>) b = map_sum id (\<lambda>st. st\<lparr>dp_pending := p\<rparr>) (absorb_bit st b)"
  by (simp add: absorb_bit_def Let_def)

lemma absorb_bit_tr: "absorb_bit st b = Inr st' \<Longrightarrow> dp_tr st' = dp_tr st \<and> dp_pending st' = dp_pending st"
  by (auto simp: absorb_bit_def Let_def split: if_splits)

lemma absorb_bit_set_tr:
  "absorb_bit (st\<lparr>dp_tr := t\<rparr>) b = map_sum id (\<lambda>st. st\<lparr>dp_tr := t\<rparr>) (absorb_bit st b)"
  by (simp add: absorb_bit_def Let_def)

lemma decode_from_pending: "decode_from buf (st\<lparr>dp_pending := p\<rparr>) = decode_from buf st"
  by (subst (1 2) decode_from.simps) (simp split: sum.split)


lemma next_edge_tail:
  assumes "dp_tr st + 6 + 1 < 8 * length buf"
  shows "find_edge_w1 buf (dp_tr st + 6) = Some (next_edge buf (dp_tr st))"
  using find_edge_w1_val [of "dp_tr st + 6" buf] assms by (simp add: next_edge_def)

lemma tail_loop_val:
  "8 * length buf < 2 ^ 32 \<Longrightarrow> pending_ok buf st \<Longrightarrow>
     tail_loop buf (8 * length buf) st = Some (decode_from buf st)"
proof (induction buf st rule: decode_from.induct)
  case (1 buf st)
  let ?b = "of_bool (samp buf (dp_tr st - 1)) :: u8"
  show ?case
  proof (cases "dp_tr st = 0 \<or> 8 * length buf < dp_tr st")
    case True
    then show ?thesis by (simp add: tail_loop.simps [of buf _ st] decode_from.simps [of buf st])
  next
    case run: False
    then have nb: "next_bit buf st = Some ?b" using next_bit_val [OF 1(3)] by simp
    have le: "8 * length buf \<le> 2 ^ 32 - 8" using 1(2) by simp
    then have small: "dp_tr st + 6 < 2 ^ 32" using run by simp
    show ?thesis
    proof (cases "absorb_bit (st\<lparr>dp_pending := None\<rparr>) ?b")
      case (Inl frame)
      with run nb show ?thesis by (simp add: tail_loop.simps [of buf _ st] decode_from.simps [of buf st])
    next
      case (Inr st')
      have p: "pending_ok buf (st'\<lparr>dp_tr := t\<rparr>)" for t
        using absorb_bit_tr [OF Inr] by (simp add: pending_ok_def)
      have tr': "dp_tr st' = dp_tr st" using absorb_bit_tr [OF Inr] by simp
      have ih: "tail_loop buf (8 * length buf) (st'\<lparr>dp_tr := next_edge buf (dp_tr st)\<rparr>)
          = Some (decode_from buf (st'\<lparr>dp_tr := next_edge buf (dp_tr st)\<rparr>))"
        by (rule 1(1) [OF run Inr 1(2) p])
      have "tail_loop buf (8 * length buf) st
          = tail_loop buf (8 * length buf) (st'\<lparr>dp_tr := next_edge buf (dp_tr st)\<rparr>)"
      proof (cases "8 * length buf \<le> dp_tr st + 6 + 1")
        case True
        then have "next_edge buf (dp_tr st) = dp_tr st + 6" by (simp add: next_edge_def)
        with True run nb Inr tr' small show ?thesis by (subst tail_loop.simps) simp
      next
        case False
        then have "find_edge_w1 buf (dp_tr st + 6) = Some (next_edge buf (dp_tr st))"
          by (intro next_edge_tail) simp
        with False run nb Inr tr' small show ?thesis by (subst tail_loop.simps) simp
      qed
      with ih Inr run show ?thesis by (simp add: decode_from.simps [of buf st])
    qed
  qed
qed

lemma fast_loop_val:
  "pending_ok buf (st\<lparr>dp_pending := p\<rparr>) \<Longrightarrow>
     \<exists>r. fast_loop buf (8 * length buf) (st\<lparr>dp_pending := p\<rparr>) = Some r
       \<and> (case r of Inl frame \<Rightarrow> frame = decode_from buf st
          | Inr st' \<Rightarrow> pending_ok buf st' \<and> decode_from buf st' = decode_from buf st)"
proof (induction buf st arbitrary: p rule: decode_from.induct)
  case (1 buf st)
  let ?b = "of_bool (samp buf (dp_tr st - 1)) :: u8"
  let ?st = "st\<lparr>dp_pending := p\<rparr>"
  show ?case
  proof (cases "1 \<le> dp_tr st \<and> dp_tr st + 20 \<le> 8 * length buf")
    case False
    then have "fast_loop buf (8 * length buf) ?st = Some (Inr ?st)"
      by (subst fast_loop.simps) auto
    with 1(2) show ?thesis by (simp add: decode_from_pending)
  next
    case run: True
    then have go: "\<not> (dp_tr st = 0 \<or> 8 * length buf < dp_tr st)" by simp
    have nb: "next_bit buf ?st = Some ?b" using next_bit_val [OF 1(2)] run by simp
    show ?thesis
    proof (cases "absorb_bit (st\<lparr>dp_pending := None\<rparr>) ?b")
      case (Inl frame)
      then have a: "absorb_bit ?st ?b = Inl frame"
        using absorb_bit_pending [of p "st\<lparr>dp_pending := None\<rparr>" ?b] by simp
      have "decode_from buf st = frame" using go Inl by (simp add: decode_from.simps [of buf st])
      with run nb a show ?thesis by (simp add: fast_loop.simps [of buf _ ?st])
    next
      case (Inr st1)
      define tr' where "tr' = next_edge buf (dp_tr st)"
      define q where "q = Some (of_bool (samp buf (tr' - 1)) :: u32)"
      have a: "absorb_bit ?st ?b = Inr (st1\<lparr>dp_pending := p\<rparr>)"
        using absorb_bit_pending [of p "st\<lparr>dp_pending := None\<rparr>" ?b] Inr by simp
      have tr: "dp_tr st1 = dp_tr st" using absorb_bit_tr [OF Inr] by simp
      have t: "tr' = track buf (dp_tr st + 6)" using run by (simp add: tr'_def next_edge_def)
      have e: "st1\<lparr>dp_pending := p, dp_tr := dp_tr st\<rparr> = st1\<lparr>dp_pending := p\<rparr>" using tr by simp
      have adv: "fast_advance buf (st1\<lparr>dp_pending := p\<rparr>) = Some (st1\<lparr>dp_tr := tr', dp_pending := q\<rparr>)"
        using table_step [of "dp_tr st" buf "st1\<lparr>dp_pending := p\<rparr>"] run unfolding e t [symmetric] q_def by simp
      have ok: "pending_ok buf ((st1\<lparr>dp_tr := tr'\<rparr>)\<lparr>dp_pending := q\<rparr>)"
        by (simp add: pending_ok_def q_def)
      have d: "decode_from buf st = decode_from buf (st1\<lparr>dp_tr := tr'\<rparr>)"
        using go Inr by (simp add: decode_from.simps [of buf st] tr'_def)
      have f: "fast_loop buf (8 * length buf) ?st
          = fast_loop buf (8 * length buf) ((st1\<lparr>dp_tr := tr'\<rparr>)\<lparr>dp_pending := q\<rparr>)"
        using run nb a adv by (simp add: fast_loop.simps [of buf _ ?st])
      show ?thesis unfolding d f using 1(1) [OF go Inr ok [unfolded tr'_def]] unfolding tr'_def .
    qed
  qed
qed

text \<open>The length stays within the capacity of the frame vector.\<close>

lemma header_cap_le: "cap \<le> MAX_FRAME_BYTES \<Longrightarrow> header_cap frame cap \<le> MAX_FRAME_BYTES"
  by (simp add: header_cap_def Let_def)

lemma decode_from_length:
  "length (dp_frame st) \<le> MAX_FRAME_BYTES \<Longrightarrow> length (decode_from buf st) \<le> MAX_FRAME_BYTES"
proof (induction buf st rule: decode_from.induct)
  case (1 buf st)
  have "length fr \<le> MAX_FRAME_BYTES" if "absorb_bit (st\<lparr>dp_pending := None\<rparr>) b = Inl fr" for b fr
    using that 1(2) by (auto simp: absorb_bit_def Let_def split: if_splits)
  moreover have "length (dp_frame st') \<le> MAX_FRAME_BYTES"
    if "absorb_bit (st\<lparr>dp_pending := None\<rparr>) b = Inr st'" for b st'
    using that 1(2) by (auto simp: absorb_bit_def Let_def split: if_splits)
  ultimately show ?case
    using 1 by (subst decode_from.simps) (auto split: sum.split)
qed

section \<open>The anchors\<close>

lemma find_f_loop_total:
  "\<forall>i \<in> set is. i < 8 * length buf \<Longrightarrow> \<exists>r. find_f_loop buf is prev = Some r"
  by (induction "is" arbitrary: prev) (auto simp: sample_checked_val)

lemma find_f_total: "buf \<noteq> [] \<Longrightarrow> \<exists>r. find_f buf (8 * length buf) = Some r"
  using find_f_loop_total [of "[1..<8 * length buf]" buf] sample_checked_val [of 0 buf]
  by (simp add: find_f_def)

lemma find_sfd_read_total: "\<exists>r. find_sfd_read buf (8 * length buf) f k = Some r"
  by (simp add: find_sfd_read_def Let_def sample_checked_val)

lemma find_sfd_loop_total: "\<exists>r. find_sfd_loop buf (8 * length buf) f ks prev = Some r"
proof (induction ks arbitrary: prev)
  case (Cons k ks)
  obtain r where "find_sfd_read buf (8 * length buf) f k = Some r" using find_sfd_read_total by blast
  with Cons show ?case by (cases r) auto
qed simp

lemma find_sfd_total: "\<exists>r. find_sfd buf (8 * length buf) f = Some r"
proof -
  obtain r where "find_sfd_read buf (8 * length buf) f 0 = Some r" using find_sfd_read_total by blast
  then show ?thesis using find_sfd_loop_total by (cases r) (auto simp: find_sfd_def)
qed

lemma first_anchor_total:
  assumes "buf \<noteq> []"
  shows "\<exists>r. first_anchor buf (8 * length buf) = Some r"
proof -
  obtain fo where fo: "find_f buf (8 * length buf) = Some fo" using find_f_total [OF assms] by blast
  show ?thesis
  proof (cases fo)
    case None
    with fo show ?thesis by (simp add: first_anchor_def)
  next
    case (Some f)
    obtain so where so: "find_sfd buf (8 * length buf) f = Some so" using find_sfd_total by blast
    with fo Some show ?thesis
      by (cases so) (simp_all add: first_anchor_def Let_def find_edge_w1_val)
  qed
qed

lemma dpll_is_reference_core:
  assumes "buf \<noteq> []" and "8 * length buf < 2 ^ 32"
  shows "\<exists>anchor. first_anchor buf (8 * length buf) = Some anchor
    \<and> decode_frame_edge_track buf = Some (map_option (\<lambda>tr. decode_from buf (dpll_start tr)) anchor)"
proof -
  obtain anchor where a: "first_anchor buf (8 * length buf) = Some anchor"
    using first_anchor_total [OF assms(1)] by blast
  have "decode_frame_edge_track buf = Some (map_option (\<lambda>tr. decode_from buf (dpll_start tr)) anchor)"
  proof (cases anchor)
    case None
    with a assms(2) show ?thesis by (simp add: decode_frame_edge_track_def mult.commute)
  next
    case (Some tr)
    have "pending_ok buf (dpll_start tr\<lparr>dp_pending := None\<rparr>)" by (simp add: pending_ok_def)
    from fast_loop_val [OF this] obtain r where "fast_loop buf (8 * length buf) (dpll_start tr\<lparr>dp_pending := None\<rparr>) = Some r
      \<and> (case r of Inl frame \<Rightarrow> frame = decode_from buf (dpll_start tr)
         | Inr st' \<Rightarrow> pending_ok buf st' \<and> decode_from buf st' = decode_from buf (dpll_start tr))" ..
    then have r: "fast_loop buf (8 * length buf) (dpll_start tr) = Some r"
      "case r of Inl frame \<Rightarrow> frame = decode_from buf (dpll_start tr)
       | Inr st' \<Rightarrow> pending_ok buf st' \<and> decode_from buf st' = decode_from buf (dpll_start tr)"
      by (simp_all add: dpll_start_def)
    then show ?thesis using a Some assms(2)
      by (cases r) (simp_all add: decode_frame_edge_track_def mult.commute [of _ 8] tail_loop_val)
  qed
  with a show ?thesis by blast
qed

section \<open>Manchester cells\<close>

text \<open>What the sampler sees of one data bit \<open>d\<close>: \<open>a\<close> samples of level \<open>d\<close>, the edge in the middle of the
  bit, \<open>b\<close> samples of the other level (the polarity of the captures under \<^verbatim>\<open>tools/clock-recovery\<close>).\<close>

type_synonym cell = "bool \<times> nat \<times> nat"

primrec manchester :: "bytes \<Rightarrow> nat \<Rightarrow> cell list \<Rightarrow> bool" where
  "manchester buf s [] = True"
| "manchester buf s (c # cs) = (case c of (d, a, b) \<Rightarrow>
     (\<forall>i < a. samp buf (s + i) = d) \<and> (\<forall>i < b. samp buf (s + a + i) = (\<not> d))
     \<and> manchester buf (s + a + b) cs)"

primrec wave_len :: "cell list \<Rightarrow> nat" where
  "wave_len [] = 0"
| "wave_len (c # cs) = (case c of (d, a, b) \<Rightarrow> a + b + wave_len cs)"

text \<open>The preamble is read at a fixed stride of six samples from \<open>i\<close>: every read must fall into the
  first half of its bit.\<close>

primrec locked :: "nat \<Rightarrow> nat \<Rightarrow> cell list \<Rightarrow> bool" where
  "locked i s [] = True"
| "locked i s (c # cs) = (case c of (d, a, b) \<Rightarrow> s \<le> i \<and> i < s + a \<and> locked (i + 6) (s + a + b) cs)"

text \<open>The data is read by following the edges: each edge may be one sample early or late against six
  samples after the one before, and the halves around it must be long enough to tell it from the
  edges between bits.\<close>

primrec tracked :: "nat \<Rightarrow> nat \<Rightarrow> cell list \<Rightarrow> bool" where
  "tracked c s [] = True"
| "tracked c s (x # cs) = (case x of (d, a, b) \<Rightarrow>
     c \<le> s + a + 1 \<and> s + a \<le> c + 1 \<and> 1 \<le> a \<and> 1 \<le> b
     \<and> (s + a = c + 1 \<longrightarrow> 3 \<le> a) \<and> (s + a + 1 = c \<longrightarrow> 2 \<le> b)
     \<and> tracked (s + a + 6) (s + a + b) cs)"

lemma manchester_append:
  "manchester buf s (xs @ ys) \<longleftrightarrow> manchester buf s xs \<and> manchester buf (s + wave_len xs) ys"
  by (induction xs arbitrary: s) (auto simp: add.assoc)

lemma track_cell:
  assumes "\<forall>i < a. samp buf (s + i) = d" and "\<forall>i < b. samp buf (s + a + i) = (\<not> d)"
    and "2 \<le> c" and "c \<le> s + a + 1" and "s + a \<le> c + 1" and "1 \<le> a" and "1 \<le> b"
    and "s + a = c + 1 \<longrightarrow> 3 \<le> a" and "s + a + 1 = c \<longrightarrow> 2 \<le> b"
  shows "track buf c = s + a" and "samp buf (s + a - 1) = d"
proof -
  have first: "samp buf j = d" if "s \<le> j" "j < s + a" for j
    using assms(1) that by (elim allE [of _ "j - s"]) simp
  have second: "samp buf j = (\<not> d)" if "s + a \<le> j" "j < s + a + b" for j
    using assms(2) that by (elim allE [of _ "j - (s + a)"]) simp
  show last: "samp buf (s + a - 1) = d" using assms(6) by (intro first) simp_all
  have edge: "edge_at buf (s + a)"
    using last second [of "s + a"] assms(7) by (simp add: edge_at_def)
  consider "s + a = c" | "s + a + 1 = c" | "s + a = c + 1" using assms(4,5) by linarith
  then show "track buf c = s + a"
  proof cases
    case 1
    with edge show ?thesis by (simp add: track_def)
  next
    case 2
    then have "\<not> edge_at buf c"
      using second [of "c - 1"] second [of c] assms(9) by (simp add: edge_at_def)
    moreover have "c - 1 = s + a" using 2 by simp
    ultimately show ?thesis using edge by (simp add: track_def)
  next
    case 3
    then have "\<not> edge_at buf c" "\<not> edge_at buf (c - 1)"
      using first [of "c - 1"] first [of c] first [of "c - 1 - 1"] assms(8) by (simp_all add: edge_at_def)
    with edge 3 show ?thesis by (simp add: track_def)
  qed
qed

text \<open>The bits of a byte as they go over the line, and what the decoder makes of a list of bits.\<close>

definition bits_of :: "u8 \<Rightarrow> bool list" where
  "bits_of b = map (bit b) [0..<8]"

primrec absorb_bits :: "dpll \<Rightarrow> bool list \<Rightarrow> bytes + dpll" where
  "absorb_bits st [] = Inr st"
| "absorb_bits st (d # ds) = (case absorb_bit st (of_bool d) of
     Inl frame \<Rightarrow> Inl frame
   | Inr st' \<Rightarrow> absorb_bits st' ds)"

lemma absorb_bits_append:
  "absorb_bits st (xs @ ys) = (case absorb_bits st xs of Inl f \<Rightarrow> Inl f | Inr st' \<Rightarrow> absorb_bits st' ys)"
  by (induction xs arbitrary: st) (simp_all split: sum.split)

lemma absorb_bits_set_tr:
  "absorb_bits (st\<lparr>dp_tr := t\<rparr>) ds = map_sum id (\<lambda>st. st\<lparr>dp_tr := t\<rparr>) (absorb_bits st ds)"
  by (induction ds arbitrary: st) (simp_all add: absorb_bit_set_tr split: sum.split)

lemma byte_of_bits:
  "((((((((0 OR push_bit 0 (of_bool (bit b 0))) OR push_bit 1 (of_bool (bit b 1))) OR push_bit 2
    (of_bool (bit b 2))) OR push_bit 3 (of_bool (bit b 3))) OR push_bit 4 (of_bool (bit b 4))) OR
    push_bit 5 (of_bool (bit b 5))) OR push_bit 6 (of_bool (bit b 6))) OR push_bit 7 (of_bool (bit b
    7))) = b" for b :: u8
proof (rule bit_word_eqI)
  fix n assume "n < LENGTH(8)"
  then consider "n = 0" | "n = 1" | "n = 2" | "n = 3" | "n = 4" | "n = 5" | "n = 6" | "n = 7" by force
  then show "bit (((((((((0 OR push_bit 0 (of_bool (bit b 0))) OR push_bit 1 (of_bool (bit b 1))) OR push_bit 2
    (of_bool (bit b 2))) OR push_bit 3 (of_bool (bit b 3))) OR push_bit 4 (of_bool (bit b 4))) OR
    push_bit 5 (of_bool (bit b 5))) OR push_bit 6 (of_bool (bit b 6))) OR push_bit 7 (of_bool (bit b
    7))) :: u8) n = bit b n"
    by cases (simp_all add: bit_simps)
qed

lemma absorb_bits_part:
  "i < 7 \<Longrightarrow> absorb_bits (st\<lparr>dp_byte := y, dp_bit_idx := i\<rparr>) (d # ds)
     = absorb_bits (st\<lparr>dp_byte := y OR push_bit i (of_bool d), dp_bit_idx := i + 1\<rparr>) ds"
  by (simp add: absorb_bit_def)

lemma absorb_bits_last:
  "absorb_bits (st\<lparr>dp_byte := y, dp_bit_idx := 7\<rparr>) [d] =
    (if MAX_FRAME_BYTES \<le> length (dp_frame st) then Inl (dp_frame st)
     else
       (let frame = dp_frame st @ [y OR push_bit 7 (of_bool d)]; cap = header_cap frame (dp_cap_bytes st)
        in if cap \<le> length frame then Inl frame
           else Inr (st\<lparr>dp_frame := frame, dp_byte := 0, dp_bit_idx := 0, dp_cap_bytes := cap\<rparr>)))"
  by (simp add: absorb_bit_def Let_def del: of_bool_eq_0_iff)

lemma absorb_byte:
  assumes "dp_byte st = 0" and "dp_bit_idx st = 0"
  shows "absorb_bits st (bits_of b) =
    (if MAX_FRAME_BYTES \<le> length (dp_frame st) then Inl (dp_frame st)
     else
       (let frame = dp_frame st @ [b]; cap = header_cap frame (dp_cap_bytes st)
        in if cap \<le> length frame then Inl frame
           else Inr (st\<lparr>dp_frame := frame, dp_byte := 0, dp_bit_idx := 0, dp_cap_bytes := cap\<rparr>)))"
proof -
  have "[0..<8] = [0, 1, 2, 3, 4, 5, 6, 7]" by code_simp
  then have b: "bits_of b = [bit b 0, bit b 1, bit b 2, bit b 3, bit b 4, bit b 5, bit b 6, bit b 7]"
    by (simp only: bits_of_def list.map)
  have st: "st = st\<lparr>dp_byte := 0, dp_bit_idx := 0\<rparr>" using assms by simp
  have n: "(0::nat) + 1 = 1" "(1::nat) + 1 = 2" "(2::nat) + 1 = 3" "(3::nat) + 1 = 4" "(4::nat) + 1 = 5"
    "(5::nat) + 1 = 6" "(6::nat) + 1 = 7" by simp_all
  have lt: "(0::nat) < 7" "(1::nat) < 7" "(2::nat) < 7" "(3::nat) < 7" "(4::nat) < 7" "(5::nat) < 7" "(6::nat) < 7"
    by simp_all
  show ?thesis
    unfolding b by (subst st) (simp only: absorb_bits_part [OF lt(1)] absorb_bits_part [OF lt(2)]
      absorb_bits_part [OF lt(3)] absorb_bits_part [OF lt(4)] absorb_bits_part [OF lt(5)]
      absorb_bits_part [OF lt(6)] absorb_bits_part [OF lt(7)] n absorb_bits_last byte_of_bits)
qed

text \<open>The length at which the decoder stops, read off the frame itself.\<close>

definition frame_cap :: "bytes \<Rightarrow> nat" where
  "frame_cap bs =
     (if 18 \<le> length bs \<and> be16 (bs ! 12) (bs ! 13) = 0x0800
      then min (max (14 + unat (be16 (bs ! 16) (bs ! 17)) + 4) 64) MAX_FRAME_BYTES
      else MAX_FRAME_BYTES)"

lemma frame_cap_bounds: "64 \<le> frame_cap bs" "frame_cap bs \<le> MAX_FRAME_BYTES"
  by (simp_all add: frame_cap_def MAX_FRAME_BYTES_def)

lemma frame_cap_snoc: "header_cap (bs @ [b]) (frame_cap bs) = frame_cap (bs @ [b])"
proof -
  consider "length bs < 17" | "length bs = 17" | "18 \<le> length bs" by linarith
  then show ?thesis
    by cases (auto simp: header_cap_def frame_cap_def Let_def nth_append)
qed

lemma absorb_bytes:
  "absorb_bits (dpll_start t) (concat (map bits_of bs)) =
     (if frame_cap bs \<le> length bs then Inl (take (frame_cap bs) bs)
      else Inr (dpll_start t\<lparr>dp_frame := bs, dp_cap_bytes := frame_cap bs\<rparr>))"
proof (induction bs rule: rev_induct)
  case Nil
  then show ?case by (simp add: frame_cap_def dpll_start_def MAX_FRAME_BYTES_def)
next
  case (snoc b bs)
  let ?st = "dpll_start t\<lparr>dp_frame := bs, dp_cap_bytes := frame_cap bs\<rparr>"
  show ?case
  proof (cases "frame_cap bs \<le> length bs")
    case True
    then have "64 \<le> length bs" using frame_cap_bounds(1) [of bs] by simp
    then have "frame_cap (bs @ [b]) = frame_cap bs" by (simp add: frame_cap_def nth_append)
    with True snoc show ?thesis by (simp add: absorb_bits_append)
  next
    case False
    have z: "dp_byte ?st = 0" "dp_bit_idx ?st = 0" by (simp_all add: dpll_start_def)
    from False have "length bs < MAX_FRAME_BYTES" using frame_cap_bounds(2) [of bs] by simp
    with absorb_byte [OF z, of b] have "absorb_bits ?st (bits_of b) =
        (if frame_cap (bs @ [b]) \<le> length (bs @ [b]) then Inl (bs @ [b])
         else Inr (dpll_start t\<lparr>dp_frame := bs @ [b], dp_cap_bytes := frame_cap (bs @ [b])\<rparr>))"
      by (simp add: frame_cap_snoc Let_def dpll_start_def)
    moreover have "take (frame_cap (bs @ [b])) (bs @ [b]) = bs @ [b]" if "frame_cap (bs @ [b]) \<le> length (bs @ [b])"
    proof -
      have "length bs < frame_cap (bs @ [b])"
      proof (cases "18 \<le> length bs")
        case True
        then have "frame_cap (bs @ [b]) = frame_cap bs" by (simp add: frame_cap_def nth_append)
        with False show ?thesis by simp
      next
        case False
        with frame_cap_bounds(1) [of "bs @ [b]"] show ?thesis by simp
      qed
      then show ?thesis by simp
    qed
    ultimately show ?thesis using False snoc by (simp add: absorb_bits_append)
  qed
qed


section \<open>Following the edges\<close>

lemma decode_follow:
  assumes "manchester buf s cs" and "tracked c s cs" and "cs \<noteq> []" and "2 \<le> c"
    and "s + wave_len cs + 2 \<le> 8 * length buf" and "dp_tr st = track buf c" and "dp_pending st = None"
  shows "\<exists>t. decode_from buf st = (case absorb_bits st (map fst cs) of
      Inl frame \<Rightarrow> frame | Inr st' \<Rightarrow> decode_from buf (st'\<lparr>dp_tr := t\<rparr>))"
  using assms
proof (induction cs arbitrary: s c st)
  case (Cons x cs)
  obtain d a b where x: "x = (d, a, b)" by (cases x)
  have c: "track buf c = s + a" "samp buf (s + a - 1) = d" "1 \<le> a" "1 \<le> b"
    using track_cell [of a buf s d b c] Cons.prems(1,2,4) unfolding x by simp_all
  define M where "M = s + a"
  have tr: "dp_tr st = M" using Cons.prems(6) c by (simp add: M_def)
  have go: "\<not> (dp_tr st = 0 \<or> 8 * length buf < dp_tr st)"
    using Cons.prems(5) c(3) unfolding tr M_def x by simp
  have st: "st\<lparr>dp_pending := None\<rparr> = st" using Cons.prems(7) by simp
  have b: "samp buf (dp_tr st - 1) = d" using c(2) tr by (simp add: M_def)
  show ?case
  proof (cases "absorb_bit st (of_bool d)")
    case (Inl frame)
    with go b st show ?thesis by (simp add: decode_from.simps [of buf st] x)
  next
    case (Inr st')
    have d: "decode_from buf st = decode_from buf (st'\<lparr>dp_tr := next_edge buf M\<rparr>)"
      using go b st Inr tr by (simp add: decode_from.simps [of buf st])
    show ?thesis
    proof (cases "cs = []")
      case True
      with d Inr show ?thesis by (auto simp: x)
    next
      case False
      then obtain d2 a2 b2 cs' where cs: "cs = (d2, a2, b2) # cs'" by (metis neq_Nil_conv prod_cases3)
      have t: "tracked (M + 6) (M + b) cs" "manchester buf (M + b) cs"
        "M + b + wave_len cs + 2 \<le> 8 * length buf"
        using Cons.prems(1,2,5) by (simp_all add: x M_def)
      then have "M + 6 \<le> M + b + a2 + 1" "1 \<le> b2" by (simp_all add: cs)
      with t(3) have "next_edge buf M = track buf (M + 6)" by (simp add: next_edge_def cs)
      moreover have "dp_pending (st'\<lparr>dp_tr := next_edge buf M\<rparr>) = None"
        using absorb_bit_tr [OF Inr] Cons.prems(7) by simp
      ultimately obtain t' where "decode_from buf (st'\<lparr>dp_tr := next_edge buf M\<rparr>) =
          (case absorb_bits (st'\<lparr>dp_tr := next_edge buf M\<rparr>) (map fst cs) of
            Inl frame \<Rightarrow> frame | Inr st' \<Rightarrow> decode_from buf (st'\<lparr>dp_tr := t'\<rparr>))"
        using Cons.IH [OF t(2,1) False _ t(3), of "st'\<lparr>dp_tr := next_edge buf M\<rparr>"] by auto
      then have "decode_from buf st = (case absorb_bits st' (map fst cs) of
            Inl frame \<Rightarrow> frame | Inr st' \<Rightarrow> decode_from buf (st'\<lparr>dp_tr := t'\<rparr>))"
        unfolding d absorb_bits_set_tr by (simp split: sum.splits)
      with Inr show ?thesis by (auto simp: x)
    qed
  qed
qed simp

lemma find_f_loop_hit:
  assumes "i0 \<le> F" and "F < ns" and "ns \<le> 8 * length buf"
    and "\<forall>i. i0 \<le> i \<and> i < F \<longrightarrow> \<not> (samp buf (i - 1) \<and> \<not> samp buf i)"
    and "samp buf (F - 1)" and "\<not> samp buf F" and "1 \<le> i0"
  shows "find_f_loop buf [i0..<ns] (of_bool (samp buf (i0 - 1))) = Some (Some F)"
  using assms
proof (induction "F - i0" arbitrary: i0)
  case 0
  then show ?case by (simp add: upt_conv_Cons sample_checked_val)
next
  case (Suc n)
  then have "\<not> (samp buf (i0 - 1) \<and> \<not> samp buf i0)" by simp
  moreover have "find_f_loop buf [Suc i0..<ns] (of_bool (samp buf (Suc i0 - 1))) = Some (Some F)"
    using Suc by (intro Suc.hyps(1)) auto
  moreover have "[i0..<ns] = i0 # [Suc i0..<ns]" using Suc.prems Suc.hyps(2) by (simp add: upt_conv_Cons)
  ultimately show ?case using Suc.prems(2,3) Suc.hyps(2) by (auto simp: sample_checked_val)
qed

lemma find_f_hit:
  assumes "1 \<le> F" and "F < 8 * length buf" and "\<forall>i. 1 \<le> i \<and> i < F \<longrightarrow> \<not> (samp buf (i - 1) \<and> \<not> samp buf i)"
    and "samp buf (F - 1)" and "\<not> samp buf F"
  shows "find_f buf (8 * length buf) = Some (Some F)"
proof -
  have "sample_bit_checked buf 0 = Some (of_bool (samp buf 0))"
    using assms(2) by (intro sample_checked_val) linarith
  then show ?thesis
    using find_f_loop_hit [of 1 F "8 * length buf" buf] assms by (simp add: find_f_def)
qed

lemma sfd_read_cell:
  assumes "manchester buf s (c # cs)" and "locked (f + 4 + 6 * k) s (c # cs)"
    and "s + wave_len (c # cs) \<le> 8 * length buf"
  shows "find_sfd_read buf (8 * length buf) f k = Some (Some (of_bool (fst c)))"
proof -
  obtain d a b where c: "c = (d, a, b)" by (cases c)
  have i: "s \<le> f + 4 + 6 * k" "f + 4 + 6 * k < s + a" using assms(2) by (simp_all add: c)
  have "\<forall>i < a. samp buf (s + i) = d" using assms(1) by (simp add: c)
  then have "samp buf (s + (f + 4 + 6 * k - s)) = d" using i by (elim allE [of _ "f + 4 + 6 * k - s"]) simp
  with i assms(3) show ?thesis by (simp add: find_sfd_read_def Let_def sample_checked_val c)
qed

text \<open>Alternating bits and the closing pair of ones, as the preamble has them after its first bit.\<close>

definition preamble_bits :: "nat \<Rightarrow> bool list" where
  "preamble_bits n = concat (replicate n [False, True]) @ [True]"

lemma preamble_bits_simps [simp]:
  "preamble_bits 0 = [True]" "preamble_bits (Suc n) = False # True # preamble_bits n"
  by (simp_all add: preamble_bits_def)

lemma find_sfd_loop_hit:
  assumes "map fst cs = preamble_bits n" and "manchester buf s cs" and "locked (f + 4 + 6 * k) s cs"
    and "s + wave_len cs \<le> 8 * length buf" and "k + 2 * n < m"
  shows "find_sfd_loop buf (8 * length buf) f [k..<m] 1 = Some (Some (k + 2 * n))"
  using assms
proof (induction n arbitrary: cs s k)
  case 0
  then obtain x where x: "cs = [x]" "fst x = True" by auto
  with 0 sfd_read_cell [of buf s x "[]" f k] show ?case by (simp add: upt_conv_Cons)
next
  case (Suc n)
  then obtain x y cs' where cs: "cs = x # y # cs'" "fst x = False" "fst y = True" "map fst cs' = preamble_bits n"
    by (auto simp: map_eq_Cons_conv)
  obtain a b where x: "x = (False, a, b)" using cs(2) by (cases x) auto
  obtain a2 b2 where y: "y = (True, a2, b2)" using cs(3) by (cases y) auto
  have r1: "find_sfd_read buf (8 * length buf) f k = Some (Some 0)"
    using sfd_read_cell [of buf s x "y # cs'" f k] Suc.prems(2-4) by (simp add: cs)
  have r2: "find_sfd_read buf (8 * length buf) f (Suc k) = Some (Some 1)"
    using sfd_read_cell [of buf "s + a + b" y cs' f "Suc k"] Suc.prems(2-4)
    by (simp add: cs x add.assoc add.commute [of 6])
  have "find_sfd_loop buf (8 * length buf) f [k + 2..<m] 1 = Some (Some (k + 2 + 2 * n))"
    using Suc.prems(2-5) cs(4)
    by (intro Suc.IH [of cs' "s + a + b + a2 + b2"]) (simp_all add: cs(1) x y add.assoc add.commute [of 12])
  then show ?case using r1 r2 Suc.prems(5) by (simp add: upt_conv_Cons)
qed

lemma find_sfd_hit:
  assumes "map fst cs = preamble_bits (Suc n)" and "manchester buf s cs" and "locked (f + 4) s cs"
    and "s + wave_len cs \<le> 8 * length buf" and "2 * Suc n < 1600"
  shows "find_sfd buf (8 * length buf) f = Some (Some (2 * Suc n))"
proof -
  obtain x y cs' where cs: "cs = x # y # cs'" "fst x = False" "fst y = True" "map fst cs' = preamble_bits n"
    using assms(1) by (auto simp: map_eq_Cons_conv)
  obtain a b where x: "x = (False, a, b)" using cs(2) by (cases x) auto
  obtain a2 b2 where y: "y = (True, a2, b2)" using cs(3) by (cases y) auto
  have r0: "find_sfd_read buf (8 * length buf) f 0 = Some (Some 0)"
    using sfd_read_cell [of buf s x "y # cs'" f 0] assms(2-4) by (simp add: cs)
  have r1: "find_sfd_read buf (8 * length buf) f 1 = Some (Some 1)"
    using sfd_read_cell [of buf "s + a + b" y cs' f 1] assms(2-4) by (simp add: cs x)
  have "find_sfd_loop buf (8 * length buf) f [2..<1600] 1 = Some (Some (2 + 2 * n))"
    using assms(2-5) cs(4)
    by (intro find_sfd_loop_hit [of cs' n buf "s + a + b + a2 + b2"]) (simp_all add: cs(1) x y)
  moreover have "[1..<1600] = 1 # [2..<1600]" by (subst upt_conv_Cons) (simp_all add: numeral_2_eq_2)
  ultimately show ?thesis using r0 r1 by (simp add: find_sfd_def)
qed


text \<open>A whole frame on the line: an idle level, the first captured one of the preamble, the rest of
  preamble and delimiter, the frame.\<close>

definition frame_wave :: "bytes \<Rightarrow> nat \<Rightarrow> nat \<Rightarrow> nat \<Rightarrow> cell list \<Rightarrow> cell list \<Rightarrow> bool" where
  "frame_wave buf p a b pre dat \<longleftrightarrow>
     1 \<le> a \<and> 1 \<le> b \<and> (\<exists>idle. \<forall>i < p. samp buf i = idle)
     \<and> manchester buf p ((True, a, b) # pre @ dat)
     \<and> p + a + b + wave_len pre + wave_len dat + 2 \<le> 8 * length buf"

lemma frame_wave_f:
  assumes "frame_wave buf p a b pre dat"
  shows "find_f buf (8 * length buf) = Some (Some (p + a))"
proof (rule find_f_hit)
  from assms obtain idle where idle: "\<forall>i < p. samp buf i = idle" by (auto simp: frame_wave_def)
  from assms have w: "1 \<le> a" "1 \<le> b" "\<forall>i < a. samp buf (p + i)"
    "\<forall>i < b. \<not> samp buf (p + a + i)" "p + a + b \<le> 8 * length buf"
    by (simp_all add: frame_wave_def)
  show "1 \<le> p + a" "p + a < 8 * length buf" using w(1,2,5) by simp_all
  have high: "samp buf i" if "p \<le> i" "i < p + a" for i
    using w(3) that by (elim allE [of _ "i - p"]) simp
  show "samp buf (p + a - 1)" using w(1) by (intro high) simp_all
  show "\<not> samp buf (p + a)" using w(2,4) by (elim allE [of _ 0]) simp
  show "\<forall>i. 1 \<le> i \<and> i < p + a \<longrightarrow> \<not> (samp buf (i - 1) \<and> \<not> samp buf i)"
  proof (intro allI impI)
    fix i assume i: "1 \<le> i \<and> i < p + a"
    show "\<not> (samp buf (i - 1) \<and> \<not> samp buf i)"
    proof (cases "i < p")
      case True
      then have "samp buf i = idle" "samp buf (i - 1) = idle" using idle by simp_all
      then show ?thesis by simp
    qed (use high [of i] i in simp)
  qed
qed

lemma decode_from_extends: "\<exists>rest. decode_from buf st = dp_frame st @ rest"
proof (induction buf st rule: decode_from.induct)
  case (1 buf st)
  let ?a = "absorb_bit (st\<lparr>dp_pending := None\<rparr>) (of_bool (samp buf (dp_tr st - 1)))"
  show ?case
  proof (cases "dp_tr st = 0 \<or> 8 * length buf < dp_tr st")
    case True
    then show ?thesis by (simp add: decode_from.simps [of buf st])
  next
    case go: False
    show ?thesis
    proof (cases ?a)
      case (Inl frame)
      then have "\<exists>rest. frame = dp_frame st @ rest"
        by (auto simp: absorb_bit_def Let_def split: if_splits)
      with go Inl show ?thesis by (simp add: decode_from.simps [of buf st])
    next
      case (Inr st')
      then have "\<exists>rest. dp_frame st' = dp_frame st @ rest"
        by (auto simp: absorb_bit_def Let_def split: if_splits)
      with 1 [OF go Inr] go Inr show ?thesis by (auto simp: decode_from.simps [of buf st])
    qed
  qed
qed

lemma decode_frame_wave:
  assumes "frame_wave buf p a b pre dat"
    and "map fst pre = preamble_bits (Suc n)" and "2 * Suc n < 1600"
    and "locked (p + a + 4) (p + a + b) pre"
    and "map fst dat = concat (map bits_of bs)"
    and "tracked (p + a + 5 + 6 * (2 * Suc n + 1)) (p + a + b + wave_len pre) dat"
    and "bs \<noteq> []" and "8 * length buf < 2 ^ 32"
  shows "\<exists>rest. decode_frame_edge_track buf = Some (Some (take (frame_cap bs) bs @ rest))
    \<and> (frame_cap bs \<le> length bs \<longrightarrow> rest = [])"
proof -
  let ?ns = "8 * length buf" and ?s = "p + a + b + wave_len pre"
  let ?c = "p + a + 5 + 6 * (2 * Suc n + 1)"
  have w: "manchester buf (p + a + b) pre" "manchester buf ?s dat" "?s + wave_len dat + 2 \<le> ?ns"
    using assms(1) by (simp_all add: frame_wave_def manchester_append)
  have f: "find_f buf ?ns = Some (Some (p + a))" using assms(1) by (rule frame_wave_f)
  have sfd: "find_sfd buf ?ns (p + a) = Some (Some (2 * Suc n))"
    using w(3) by (intro find_sfd_hit [OF assms(2) w(1) assms(4) _ assms(3)]) simp
  have "dat \<noteq> []"
  proof
    assume "dat = []"
    with assms(5,7) show False by (cases bs) (simp_all add: bits_of_def)
  qed
  then obtain d a' b' dat' where d: "dat = (d, a', b') # dat'" by (metis neq_Nil_conv prod_cases3)
  have c: "?c \<le> ?s + a' + 1" "1 \<le> b'" "?s + a' + b' + 2 \<le> ?ns"
    using assms(6) w(3) by (simp_all add: d)
  then have lim: "?c + 1 < ?ns" by linarith
  then have c32: "\<not> 2 ^ 32 \<le> ?c" using assms(8) by linarith
  have e: "p + a + (5 + 6 * (2 * Suc n + 1)) = ?c" by simp
  have "find_edge_w1 buf ?c = Some (track buf ?c)" using lim by (intro find_edge_w1_val) simp_all
  then have anchor: "first_anchor buf ?ns = Some (Some (track buf ?c))"
    unfolding first_anchor_def f using lim c32
    by (simp only: sfd bind.bind_lunit option.case Let_def e if_False) simp
  obtain t where "decode_from buf (dpll_start (track buf ?c))
      = (case absorb_bits (dpll_start (track buf ?c)) (map fst dat) of
          Inl frame \<Rightarrow> frame | Inr st' \<Rightarrow> decode_from buf (st'\<lparr>dp_tr := t\<rparr>))"
    using decode_follow [OF w(2) assms(6) \<open>dat \<noteq> []\<close> _ w(3), of "dpll_start (track buf ?c)"]
    by (auto simp: dpll_start_def)
  then have dec: "decode_from buf (dpll_start (track buf ?c))
      = (if frame_cap bs \<le> length bs then take (frame_cap bs) bs
         else decode_from buf (dpll_start t\<lparr>dp_frame := bs, dp_cap_bytes := frame_cap bs\<rparr>))"
    unfolding assms(5) absorb_bytes by (simp add: dpll_start_def)
  have "\<exists>rest. decode_from buf (dpll_start (track buf ?c)) = take (frame_cap bs) bs @ rest
      \<and> (frame_cap bs \<le> length bs \<longrightarrow> rest = [])"
  proof (cases "frame_cap bs \<le> length bs")
    case False
    with decode_from_extends [of buf "dpll_start t\<lparr>dp_frame := bs, dp_cap_bytes := frame_cap bs\<rparr>"]
    show ?thesis unfolding dec by auto
  qed (unfold dec, simp)
  moreover have "buf \<noteq> []" using lim by auto
  ultimately show ?thesis using dpll_is_reference_core [OF _ assms(8)] anchor by auto
qed

section \<open>Captures\<close>

text \<open>The sampler: one bit per sample, eight to a byte, the first in the lowest place.\<close>

definition capture :: "bool list \<Rightarrow> bytes" where
  "capture ws = map (\<lambda>j. horner_sum of_bool 2 (map (\<lambda>i. ws ! (8 * j + i)) [0..<8])) [0..<length ws div 8]"

lemma length_capture [simp]: "length (capture ws) = length ws div 8"
  by (simp add: capture_def)

lemma samp_capture: "i < 8 * (length ws div 8) \<Longrightarrow> samp (capture ws) i = ws ! i"
  by (simp add: samp_def capture_def bit_horner_sum_bit_word_iff less_mult_imp_div_less mult.commute)

text \<open>Bits at the nominal rate, three samples a half.\<close>

definition exact :: "bool list \<Rightarrow> cell list" where
  "exact ds = map (\<lambda>d. (d, 3, 3)) ds"

definition cell_samples :: "bool list \<Rightarrow> bool list" where
  "cell_samples ds = concat (map (\<lambda>d. [d, d, d, \<not> d, \<not> d, \<not> d]) ds)"

lemma exact_simps [simp]: "exact [] = []" "exact (d # ds) = (d, 3, 3) # exact ds"
  "exact (ds @ es) = exact ds @ exact es" "map fst (exact ds) = ds" "wave_len (exact ds) = 6 * length ds"
  by (induction ds) (simp_all add: exact_def)

lemma length_cell_samples [simp]: "length (cell_samples ds) = 6 * length ds"
  by (induction ds) (simp_all add: cell_samples_def)

lemma manchester_exact:
  "\<forall>i < 6 * length ds. samp buf (s + i) = cell_samples ds ! i \<Longrightarrow> manchester buf s (exact ds)"
proof (induction ds arbitrary: s)
  case (Cons d ds)
  have "samp buf (s + 6 + i) = cell_samples ds ! i" if "i < 6 * length ds" for i
    using Cons.prems that by (elim allE [of _ "6 + i"]) (simp add: cell_samples_def nth_append add.assoc)
  then have "manchester buf (s + 3 + 3) (exact ds)" using Cons.IH [of "s + 6"] by (simp add: add.assoc)
  moreover have "samp buf s = d" "samp buf (s + 1) = d" "samp buf (s + 2) = d"
    "samp buf (s + 3) = (\<not> d)" "samp buf (s + 4) = (\<not> d)" "samp buf (s + 5) = (\<not> d)"
    using Cons.prems [rule_format, of 0] Cons.prems [rule_format, of 1] Cons.prems [rule_format, of 2]
      Cons.prems [rule_format, of 3] Cons.prems [rule_format, of 4] Cons.prems [rule_format, of 5]
    by (simp_all add: cell_samples_def)
  then have "\<forall>i < 3. samp buf (s + i) = d" "\<forall>i < 3. samp buf (s + 3 + i) = (\<not> d)"
    by (auto simp: less_Suc_eq numeral_3_eq_3 eval_nat_numeral)
  ultimately show ?case by simp
qed simp

lemma locked_exact: "s \<le> i \<Longrightarrow> i < s + 3 \<Longrightarrow> locked i s (exact ds)"
  by (induction ds arbitrary: i s) simp_all

lemma tracked_exact: "tracked (s + 3) s (exact ds)"
proof (induction ds arbitrary: s)
  case (Cons d ds)
  from Cons [of "s + 6"] show ?case by (simp add: ac_simps)
qed simp

lemma tracked_exact_first: "c + 1 = s + 3 \<Longrightarrow> tracked c s (exact ds)"
  using tracked_exact [of "s + 6"] by (cases ds) (auto simp: ac_simps)

lemma length_preamble_bits [simp]: "length (preamble_bits n) = 2 * n + 1"
  by (induction n) simp_all

lemma frame_wave_exact:
  assumes "ws = replicate p idle @ cell_samples (True # preamble_bits n @ ds) @ post" and "9 \<le> length post"
  shows "frame_wave (capture ws) p 3 3 (exact (preamble_bits n)) (exact ds)"
proof -
  let ?cs = "True # preamble_bits n @ ds"
  have len: "length ws = p + 6 * length ?cs + length post" using assms(1) by simp
  have bound: "p + 6 * length ?cs + 2 \<le> 8 * (length ws div 8)"
    using len assms(2) div_mult_mod_eq [of "length ws" 8] by simp
  have s: "samp (capture ws) i = ws ! i" if "i < p + 6 * length ?cs" for i
    using that bound by (intro samp_capture) simp
  have "\<forall>i < p. samp (capture ws) i = idle" using s by (simp add: assms(1) nth_append)
  moreover have "\<forall>i < 6 * length ?cs. samp (capture ws) (p + i) = cell_samples ?cs ! i"
    using s by (simp add: assms(1) nth_append)
  then have "manchester (capture ws) p (exact ?cs)" by (rule manchester_exact)
  ultimately show ?thesis using bound by (auto simp: frame_wave_def)
qed

lemma decode_capture:
  assumes "ws = replicate p idle @ cell_samples (True # preamble_bits (Suc n) @ concat (map bits_of bs)) @ post"
    and "9 \<le> length post" and "2 * Suc n < 1600" and "bs \<noteq> []" and "length ws < 2 ^ 32"
  shows "\<exists>rest. decode_frame_edge_track (capture ws) = Some (Some (take (frame_cap bs) bs @ rest))
    \<and> (frame_cap bs \<le> length bs \<longrightarrow> rest = [])"
proof (rule decode_frame_wave [OF frame_wave_exact [OF assms(1,2)] _ assms(3)])
  show "8 * length (capture ws) < 2 ^ 32" using assms(5) by simp
  show "locked (p + 3 + 4) (p + 3 + 3) (exact (preamble_bits (Suc n)))" by (rule locked_exact) simp_all
  show "tracked (p + 3 + 5 + 6 * (2 * Suc n + 1)) (p + 3 + 3 + wave_len (exact (preamble_bits (Suc n))))
      (exact (concat (map bits_of bs)))"
    by (rule tracked_exact_first) simp
qed (use assms(4) in simp_all)

lemma decode_total:
  assumes "buf \<noteq> []"
  shows "\<exists>r. decode_frame_edge_track buf = Some r \<and> (\<forall>frame. r = Some frame \<longrightarrow> length frame \<le> MAX_FRAME_BYTES)"
proof (cases "8 * length buf < 2 ^ 32")
  case True
  obtain anchor where "first_anchor buf (8 * length buf) = Some anchor
    \<and> decode_frame_edge_track buf = Some (map_option (\<lambda>tr. decode_from buf (dpll_start tr)) anchor)"
    using dpll_is_reference_core [OF assms True] ..
  then show ?thesis
    using decode_from_length [of "dpll_start _" buf] by (auto simp: dpll_start_def)
next
  case False
  then show ?thesis by (simp add: decode_frame_edge_track_def mult.commute)
qed

section \<open>Properties\<close>

text \<open>C17. On every nonempty sample buffer the decoder is memory safe, terminates and panics
  nowhere: no read, checked or unchecked, leaves the buffer. It answers what the reference decoder,
  a per-sample loop with one edge search a bit, decodes from the same first anchor, so the branchless
  table, the two-byte window and the bit kept pending change nothing.\<close>

theorem dpll_is_reference:
  assumes "buf \<noteq> []" and "8 * length buf < 2 ^ 32"
  shows "\<exists>anchor. first_anchor buf (8 * length buf) = Some anchor
    \<and> decode_frame_edge_track buf = Some (map_option (\<lambda>tr. decode_from buf (dpll_start tr)) anchor)"
  using assms by (rule dpll_is_reference_core)

theorem dpll_is_reference_witness:
  "\<exists>anchor. first_anchor [0x55, 0xD5] (8 * length [0x55, 0xD5 :: u8]) = Some anchor
    \<and> decode_frame_edge_track [0x55, 0xD5]
      = Some (map_option (\<lambda>tr. decode_from [0x55, 0xD5] (dpll_start tr)) anchor)"
  by (rule dpll_is_reference) simp_all

text \<open>The decoder always answers, and a decoded frame fits the 1600 bytes of its vector.\<close>

theorem dpll_frame_bounded:
  assumes "buf \<noteq> []"
  shows "\<exists>r. decode_frame_edge_track buf = Some r \<and> (\<forall>frame. r = Some frame \<longrightarrow> length frame \<le> MAX_FRAME_BYTES)"
  using assms by (rule decode_total)

theorem dpll_frame_bounded_witness:
  "\<exists>r. decode_frame_edge_track (replicate 9 0x33) = Some r
    \<and> (\<forall>frame. r = Some frame \<longrightarrow> length frame \<le> MAX_FRAME_BYTES)"
  by (rule dpll_frame_bounded) simp

text \<open>C18. Clock drift does not hurt. Take any capture of a frame whose mid-bit edges each come within one sample
  of six samples after the edge before (the halves of a bit may then last two to four samples and
  the drift add up without bound), with the preamble close enough to nominal that a fixed stride
  stays inside it. The decoder returns exactly the bytes that were sent, up to the length the IP header announces.\<close>

theorem dpll_tolerates_drift:
  assumes "frame_wave buf p a b pre dat"
    and "map fst pre = preamble_bits (Suc n)" and "2 * Suc n < 1600"
    and "locked (p + a + 4) (p + a + b) pre"
    and "map fst dat = concat (map bits_of bs)"
    and "tracked (p + a + 5 + 6 * (2 * Suc n + 1)) (p + a + b + wave_len pre) dat"
    and "frame_cap bs \<le> length bs" and "bs \<noteq> []" and "8 * length buf < 2 ^ 32"
  shows "decode_frame_edge_track buf = Some (Some (take (frame_cap bs) bs))"
  using decode_frame_wave [OF assms(1-6,8,9)] assms(7) by auto

definition sample_frame :: bytes where
  "sample_frame = replicate 12 0x5A @ [8, 0, 0x45, 0, 0, 46] @ replicate 46 0xC3"

theorem dpll_tolerates_drift_witness:
  "decode_frame_edge_track (capture (replicate 5 True @ cell_samples (True # preamble_bits (Suc 30)
      @ concat (map bits_of sample_frame)) @ replicate 20 True)) = Some (Some sample_frame)"
proof -
  let ?ws = "replicate 5 True @ cell_samples (True # preamble_bits (Suc 30)
      @ concat (map bits_of sample_frame)) @ replicate 20 True"
  have l: "length (concat (map bits_of xs)) = 8 * length xs" for xs
    by (induction xs) (simp_all add: bits_of_def)
  have "decode_frame_edge_track (capture ?ws) = Some (Some (take (frame_cap sample_frame) sample_frame))"
  proof (rule dpll_tolerates_drift [where n = 30 and dat = "exact (concat (map bits_of sample_frame))"])
    show "frame_wave (capture ?ws) 5 3 3 (exact (preamble_bits (Suc 30))) (exact (concat (map bits_of sample_frame)))"
      by (rule frame_wave_exact [OF refl]) simp
    show "locked (5 + 3 + 4) (5 + 3 + 3) (exact (preamble_bits (Suc 30)))" by (rule locked_exact) simp_all
    show "tracked (5 + 3 + 5 + 6 * (2 * Suc 30 + 1)) (5 + 3 + 3 + wave_len (exact (preamble_bits (Suc 30))))
        (exact (concat (map bits_of sample_frame)))"
      by (rule tracked_exact_first) simp
    show "frame_cap sample_frame \<le> length sample_frame" by code_simp
    show "sample_frame \<noteq> []" by (simp add: sample_frame_def)
    show "8 * length (capture ?ws) < 2 ^ 32" using l [of sample_frame] by (simp add: sample_frame_def)
  qed simp_all
  moreover have "take (frame_cap sample_frame) sample_frame = sample_frame" by code_simp
  ultimately show ?thesis by simp
qed

end
