(* ===== verification/Link.thy ===== *)
theory Link
  imports EthTx Dpll
begin

text \<open>
  Transmitter and receiver together. The words a board queues leave its state machine as half-bits; a receiver of the
  same design sees them with the polarity of the captures (a high half-bit reads as 0) and takes three
  samples of each at the nominal rate. What it decodes is the frame that was sent.
\<close>

section \<open>The samples of a frame\<close>

definition line_samples :: "u32 list \<Rightarrow> bool list" where
  "line_samples ws = concat (map (\<lambda>h. replicate 3 (h \<noteq> 2)) (concat (map half_bits ws)))"

lemma line_samples_append [simp]: "line_samples (xs @ ys) = line_samples xs @ line_samples ys"
  by (simp add: line_samples_def)

lemma length_line_samples: "length (line_samples ws) = 48 * length ws"
proof (induction ws)
  case (Cons w ws)
  have l: "length (concat (map (\<lambda>h. replicate 3 (h \<noteq> 2)) hs)) = 3 * length hs" for hs :: "nat list"
    by (induction hs) simp_all
  have "length (half_bits w) = 16" by (simp add: half_bits_def)
  then have "length (line_samples [w]) = 48" by (simp add: line_samples_def l)
  with Cons line_samples_append [of "[w]" ws] show ?case by simp
qed (simp add: line_samples_def)

lemma line_samples_bits:
  "concat (map (\<lambda>h. replicate 3 (h \<noteq> (2 :: nat))) (concat (map (\<lambda>d. if d then [1, 2] else [2, 1]) ds)))
    = cell_samples ds"
  by (induction ds) (simp_all add: cell_samples_def numeral_3_eq_3)

lemma cell_samples_append: "cell_samples (xs @ ys) = cell_samples xs @ cell_samples ys"
  by (simp add: cell_samples_def)

lemma line_samples_encode: "line_samples (encode bs) = cell_samples (concat (map bits_of bs))"
proof (induction bs)
  case Nil
  then show ?case by (simp add: line_samples_def encode_def cell_samples_def)
next
  case (Cons b bs)
  have "line_samples [MANCHESTER_TABLE ! unat b] = cell_samples (bits_of b)"
    using line_samples_bits [of "bits_of b"]
    by (simp add: line_samples_def table_halves manchester_halves_def bits_of_def comp_def)
  with Cons show ?case
    using line_samples_append [of "[MANCHESTER_TABLE ! unat b]" "encode bs"]
    by (simp add: encode_def cell_samples_append)
qed

lemma preamble_of_bytes: "concat (map bits_of (replicate 7 0x55 @ [0xD5])) = True # preamble_bits (Suc 30)"
  by code_simp

lemma line_samples_on_wire:
  "\<exists>post. line_samples (on_wire bs)
      = cell_samples (True # preamble_bits (Suc 30) @ concat (map bits_of bs)) @ post \<and> 9 \<le> length post"
proof -
  have "line_samples (on_wire bs) = cell_samples (concat (map bits_of (replicate 7 0x55 @ [0xD5])) @ concat (map bits_of bs))
      @ line_samples ([0xAAA] @ replicate 12 0)"
    by (simp only: on_wire_def line_samples_append line_samples_encode map_append concat_append
        cell_samples_append append_assoc)
  then show ?thesis
    unfolding preamble_of_bytes
    by (intro exI [of _ "line_samples ([0xAAA] @ replicate 12 0)"]) (simp add: length_line_samples)
qed

section \<open>Frames whose length the header tells\<close>

definition self_describing :: "bytes \<Rightarrow> bool" where
  "self_describing body \<longleftrightarrow> 18 \<le> length body \<and>
     (be16 (body ! 12) (body ! 13) = 0x0800 \<and> length body \<le> 1514
        \<and> max (14 + unat (be16 (body ! 16) (body ! 17))) 60 = max (length body) 60
      \<or> be16 (body ! 12) (body ! 13) = 0x0806 \<and> length body \<le> 60)"

lemma frame_bytes_nth: "i < length body \<Longrightarrow> (frame_bytes body @ rest) ! i = body ! i"
  by (simp add: frame_bytes_def Let_def nth_append)

lemma length_frame_bytes: "length (frame_bytes body) = max (length body) 60 + 4"
  by (simp add: frame_bytes_def Let_def)

lemma received_length:
  assumes "self_describing body"
    and "frame_cap (frame_bytes body) \<le> length (frame_bytes body) \<longrightarrow> rest = []"
  shows "derive_frame_len (frame_bytes body @ rest) = length (frame_bytes body)"
    and "frame_cap (frame_bytes body) \<le> length (frame_bytes body) \<longrightarrow>
      take (frame_cap (frame_bytes body)) (frame_bytes body) = frame_bytes body"
proof -
  have n: "(frame_bytes body @ r) ! 12 = body ! 12" "(frame_bytes body @ r) ! 13 = body ! 13"
    "(frame_bytes body @ r) ! 16 = body ! 16" "(frame_bytes body @ r) ! 17 = body ! 17" for r
    using assms(1) by (simp_all add: frame_bytes_nth self_describing_def)
  note n0 = n [of "[]", simplified]
  have l64: "64 \<le> length (frame_bytes body)" by (simp add: length_frame_bytes)
  consider (ip) "be16 (body ! 12) (body ! 13) = 0x0800" "length body \<le> 1514"
      "max (14 + unat (be16 (body ! 16) (body ! 17))) 60 = max (length body) 60"
    | (arp) "be16 (body ! 12) (body ! 13) = 0x0806" "length body \<le> 60"
    using assms(1) by (auto simp: self_describing_def)
  then have "derive_frame_len (frame_bytes body @ rest) = length (frame_bytes body)
    \<and> (frame_cap (frame_bytes body) \<le> length (frame_bytes body) \<longrightarrow>
      take (frame_cap (frame_bytes body)) (frame_bytes body) = frame_bytes body)"
  proof cases
    case ip
    have m: "max (14 + unat (be16 (body ! 16) (body ! 17)) + 4) 64 = length (frame_bytes body)"
      using ip(3) by (simp add: length_frame_bytes max_def split: if_splits)
    have "derive_frame_len (frame_bytes body @ rest) = length (frame_bytes body)"
      unfolding derive_frame_len_def n Let_def ip(1) m using l64 by simp
    moreover have "frame_cap (frame_bytes body) = length (frame_bytes body)"
      unfolding frame_cap_def n0 ip(1) m using ip(2) length_frame_bytes [of body] by (simp add: MAX_FRAME_BYTES_def)
    ultimately show ?thesis by simp
  next
    case arp
    have "(0x0806 :: u16) \<noteq> 0x0800" by simp
    then have "frame_cap (frame_bytes body) = 1600" unfolding frame_cap_def n0 arp(1) by (simp add: MAX_FRAME_BYTES_def)
    moreover have l: "length (frame_bytes body) = 64" using arp(2) by (simp add: length_frame_bytes)
    moreover have "derive_frame_len (frame_bytes body @ rest) = length (frame_bytes body)"
      unfolding derive_frame_len_def n Let_def arp(1) using l by simp
    ultimately show ?thesis by simp
  qed
  then show "derive_frame_len (frame_bytes body @ rest) = length (frame_bytes body)"
    and "frame_cap (frame_bytes body) \<le> length (frame_bytes body) \<longrightarrow>
      take (frame_cap (frame_bytes body)) (frame_bytes body) = frame_bytes body" by simp_all
qed

section \<open>Properties\<close>

text \<open>From board to board: the words that \<open>send_raw_frame\<close> queues for an IPv4 or ARP frame, put on the line after any idle
  time and sampled at the nominal rate, are decoded by the receiver to the frame sent. The length it
  derives is the length sent, its frame check passes, and the bytes up to there are the body, zero
  padding and check sequence.\<close>

theorem link_round_trip:
  assumes "drains hw" and "self_describing body" and "p < 2 ^ 31"
  shows "\<exists>tx' fr. send_raw_frame hw tx body = Some tx'
    \<and> decode_frame_edge_track
        (capture (replicate p True @ line_samples (drop (length (sent tx)) (sent tx')))) = Some (Some fr)
    \<and> derive_frame_len fr = max (length body) 60 + 4
    \<and> verify_fcs fr (derive_frame_len fr)
    \<and> take (derive_frame_len fr) fr = frame_bytes body"
proof -
  let ?bs = "frame_bytes body"
  obtain t l where s: "send_raw_frame hw tx body = Some (tx\<lparr>clock := t, lfsr := l, sent := sent tx @ on_wire ?bs\<rparr>)"
    using send_raw_frame_ok [OF assms(1)] by blast
  obtain post where w: "line_samples (on_wire ?bs) = cell_samples (True # preamble_bits (Suc 30) @ concat (map bits_of ?bs)) @ post"
    "9 \<le> length post" using line_samples_on_wire [of ?bs] by blast
  define ws where "ws = replicate p True @ line_samples (on_wire ?bs)"
  have "length body \<le> 1514" using assms(2) by (auto simp: self_describing_def)
  then have "length ?bs \<le> 1518" by (simp add: length_frame_bytes)
  then have "length ws < 2 ^ 32"
    using assms(3) by (simp add: ws_def length_line_samples on_wire_def encode_def)
  moreover have "?bs \<noteq> []" using length_frame_bytes [of body] by auto
  ultimately obtain rest where r: "decode_frame_edge_track (capture ws) = Some (Some (take (frame_cap ?bs) ?bs @ rest))"
    "frame_cap ?bs \<le> length ?bs \<longrightarrow> rest = []"
    using decode_capture [of ws p True 30 ?bs post] w by (auto simp: ws_def)
  have take: "take (frame_cap ?bs) ?bs = ?bs"
    using received_length(2) [OF assms(2) r(2)] by (cases "frame_cap ?bs \<le> length ?bs") simp_all
  have d: "derive_frame_len (?bs @ rest) = max (length body) 60 + 4"
    using received_length(1) [OF assms(2) r(2)] by (simp add: length_frame_bytes)
  have "verify_fcs (?bs @ rest) (max (length body) 60 + 4)" by (rule verify_frame_bytes)
  then show ?thesis
    using s r(1) d length_frame_bytes [of body]
    by (intro exI [of _ "tx\<lparr>clock := t, lfsr := l, sent := sent tx @ on_wire ?bs\<rparr>"] exI [of _ "?bs @ rest"])
      (simp add: ws_def take)
qed

theorem link_round_trip_witness:
  "\<exists>tx' fr. send_raw_frame idle_line (tx_new 0) (replicate 12 1 @ [8, 6] @ replicate 28 9) = Some tx'
    \<and> decode_frame_edge_track (capture (replicate 100 True
        @ line_samples (drop (length (sent (tx_new 0))) (sent tx')))) = Some (Some fr)
    \<and> derive_frame_len fr = max (length (replicate 12 1 @ [8, 6] @ replicate 28 (9 :: u8))) 60 + 4
    \<and> verify_fcs fr (derive_frame_len fr)
    \<and> take (derive_frame_len fr) fr = frame_bytes (replicate 12 1 @ [8, 6] @ replicate 28 9)"
proof (rule link_round_trip [OF drains_idle_line])
  show "self_describing (replicate 12 1 @ [8, 6] @ replicate 28 9)" by code_simp
qed simp

end
