(* ===== verification/Fmt.thy ===== *)
theory Fmt
  imports Prelude
begin

text \<open>
  The part of \<^verbatim>\<open>core::fmt\<close> and \<^verbatim>\<open>heapless::String\<close> that the status output uses. A format string with its arguments is
  a list of \<open>arg\<close>; \<open>render\<close> gives the strings its \<^verbatim>\<open>Display\<close> code writes one after the other. A \<^verbatim>\<open>heapless::String\<close>
  takes a string whole or not at all, and a \<^verbatim>\<open>write!\<close> stops at the first one it cannot take: the code
  ignores that error, so a text that does not fit is cut. \<open>width\<close> bounds what an argument can need; the
  lemma \<open>write_fmt_fits\<close> turns a sum of widths into the statement that nothing is cut, whatever the values.
\<close>

section \<open>Numbers\<close>

definition digit :: "nat \<Rightarrow> char" where
  "digit d = (if d < 10 then char_of (48 + d) else char_of (87 + d))"

fun dec :: "nat \<Rightarrow> string" where
  "dec n = (if n < 10 then [digit n] else dec (n div 10) @ [digit (n mod 10)])"

fun hex :: "nat \<Rightarrow> string" where
  "hex n = (if n < 16 then [digit n] else hex (n div 16) @ [digit (n mod 16)])"

declare dec.simps [simp del] hex.simps [simp del]

text \<open>\<^verbatim>\<open>{:0kx}\<close> writes its zeros one by one, then the digits.\<close>

definition pad0 :: "nat \<Rightarrow> string \<Rightarrow> string list" where
  "pad0 k s = replicate (k - length s) ''0'' @ [s]"

lemma length_dec: "n < 10 ^ k \<Longrightarrow> 0 < k \<Longrightarrow> length (dec n) \<le> k"
proof (induction n arbitrary: k rule: dec.induct)
  case (1 n)
  show ?case
  proof (cases "n < 10")
    case True
    then show ?thesis using 1(3) by (simp add: dec.simps [of n])
  next
    case False
    with 1(2,3) obtain j where j: "k = Suc j" "0 < j"
      by (metis gr0_implies_Suc gr0I power_one_right One_nat_def)
    then have "n div 10 < 10 ^ j" using 1(2) by (simp add: less_mult_imp_div_less mult.commute)
    from 1(1) [OF False this j(2)] False j show ?thesis by (simp add: dec.simps [of n])
  qed
qed

lemma length_hex: "n < 16 ^ k \<Longrightarrow> 0 < k \<Longrightarrow> length (hex n) \<le> k"
proof (induction n arbitrary: k rule: hex.induct)
  case (1 n)
  show ?case
  proof (cases "n < 16")
    case True
    then show ?thesis using 1(3) by (simp add: hex.simps [of n])
  next
    case False
    with 1(2,3) obtain j where j: "k = Suc j" "0 < j"
      by (metis gr0_implies_Suc gr0I power_one_right One_nat_def)
    then have "n div 16 < 16 ^ j" using 1(2) by (simp add: less_mult_imp_div_less mult.commute)
    from 1(1) [OF False this j(2)] False j show ?thesis by (simp add: hex.simps [of n])
  qed
qed

text \<open>Reading a decimal back.\<close>

definition undec :: "string \<Rightarrow> nat" where
  "undec = foldl (\<lambda>v c. 10 * v + (of_char c - 48)) 0"

lemma of_char_digit: "d < 10 \<Longrightarrow> of_char (digit d) = (48 + d :: nat)"
  by (simp add: digit_def)

lemma undec_dec [simp]: "undec (dec n) = n"
proof (induction n rule: dec.induct)
  case (1 n)
  show ?case
  proof (cases "n < 10")
    case True
    then show ?thesis by (simp add: dec.simps [of n] undec_def of_char_digit)
  next
    case False
    with 1 have "undec (dec (n div 10)) = n div 10" by blast
    with False show ?thesis by (simp add: dec.simps [of n] undec_def of_char_digit)
  qed
qed

section \<open>Format arguments\<close>

datatype arg = Lit string | Str string | D8 u8 | D16 u16 | D32 u32 | D64 u64 | X02 u8 | X04 u16 | Ip ipv4

fun render :: "arg \<Rightarrow> string list" where
  "render (Lit s) = [s]"
| "render (Str s) = [s]"
| "render (D8 w) = [dec (unat w)]"
| "render (D16 w) = [dec (unat w)]"
| "render (D32 w) = [dec (unat w)]"
| "render (D64 w) = [dec (unat w)]"
| "render (X02 w) = pad0 2 (hex (unat w))"
| "render (X04 w) = pad0 4 (hex (unat w))"
| "render (Ip (Ipv4 a b c d)) =
     [dec (unat a), ''.'', dec (unat b), ''.'', dec (unat c), ''.'', dec (unat d)]"

text \<open>What an argument needs at most, whatever its value.\<close>

fun width :: "arg \<Rightarrow> nat" where
  "width (Lit s) = length s"
| "width (Str s) = length s"
| "width (D8 w) = 3"
| "width (D16 w) = 5"
| "width (D32 w) = 10"
| "width (D64 w) = 20"
| "width (X02 w) = 2"
| "width (X04 w) = 4"
| "width (Ip a) = 15"

definition text_of :: "arg list \<Rightarrow> string" where
  "text_of args = concat (concat (map render args))"

section \<open>Bounded strings\<close>

definition push_str :: "nat \<Rightarrow> string \<Rightarrow> string \<Rightarrow> string option" where
  "push_str cap buf s = (if length buf + length s \<le> cap then Some (buf @ s) else None)"

fun push_all :: "nat \<Rightarrow> string list \<Rightarrow> string \<Rightarrow> string" where
  "push_all cap [] buf = buf"
| "push_all cap (s # ss) buf = (case push_str cap buf s of None \<Rightarrow> buf | Some buf \<Rightarrow> push_all cap ss buf)"

text \<open>\<^verbatim>\<open>let _ = write!(buf, ...)\<close> on a \<^verbatim>\<open>String<cap>\<close>.\<close>

definition write_fmt :: "nat \<Rightarrow> arg list \<Rightarrow> string \<Rightarrow> string" where
  "write_fmt cap args buf = push_all cap (concat (map render args)) buf"

lemma push_all_fits: "length buf + length (concat ss) \<le> cap \<Longrightarrow> push_all cap ss buf = buf @ concat ss"
  by (induction ss arbitrary: buf) (simp_all add: push_str_def)

lemma push_all_le: "length buf \<le> cap \<Longrightarrow> length (push_all cap ss buf) \<le> cap"
  by (induction ss arbitrary: buf) (simp_all add: push_str_def)

lemma write_fmt_le: "length buf \<le> cap \<Longrightarrow> length (write_fmt cap args buf) \<le> cap"
  by (simp add: write_fmt_def push_all_le)

lemma length_pad0: "length (concat (pad0 k s)) = max k (length s)"
proof -
  have "length (concat (replicate n ''0'')) = n" for n by (induction n) simp_all
  then show ?thesis by (simp add: pad0_def)
qed

lemma length_render: "length (concat (render a)) \<le> width a"
proof (cases a)
  case (D8 w)
  then show ?thesis using length_dec [of "unat w" 3] unat_u8_lt [of w] by simp
next
  case (D16 w)
  then show ?thesis using length_dec [of "unat w" 5] unat_u16_lt [of w] by simp
next
  case (D32 w)
  then show ?thesis using length_dec [of "unat w" 10] unat_u32_lt [of w] by simp
next
  case (D64 w)
  then show ?thesis using length_dec [of "unat w" 20] unat_lt_of_len [of w] by simp
next
  case (X02 w)
  then show ?thesis using length_hex [of "unat w" 2] unat_u8_lt [of w] by (simp add: length_pad0)
next
  case (X04 w)
  then show ?thesis using length_hex [of "unat w" 4] unat_u16_lt [of w] by (simp add: length_pad0)
next
  case (Ip ip)
  have "length (dec (unat b)) \<le> 3" for b :: u8 using length_dec [of "unat b" 3] unat_u8_lt [of b] by simp
  from add_mono [OF add_mono [OF this this] add_mono [OF this this]]
  have "length (dec (unat a)) + length (dec (unat b)) + (length (dec (unat c)) + length (dec (unat d))) \<le> 12"
    for a b c d :: u8 by simp
  with Ip show ?thesis by (cases ip) (simp add: add.assoc)
qed simp_all

lemma length_text_of: "length (text_of args) \<le> sum_list (map width args)"
proof (induction args)
  case (Cons a args)
  then show ?case using length_render [of a] by (simp add: text_of_def)
qed (simp add: text_of_def)

lemma write_fmt_whole: "length buf + length (text_of args) \<le> cap \<Longrightarrow> write_fmt cap args buf = buf @ text_of args"
  by (simp add: write_fmt_def text_of_def push_all_fits)

lemma write_fmt_fits:
  assumes "sum_list (map width pre) + sum_list (map width args) \<le> cap"
  shows "write_fmt cap args (text_of pre) = text_of (pre @ args)"
proof -
  have "length (text_of pre) + length (text_of args) \<le> cap"
    using assms length_text_of [of pre] length_text_of [of args] by linarith
  then show ?thesis by (simp add: write_fmt_whole) (simp add: text_of_def)
qed

lemma write_fmt_fits_empty: "sum_list (map width args) \<le> cap \<Longrightarrow> write_fmt cap args [] = text_of args"
  using write_fmt_fits [of "[]" args cap] by (simp add: text_of_def)

text \<open>Several \<^verbatim>\<open>write!\<close>s one after the other.\<close>

lemma write_fmt_seq:
  "sum_list (map width (pre @ concat argss)) \<le> cap \<Longrightarrow>
     fold (write_fmt cap) argss (text_of pre) = text_of (pre @ concat argss)"
proof (induction argss arbitrary: pre)
  case (Cons args argss)
  then have "write_fmt cap args (text_of pre) = text_of (pre @ args)" by (intro write_fmt_fits) simp
  with Cons.IH [of "pre @ args"] Cons.prems show ?case by simp
qed simp

lemma text_of_simps [simp]:
  "text_of [] = []" "text_of (a # args) = concat (render a) @ text_of args" "text_of (args @ more) = text_of args @ text_of more"
  by (simp_all add: text_of_def)

definition CRLF :: string where "CRLF = [CHR 0x0D, CHR 0x0A]"
definition NL :: string where "NL = [CHR 0x0A]"

lemma length_newlines [simp]: "length CRLF = 2" "length NL = 1"
  by (simp_all add: CRLF_def NL_def)

section \<open>\<^verbatim>\<open>mac_str\<close>\<close>

definition mac_str :: "mac \<Rightarrow> string" where
  "mac_str m = write_fmt 17 [X02 (m ! 0), Lit '':'', X02 (m ! 1), Lit '':'', X02 (m ! 2), Lit '':'',
     X02 (m ! 3), Lit '':'', X02 (m ! 4), Lit '':'', X02 (m ! 5)] []"

lemma length_mac_str: "length (mac_str m) \<le> 17"
  by (simp add: mac_str_def write_fmt_le)

end
