(* ===== verification/Wan.thy ===== *)
theory Wan
  imports Prelude
begin

text \<open>
  The WAN client of \<^verbatim>\<open>src/wan.rs\<close>: it applies DHCP leases to the interface, pings an off-link host and resolves a name.
  smoltcp's \<^verbatim>\<open>Interface\<close> and \<^verbatim>\<open>SocketSet\<close> are one state of any type \<open>'w\<close>, and the record \<open>wan_net\<close> holds the calls
  the client makes on them, with \<open>'c\<close> for \<^verbatim>\<open>Ipv4Cidr\<close> and \<open>'h\<close> for \<^verbatim>\<open>dns::QueryHandle\<close>. What the client relies on is
  \<open>wan_laws\<close>: setters set, other calls leave the configuration alone, and every \<^verbatim>\<open>recv\<close> takes a packet
  off the queue.
\<close>

section \<open>State\<close>

definition PING_TARGET :: ipv4 where "PING_TARGET = Ipv4 8 8 8 8"
definition DNS_NAME :: string where "DNS_NAME = ''example.com''"
definition ICMP_IDENT :: u16 where "ICMP_IDENT = 0x42"

record ('c, 'h) wan_state =
  addr :: "'c option"
  gw :: "ipv4 option"
  dns0 :: "ipv4 option"
  ping_seq :: u16
  ping_sent :: u32
  ping_ok :: u32
  dns_query :: "'h option"
  resolved :: "ipv4 option"

definition wan_new :: "('c, 'h) wan_state" where
  "wan_new = \<lparr>addr = None, gw = None, dns0 = None, ping_seq = 0, ping_sent = 0, ping_ok = 0,
     dns_query = None, resolved = None\<rparr>"

section \<open>Parameters\<close>

record 'c lease_config =
  lc_address :: 'c
  lc_router :: "ipv4 option"
  lc_dns_servers :: "ipv4 list"

datatype 'c lease_event = Deconfigured | Configured "'c lease_config"

text \<open>\<^verbatim>\<open>Icmpv4Repr\<close>, as far as it is used: identifier, sequence number and data of the echoes.\<close>

datatype icmp_repr = EchoRequest u16 u16 bytes | EchoReply u16 u16 bytes | OtherIcmp

datatype query_result = Resolved "ipv4 list" | Pending | Failed

record ('c, 'h, 'w) wan_net =
  poll_lease :: "'w \<Rightarrow> 'c lease_event option \<times> 'w"
  update_ip_addrs :: "('c list \<Rightarrow> 'c list) \<Rightarrow> 'w \<Rightarrow> 'w"
  remove_default_route :: "'w \<Rightarrow> 'w"
  add_default_route :: "ipv4 \<Rightarrow> 'w \<Rightarrow> 'w"
  update_servers :: "ipv4 list \<Rightarrow> 'w \<Rightarrow> 'w"
  icmp_is_open :: "'w \<Rightarrow> bool"
  icmp_bind :: "u16 \<Rightarrow> 'w \<Rightarrow> 'w option"
  icmp_can_send :: "'w \<Rightarrow> bool"
  icmp_send :: "nat \<Rightarrow> ipv4 \<Rightarrow> (bytes \<Rightarrow> bytes) \<Rightarrow> 'w \<Rightarrow> 'w option"
  icmp_can_recv :: "'w \<Rightarrow> bool"
  icmp_recv :: "'w \<Rightarrow> bytes option \<times> 'w"
  icmp_buffer_len :: "icmp_repr \<Rightarrow> nat"
  icmp_emit :: "icmp_repr \<Rightarrow> bytes \<Rightarrow> bytes"
  icmp_checked :: "bytes \<Rightarrow> bool"
  icmp_parse :: "bytes \<Rightarrow> icmp_repr option"
  start_query :: "string \<Rightarrow> 'w \<Rightarrow> 'h option \<times> 'w"
  get_query_result :: "'h \<Rightarrow> 'w \<Rightarrow> query_result \<times> 'w"

section \<open>Operations\<close>

text \<open>\<^verbatim>\<open>heapless::Vec<_, 4>\<close>: a push past the capacity fails and the error is ignored.\<close>

definition dhcp_apply :: "('c, 'h, 'w) wan_net \<Rightarrow> 'w \<Rightarrow> ('c, 'h) wan_state \<Rightarrow> 'w \<times> ('c, 'h) wan_state" where
  "dhcp_apply N w wan =
     (case poll_lease N w of
        (None, w) \<Rightarrow> (w, wan)
      | (Some Deconfigured, w) \<Rightarrow>
          (let w = update_ip_addrs N (\<lambda>a. []) w;
               w = remove_default_route N w;
               w = update_servers N [] w
           in (w, wan_new))
      | (Some (Configured c), w) \<Rightarrow>
          (let servers = take 4 (lc_dns_servers c);
               w = update_ip_addrs N (\<lambda>a. [] @ [lc_address c]) w;
               w = remove_default_route N w;
               w = (case lc_router c of Some g \<Rightarrow> add_default_route N g w | None \<Rightarrow> w);
               w = update_servers N servers w
           in (w, wan\<lparr>addr := Some (lc_address c), gw := lc_router c,
                dns0 := (case lc_dns_servers c of [] \<Rightarrow> None | s # _ \<Rightarrow> Some s), dns_query := None\<rparr>)))"

text \<open>\<^verbatim>\<open>b"pico-wan"\<close>.\<close>

definition ping_data :: bytes where
  "ping_data = [0x70, 0x69, 0x63, 0x6F, 0x2D, 0x77, 0x61, 0x6E]"

definition ping_send :: "('c, 'h, 'w) wan_net \<Rightarrow> 'w \<Rightarrow> ('c, 'h) wan_state \<Rightarrow> 'w \<times> ('c, 'h) wan_state" where
  "ping_send N w wan =
     (case (if icmp_is_open N w then Some w else icmp_bind N ICMP_IDENT w) of
        None \<Rightarrow> (w, wan)
      | Some w \<Rightarrow>
          if \<not> icmp_can_send N w then (w, wan)
          else
            (let repr = EchoRequest ICMP_IDENT (ping_seq wan) ping_data
             in case icmp_send N (icmp_buffer_len N repr) PING_TARGET (icmp_emit N repr) w of
                  None \<Rightarrow> (w, wan)
                | Some w \<Rightarrow> (w, wan\<lparr>ping_seq := ping_seq wan + 1, ping_sent := ping_sent wan + 1\<rparr>)))"

text \<open>What the loop of \<^verbatim>\<open>ping_drain\<close> does with one packet.\<close>

definition count_reply :: "('c, 'h, 'w) wan_net \<Rightarrow> bytes \<Rightarrow> ('c, 'h) wan_state \<Rightarrow> ('c, 'h) wan_state" where
  "count_reply N payload wan =
     (if \<not> icmp_checked N payload then wan
      else case icmp_parse N payload of
        Some (EchoReply ident _ _) \<Rightarrow> if ident = ICMP_IDENT then wan\<lparr>ping_ok := ping_ok wan + 1\<rparr> else wan
      | _ \<Rightarrow> wan)"

text \<open>\<^const>\<open>None\<close> if the loop never ends.\<close>

partial_function (option) ping_drain ::
  "('c, 'h, 'w) wan_net \<Rightarrow> 'w \<Rightarrow> ('c, 'h) wan_state \<Rightarrow> ('w \<times> ('c, 'h) wan_state) option" where
  "ping_drain N w wan =
     (if icmp_can_recv N w then
        (case icmp_recv N w of
           (None, w) \<Rightarrow> Some (w, wan)
         | (Some payload, w) \<Rightarrow> ping_drain N w (count_reply N payload wan))
      else Some (w, wan))"

definition dns_start :: "('c, 'h, 'w) wan_net \<Rightarrow> 'w \<Rightarrow> ('c, 'h) wan_state \<Rightarrow> 'w \<times> ('c, 'h) wan_state" where
  "dns_start N w wan =
     (if dns_query wan \<noteq> None \<or> dns0 wan = None then (w, wan)
      else case start_query N DNS_NAME w of
        (Some h, w) \<Rightarrow> (w, wan\<lparr>dns_query := Some h\<rparr>)
      | (None, w) \<Rightarrow> (w, wan))"

definition dns_harvest :: "('c, 'h, 'w) wan_net \<Rightarrow> 'w \<Rightarrow> ('c, 'h) wan_state \<Rightarrow> 'w \<times> ('c, 'h) wan_state" where
  "dns_harvest N w wan =
     (case dns_query wan of
        None \<Rightarrow> (w, wan)
      | Some h \<Rightarrow>
          (case get_query_result N h w of
             (Resolved addrs, w) \<Rightarrow>
               (w, wan\<lparr>dns_query := None, resolved := (case addrs of [] \<Rightarrow> None | a # _ \<Rightarrow> Some a)\<rparr>)
           | (Pending, w) \<Rightarrow> (w, wan)
           | (Failed, w) \<Rightarrow> (w, wan\<lparr>dns_query := None\<rparr>)))"

section \<open>What the client relies on\<close>

text \<open>\<open>cf\<close> reads the configuration of the interface: its addresses, its default route and the resolver's servers.
  \<open>pending\<close> counts the packets waiting in the ICMP socket.\<close>

type_synonym 'c config = "'c list \<times> ipv4 option \<times> ipv4 list"

definition wan_laws :: "('c, 'h, 'w) wan_net \<Rightarrow> ('w \<Rightarrow> 'c config) \<Rightarrow> ('w \<Rightarrow> nat) \<Rightarrow> bool" where
  "wan_laws N cf pending \<longleftrightarrow>
     (\<forall>w f. cf (update_ip_addrs N f w) = (case cf w of (a, r, s) \<Rightarrow> (f a, r, s)))
   \<and> (\<forall>w. cf (remove_default_route N w) = (case cf w of (a, r, s) \<Rightarrow> (a, None, s)))
   \<and> (\<forall>w g. cf (add_default_route N g w) = (case cf w of (a, r, s) \<Rightarrow> (a, Some g, s)))
   \<and> (\<forall>w ss. cf (update_servers N ss w) = (case cf w of (a, r, s) \<Rightarrow> (a, r, ss)))
   \<and> (\<forall>w. cf (snd (poll_lease N w)) = cf w)
   \<and> (\<forall>w i w'. icmp_bind N i w = Some w' \<longrightarrow> cf w' = cf w)
   \<and> (\<forall>w n d e w'. icmp_send N n d e w = Some w' \<longrightarrow> cf w' = cf w)
   \<and> (\<forall>w. cf (snd (icmp_recv N w)) = cf w)
   \<and> (\<forall>w. icmp_can_recv N w \<longrightarrow> pending (snd (icmp_recv N w)) < pending w)
   \<and> (\<forall>w n. cf (snd (start_query N n w)) = cf w)
   \<and> (\<forall>w h. cf (snd (get_query_result N h w)) = cf w)"

lemma wan_laws_simps:
  assumes "wan_laws N cf pending"
  shows "cf (update_ip_addrs N f w) = (f (fst (cf w)), snd (cf w))"
    "cf (remove_default_route N w) = (fst (cf w), None, snd (snd (cf w)))"
    "cf (add_default_route N g w) = (fst (cf w), Some g, snd (snd (cf w)))"
    "cf (update_servers N ss w) = (fst (cf w), fst (snd (cf w)), ss)"
    "poll_lease N w = (ev, w1) \<Longrightarrow> cf w1 = cf w"
    "icmp_bind N i w = Some w1 \<Longrightarrow> cf w1 = cf w"
    "icmp_send N n d e w = Some w1 \<Longrightarrow> cf w1 = cf w"
    "icmp_recv N w = (p, w1) \<Longrightarrow> cf w1 = cf w"
    "icmp_can_recv N w \<Longrightarrow> icmp_recv N w = (p, w1) \<Longrightarrow> pending w1 < pending w"
    "start_query N nm w = (q, w1) \<Longrightarrow> cf w1 = cf w"
    "get_query_result N h w = (qr, w1) \<Longrightarrow> cf w1 = cf w"
  using assms unfolding wan_laws_def by (simp_all add: case_prod_unfold) (metis snd_conv)+

section \<open>Invariant\<close>

text \<open>The client's state mirrors the configuration it installed; the sequence number of the pings counts
  them; a query is in flight only while a server is known.\<close>

definition first_server :: "ipv4 list \<Rightarrow> ipv4 option" where
  "first_server ss = (case ss of [] \<Rightarrow> None | s # _ \<Rightarrow> Some s)"

definition synced :: "'c config \<Rightarrow> ('c, 'h) wan_state \<Rightarrow> bool" where
  "synced c wan \<longleftrightarrow> (case c of (addrs, route, servers) \<Rightarrow>
     addrs = (case addr wan of None \<Rightarrow> [] | Some a \<Rightarrow> [a]) \<and> route = gw wan
     \<and> dns0 wan = first_server servers \<and> length servers \<le> 4)
   \<and> ping_seq wan = ucast (ping_sent wan)
   \<and> (addr wan = None \<longrightarrow> gw wan = None \<and> dns0 wan = None)
   \<and> (dns0 wan = None \<longrightarrow> dns_query wan = None)"

lemma synced_new: "synced ([], None, []) wan_new"
  by (simp add: synced_def wan_new_def first_server_def)

lemma first_server_take: "first_server (take 4 ss) = first_server ss"
  by (cases ss) (simp_all add: first_server_def)

lemma dhcp_apply_Configured:
  assumes laws: "wan_laws N cf pending" and ev: "poll_lease N w = (Some (Configured c), w1)"
    and app: "dhcp_apply N w wan = (w', wan')"
  shows "cf w' = ([lc_address c], lc_router c, take 4 (lc_dns_servers c))"
    and "wan' = wan\<lparr>addr := Some (lc_address c), gw := lc_router c, dns0 := first_server (lc_dns_servers c),
      dns_query := None\<rparr>"
  using app by (auto simp: dhcp_apply_def ev Let_def wan_laws_simps [OF laws] first_server_def split: option.splits)

lemma dhcp_apply_Deconfigured:
  assumes laws: "wan_laws N cf pending" and ev: "poll_lease N w = (Some Deconfigured, w1)"
    and app: "dhcp_apply N w wan = (w', wan')"
  shows "cf w' = ([], None, [])" and "wan' = wan_new"
  using app by (auto simp: dhcp_apply_def ev Let_def wan_laws_simps [OF laws])

lemma dhcp_apply_None:
  assumes laws: "wan_laws N cf pending" and ev: "poll_lease N w = (None, w1)"
    and app: "dhcp_apply N w wan = (w', wan')"
  shows "cf w' = cf w" and "wan' = wan"
  using app wan_laws_simps(5) [OF laws ev] by (auto simp: dhcp_apply_def ev)

lemma synced_apply:
  assumes laws: "wan_laws N cf pending" and syn: "synced (cf w) wan"
    and app: "dhcp_apply N w wan = (w', wan')"
  shows "synced (cf w') wan'"
proof -
  obtain ev w1 where ev: "poll_lease N w = (ev, w1)" by force
  show ?thesis
  proof (cases ev)
    case None
    with dhcp_apply_None [OF laws _ app] ev syn show ?thesis by simp
  next
    case (Some e)
    show ?thesis
    proof (cases e)
      case Deconfigured
      with dhcp_apply_Deconfigured [OF laws _ app] ev Some synced_new show ?thesis by metis
    next
      case (Configured c)
      with dhcp_apply_Configured [OF laws _ app] ev Some syn show ?thesis
        by (simp add: synced_def first_server_take case_prod_unfold)
    qed
  qed
qed

lemma ucast16_suc: "(ucast (s + 1) :: u16) = ucast s + 1" for s :: u32
proof -
  have "unat (ucast (s + 1) :: u16) = (unat s + 1) mod 2 ^ 32 mod 2 ^ 16"
    by (simp add: unsigned_ucast_eq take_bit_eq_mod unat_word_ariths)
  also have "\<dots> = (unat s + 1) mod 2 ^ 16"
    by (rule mod_mod_cancel) simp
  also have "\<dots> = unat (ucast s + 1 :: u16)"
    by (simp add: unsigned_ucast_eq take_bit_eq_mod unat_word_ariths mod_simps)
  finally show ?thesis by (simp only: word_unat_eq_iff)
qed

lemma synced_ping_send:
  assumes laws: "wan_laws N cf pending" and syn: "synced (cf w) wan"
    and snd: "ping_send N w wan = (w', wan')"
  shows "synced (cf w') wan' \<and> addr wan' = addr wan \<and> dns0 wan' = dns0 wan"
proof -
  have "cf w' = cf w"
    using snd by (auto simp: ping_send_def Let_def dest!: wan_laws_simps(6,7) [OF laws] split: if_splits option.splits)
  moreover have "wan' = wan \<or> wan' = wan\<lparr>ping_seq := ping_seq wan + 1, ping_sent := ping_sent wan + 1\<rparr>"
    using snd by (auto simp: ping_send_def Let_def split: if_splits option.splits)
  ultimately show ?thesis using syn by (auto simp: synced_def ucast16_suc)
qed

lemma count_reply_cases:
  "count_reply N p wan = wan \<or> count_reply N p wan = wan\<lparr>ping_ok := ping_ok wan + 1\<rparr>"
  by (auto simp: count_reply_def split: option.split icmp_repr.split)

text \<open>Every round takes a packet off the queue, so the loop ends; it changes nothing but \<^verbatim>\<open>ping_ok\<close>.\<close>

lemma ping_drain_ok:
  assumes laws: "wan_laws N cf pending"
  shows "\<exists>w' n. ping_drain N w wan = Some (w', wan\<lparr>ping_ok := n\<rparr>) \<and> cf w' = cf w"
proof (induction "pending w" arbitrary: w wan rule: less_induct)
  case less
  show ?case
  proof (cases "icmp_can_recv N w")
    case False
    then have "ping_drain N w wan = Some (w, wan\<lparr>ping_ok := ping_ok wan\<rparr>)"
      by (simp add: ping_drain.simps)
    then show ?thesis by blast
  next
    case True
    obtain p w1 where r: "icmp_recv N w = (p, w1)" by force
    note keep = wan_laws_simps(8) [OF laws r] and dec = wan_laws_simps(9) [OF laws True r]
    show ?thesis
    proof (cases p)
      case None
      then have "ping_drain N w wan = Some (w1, wan\<lparr>ping_ok := ping_ok wan\<rparr>)"
        using True r by (simp add: ping_drain.simps)
      with keep show ?thesis by blast
    next
      case (Some payload)
      obtain n where n: "count_reply N payload wan = wan\<lparr>ping_ok := n\<rparr>"
        using count_reply_cases [of N payload wan] wan_state.surjective by (cases wan) auto
      from less [OF dec, of "count_reply N payload wan"] obtain w' k where
        "ping_drain N w1 (count_reply N payload wan) = Some (w', (count_reply N payload wan)\<lparr>ping_ok := k\<rparr>)"
        "cf w' = cf w1" by blast
      then have "ping_drain N w wan = Some (w', wan\<lparr>ping_ok := k\<rparr>) \<and> cf w' = cf w"
        using True r Some n keep by (simp add: ping_drain.simps [of N w])
      then show ?thesis by blast
    qed
  qed
qed

lemma synced_ping_ok [simp]: "synced c (wan\<lparr>ping_ok := n\<rparr>) = synced c wan"
  by (simp add: synced_def)

lemma synced_dns_start:
  assumes laws: "wan_laws N cf pending" and syn: "synced (cf w) wan"
    and st: "dns_start N w wan = (w', wan')"
  shows "synced (cf w') wan'"
  using st syn
  by (auto simp: dns_start_def synced_def dest!: wan_laws_simps(10) [OF laws] split: if_splits option.splits prod.splits)

lemma synced_dns_harvest:
  assumes laws: "wan_laws N cf pending" and syn: "synced (cf w) wan"
    and st: "dns_harvest N w wan = (w', wan')"
  shows "synced (cf w') wan'"
  using st syn
  by (auto simp: dns_harvest_def synced_def dest!: wan_laws_simps(11) [OF laws]
      split: option.splits prod.splits query_result.splits) metis

text \<open>The states the client can be in, whatever the order of its calls and whatever smoltcp's own poll does to
  the sockets in between.\<close>

inductive wan_reach :: "('c, 'h, 'w) wan_net \<Rightarrow> ('w \<Rightarrow> 'c config) \<Rightarrow> 'w \<Rightarrow> ('c, 'h) wan_state \<Rightarrow> bool"
  for N cf where
  start: "cf w = ([], None, []) \<Longrightarrow> wan_reach N cf w wan_new"
| iface_poll: "wan_reach N cf w wan \<Longrightarrow> cf w' = cf w \<Longrightarrow> wan_reach N cf w' wan"
| lease: "wan_reach N cf w wan \<Longrightarrow> dhcp_apply N w wan = (w', wan') \<Longrightarrow> wan_reach N cf w' wan'"
| send: "wan_reach N cf w wan \<Longrightarrow> ping_send N w wan = (w', wan') \<Longrightarrow> wan_reach N cf w' wan'"
| drain: "wan_reach N cf w wan \<Longrightarrow> ping_drain N w wan = Some (w', wan') \<Longrightarrow> wan_reach N cf w' wan'"
| query: "wan_reach N cf w wan \<Longrightarrow> dns_start N w wan = (w', wan') \<Longrightarrow> wan_reach N cf w' wan'"
| harvest: "wan_reach N cf w wan \<Longrightarrow> dns_harvest N w wan = (w', wan') \<Longrightarrow> wan_reach N cf w' wan'"

lemma wan_reach_synced:
  assumes "wan_reach N cf w wan" and laws: "wan_laws N cf pending"
  shows "synced (cf w) wan"
  using assms(1)
proof induction
  case (start w)
  then show ?case using synced_new by metis
next
  case (drain w wan w' wan')
  obtain n where "ping_drain N w wan = Some (w', wan\<lparr>ping_ok := n\<rparr>)" "cf w' = cf w"
    using ping_drain_ok [OF laws, of w wan] drain by auto
  with drain show ?case by auto
qed (auto intro: synced_apply [OF laws] conjunct1 [OF synced_ping_send [OF laws]] synced_dns_start [OF laws]
      synced_dns_harvest [OF laws])


section \<open>A network for the examples\<close>

text \<open>Leases come from a script; the resolver has two query slots (\<^verbatim>\<open>dns_queries\<close> of \<^verbatim>\<open>wan_task\<close>) and answers
  at once; a slot is freed when its result is taken.\<close>

record script =
  sc_cf :: "(ipv4 \<times> nat) config"
  sc_events :: "(ipv4 \<times> nat) lease_event option list"
  sc_echo :: "bytes list"
  sc_slots :: "bool list"

definition script_net :: "(ipv4 \<times> nat, nat, script) wan_net" where
  "script_net = \<lparr>
     poll_lease = (\<lambda>w. case sc_events w of [] \<Rightarrow> (None, w) | e # es \<Rightarrow> (e, w\<lparr>sc_events := es\<rparr>)),
     update_ip_addrs = (\<lambda>f w. w\<lparr>sc_cf := (case sc_cf w of (a, r, s) \<Rightarrow> (f a, r, s))\<rparr>),
     remove_default_route = (\<lambda>w. w\<lparr>sc_cf := (case sc_cf w of (a, r, s) \<Rightarrow> (a, None, s))\<rparr>),
     add_default_route = (\<lambda>g w. w\<lparr>sc_cf := (case sc_cf w of (a, r, s) \<Rightarrow> (a, Some g, s))\<rparr>),
     update_servers = (\<lambda>ss w. w\<lparr>sc_cf := (case sc_cf w of (a, r, s) \<Rightarrow> (a, r, ss))\<rparr>),
     icmp_is_open = (\<lambda>w. True), icmp_bind = (\<lambda>i w. Some w), icmp_can_send = (\<lambda>w. True),
     icmp_send = (\<lambda>n d e w. Some (w\<lparr>sc_echo := sc_echo w @ [e (replicate n 0)]\<rparr>)),
     icmp_can_recv = (\<lambda>w. sc_echo w \<noteq> []),
     icmp_recv = (\<lambda>w. case sc_echo w of [] \<Rightarrow> (None, w) | p # ps \<Rightarrow> (Some p, w\<lparr>sc_echo := ps\<rparr>)),
     icmp_buffer_len = (\<lambda>r. case r of EchoRequest i n d \<Rightarrow> length d | _ \<Rightarrow> 0),
     icmp_emit = (\<lambda>r b. case r of EchoRequest i n d \<Rightarrow> d | _ \<Rightarrow> b),
     icmp_checked = (\<lambda>p. True), icmp_parse = (\<lambda>p. Some (EchoReply ICMP_IDENT 0 p)),
     start_query = (\<lambda>n w. case position Not (sc_slots w) of
         None \<Rightarrow> (None, w) | Some i \<Rightarrow> (Some i, w\<lparr>sc_slots := (sc_slots w)[i := True]\<rparr>)),
     get_query_result = (\<lambda>h w. (Resolved [Ipv4 93 184 215 14], w\<lparr>sc_slots := (sc_slots w)[h := False]\<rparr>))\<rparr>"

lemma script_net_laws: "wan_laws script_net sc_cf (\<lambda>w. length (sc_echo w))"
  by (simp add: wan_laws_def script_net_def split: list.split option.split)

definition home_lease :: "(ipv4 \<times> nat) lease_config" where
  "home_lease = \<lparr>lc_address = (Ipv4 192 168 37 129, 24), lc_router = Some (Ipv4 192 168 37 1), lc_dns_servers = [Ipv4 192 168 37 1]\<rparr>"

definition script_start :: "(ipv4 \<times> nat) lease_event option list \<Rightarrow> script" where
  "script_start es = \<lparr>sc_cf = ([], None, []), sc_events = es, sc_echo = [], sc_slots = [False, False]\<rparr>"


text \<open>An abandoned query is never cancelled or harvested: its slot in the resolver stays taken. Two lease
  changes with a query in flight leave no free slot, and no name is looked up again.\<close>

definition wan_round :: "script \<times> (ipv4 \<times> nat, nat) wan_state \<Rightarrow> script \<times> (ipv4 \<times> nat, nat) wan_state" where
  "wan_round = (\<lambda>(w, wan).
     let (w, wan) = dhcp_apply script_net w wan; (w, wan) = dns_harvest script_net w wan
     in dns_start script_net w wan)"

lemma dns_slots_leak:
  "case (wan_round ^^ 4) (script_start (replicate 3 (Some (Configured home_lease))), wan_new) of (w, wan) \<Rightarrow>
     dns0 wan \<noteq> None \<and> dns_query wan = None \<and> sc_slots w = [True, True]
     \<and> wan_round (w, wan) = (w, wan)"
  by code_simp

end
