(* ===== verification/Queue.thy ===== *)
theory Queue
  imports Prelude "HOL-Library.Sublist"
begin

text \<open>
  The contract of the frame queues between the cores and tasks: the inbox of RxRing drops its oldest frame when it is full, the
  forwarding channels of Forward refuse the new one. Either way frames keep their order and a lost one is counted.
\<close>

datatype 'a queue_op = Put 'a | Get

primrec queue_run :: "('a \<Rightarrow> 's \<Rightarrow> 's) \<Rightarrow> ('s \<Rightarrow> 'a option \<times> 's) \<Rightarrow> 'a queue_op list \<Rightarrow> 's \<Rightarrow> 'a list \<times> 's" where
  "queue_run put get [] s = ([], s)"
| "queue_run put get (x # ops) s =
     (case x of
        Put f \<Rightarrow> queue_run put get ops (put f s)
      | Get \<Rightarrow> (case get s of (r, s) \<Rightarrow> (case queue_run put get ops s of (out, s) \<Rightarrow> (case r of None \<Rightarrow> out | Some f \<Rightarrow> f # out, s))))"

primrec offered :: "'a queue_op list \<Rightarrow> 'a list" where
  "offered [] = []"
| "offered (x # ops) = (case x of Put f \<Rightarrow> f # offered ops | Get \<Rightarrow> offered ops)"

locale frame_queue =
  fixes inv :: "'s \<Rightarrow> bool" and put :: "'a \<Rightarrow> 's \<Rightarrow> 's" and get :: "'s \<Rightarrow> 'a option \<times> 's"
    and view :: "'s \<Rightarrow> 'a list" and lost :: "'s \<Rightarrow> u32" and room :: nat
  assumes put_inv: "inv s \<Longrightarrow> inv (put f s)"
    and get_inv: "inv s \<Longrightarrow> inv (snd (get s))"
    and bounded: "inv s \<Longrightarrow> length (view s) \<le> room"
    and put_order: "inv s \<Longrightarrow> subseq (view (put f s)) (view s @ [f])"
    and put_room: "inv s \<Longrightarrow> length (view s) < room \<Longrightarrow> view (put f s) = view s @ [f]"
    and put_lost: "inv s \<Longrightarrow> of_nat (length (view (put f s))) + lost (put f s) = of_nat (length (view s)) + lost s + 1"
    and get_first: "get s = (r, s') \<Longrightarrow> view s = (case r of None \<Rightarrow> [] | Some f \<Rightarrow> [f]) @ view s' \<and> lost s' = lost s"
    and get_some: "view s \<noteq> [] \<Longrightarrow> fst (get s) \<noteq> None"
begin

lemma run_inv: "inv s \<Longrightarrow> inv (snd (queue_run put get ops s))"
proof (induction ops arbitrary: s)
  case (Cons x ops)
  then show ?case using put_inv get_inv by (cases x) (auto split: prod.split, metis snd_conv)
qed simp

text \<open>What comes out, and what still waits, came in, in this order and no more than once.\<close>

lemma run_order: "inv s \<Longrightarrow> queue_run put get ops s = (out, s') \<Longrightarrow> subseq (out @ view s') (view s @ offered ops)"
proof (induction ops arbitrary: s out)
  case (Cons x ops)
  show ?case
  proof (cases x)
    case (Put f)
    have "subseq (out @ view s') (view (put f s) @ offered ops)"
      using Cons.IH [OF put_inv [OF Cons.prems(1)]] Cons.prems(2) Put by simp
    moreover have "subseq (view (put f s) @ offered ops) ((view s @ [f]) @ offered ops)"
      using put_order [OF Cons.prems(1)] by (simp del: append_assoc)
    ultimately show ?thesis using Put subseq_order.order_trans by fastforce
  next
    case Get
    obtain r t where g: "get s = (r, t)" by force
    obtain out' where o: "queue_run put get ops t = (out', s')" "out = (case r of None \<Rightarrow> out' | Some f \<Rightarrow> f # out')"
      using Cons.prems(2) Get g by (auto split: prod.splits)
    have "inv t" using get_inv [OF Cons.prems(1)] g by simp
    from Cons.IH [OF this o(1)] show ?thesis using get_first [OF g] o(2) Get by (cases r) auto
  qed
qed simp

text \<open>Every frame offered is out, or waits, or is counted as lost.\<close>

lemma run_counts:
  "inv s \<Longrightarrow> queue_run put get ops s = (out, s') \<Longrightarrow>
     of_nat (length out + length (view s')) + lost s' = of_nat (length (view s) + length (offered ops)) + lost s"
proof (induction ops arbitrary: s out)
  case (Cons x ops)
  show ?case
  proof (cases x)
    case (Put f)
    have "of_nat (length out + length (view s')) + lost s'
        = of_nat (length (view (put f s)) + length (offered ops)) + lost (put f s)"
      using Cons.IH [OF put_inv [OF Cons.prems(1)]] Cons.prems(2) Put by simp
    then show ?thesis using put_lost [OF Cons.prems(1), of f] Put by (simp add: algebra_simps)
  next
    case Get
    obtain r t where g: "get s = (r, t)" by force
    obtain out' where o: "queue_run put get ops t = (out', s')" "out = (case r of None \<Rightarrow> out' | Some f \<Rightarrow> f # out')"
      using Cons.prems(2) Get g by (auto split: prod.splits)
    have "inv t" using get_inv [OF Cons.prems(1)] g by simp
    from Cons.IH [OF this o(1)] show ?thesis using get_first [OF g] o(2) Get by (cases r) (auto simp: algebra_simps)
  qed
qed simp

text \<open>Reading as often as there are frames empties the queue, in order.\<close>

lemma drain_all: "queue_run put get (replicate (length (view s)) Get) s = (out, s') \<Longrightarrow> out = view s \<and> view s' = []"
proof (induction "length (view s)" arbitrary: s out)
  case (Suc n)
  obtain r t where g: "get s = (r, t)" by force
  moreover have "view s \<noteq> []" using Suc.hyps(2) by auto
  ultimately obtain f where r: "r = Some f" using get_some [of s] by auto
  then have v: "view s = f # view t" using get_first [OF g] by simp
  then have n: "n = length (view t)" using Suc.hyps(2) by simp
  obtain out' where o: "queue_run put get (replicate (length (view t)) Get) t = (out', s')" "out = f # out'"
    using Suc.prems v g r by (auto split: prod.splits)
  from Suc.hyps(1) [OF n o(1)] show ?case using v o(2) by simp
qed simp

end

end
