(* ===== verification/RxRing.thy ===== *)
theory RxRing
  imports EthTx Dpll Queue
begin

text \<open>
  From the DMA to the inbox: \<^verbatim>\<open>EthRx::poll_into\<close> of \<^verbatim>\<open>src/eth_rx.rs\<close>, and the receive half of \<^verbatim>\<open>src/eth_mac.rs\<close>, the
  image ring, the scan of an image for frames, the inbox and the statistics. The DMA and the PIO are parameters: a
  completed half-buffer is handed in, \<^const>\<open>None\<close> when none is done, and so is the FIFO overflow flag. The
  statics are fields of one state; \<^verbatim>\<open>with_rx_shared\<close> makes each update of inbox and statistics atomic, and a
  function here is what one core does between two such points, or between two interrupts.
  A panic or a read outside a buffer is \<^const>\<open>None\<close>.
\<close>

section \<open>Carrying runs across halves\<close>

definition BUF_WORDS :: nat where "BUF_WORDS = 4096"
definition BUF_BYTES :: nat where "BUF_BYTES = BUF_WORDS * 4"
definition MAX_CARRY_BYTES :: nat where "MAX_CARRY_BYTES = 16 * 1024"
definition STITCH_BUF_BYTES :: nat where "STITCH_BUF_BYTES = BUF_BYTES + MAX_CARRY_BYTES"

record eth_rx =
  carry :: bytes
  carry_len :: nat
  carry_capped :: u32

datatype poll_outcome = Nothing | Image nat nat

definition take_carry_capped :: "eth_rx \<Rightarrow> u32 \<times> eth_rx" where
  "take_carry_capped rx = (carry_capped rx, rx\<lparr>carry_capped := 0\<rparr>)"

fun tail_start_loop :: "bytes \<Rightarrow> nat \<Rightarrow> nat \<Rightarrow> u32 \<Rightarrow> nat \<times> u32" where
  "tail_start_loop new_bytes k tail_start capped =
     (if tail_start \<le> k then (tail_start, capped)
      else if MAX_CARRY_BYTES \<le> BUF_BYTES - tail_start then (tail_start, capped + 1)
      else
        (let b = new_bytes ! (tail_start - 1)
         in if b = 0x00 \<or> b = 0xFF then (tail_start, capped)
            else tail_start_loop new_bytes k (tail_start - 1) capped))"

declare tail_start_loop.simps [simp del]

fun poll_into :: "eth_rx \<Rightarrow> bytes option \<Rightarrow> bytes \<Rightarrow> (poll_outcome \<times> eth_rx \<times> bytes) option" where
  "poll_into rx None slot = Some (Nothing, rx, slot)"
| "poll_into rx (Some new_bytes) slot =
     (let cl = carry_len rx;
          k = (if 0 < cl then skip_while active new_bytes 0 else 0)
      in if 0 < cl \<and> k = BUF_BYTES then
           (if cl + BUF_BYTES \<le> MAX_CARRY_BYTES then do {
              c \<leftarrow> put (carry rx) cl new_bytes;
              Some (Nothing, rx\<lparr>carry := c, carry_len := cl + BUF_BYTES\<rparr>, slot)
            } else Some (Nothing, rx\<lparr>carry_capped := carry_capped rx + 1, carry_len := 0\<rparr>, slot))
         else
           (let (tail_start, capped) = tail_start_loop new_bytes k BUF_BYTES (carry_capped rx)
            in do {
              slot \<leftarrow> put slot 0 (take cl (carry rx));
              slot \<leftarrow> put slot cl (take tail_start new_bytes);
              c \<leftarrow> put (carry rx) 0 (drop tail_start new_bytes);
              Some (Image (cl + tail_start) cl,
                rx\<lparr>carry := c, carry_len := BUF_BYTES - tail_start, carry_capped := capped\<rparr>, slot)
            }))"

section \<open>The receive state\<close>

definition INBOX_SLOTS :: nat where "INBOX_SLOTS = 4"
definition FRAME_SNAP_BYTES :: nat where "FRAME_SNAP_BYTES = 128"
definition IMG_SLOTS :: nat where "IMG_SLOTS = 6"

record eth_rx_stats =
  frames_decoded :: u32
  fcs_ok :: u32
  fcs_fail :: u32
  frames_filtered :: u32
  inbox_dropped :: u32
  inbox_high_water :: u8
  stat_carry_capped :: u32
  last_frame_len :: nat
  last_frame_was_ok :: bool
  last_frame_snapshot :: bytes
  last_frame_snapshot_len :: nat

definition stats_new :: eth_rx_stats where
  "stats_new = \<lparr>frames_decoded = 0, fcs_ok = 0, fcs_fail = 0, frames_filtered = 0, inbox_dropped = 0,
     inbox_high_water = 0, stat_carry_capped = 0, last_frame_len = 0, last_frame_was_ok = False,
     last_frame_snapshot = replicate FRAME_SNAP_BYTES 0, last_frame_snapshot_len = 0\<rparr>"

record stats_delta =
  acc_decoded :: u32
  acc_ok :: u32
  acc_fail :: u32
  acc_filtered :: u32
  acc_carry :: u32
  acc_last_snap :: bytes
  acc_last_snap_len :: nat
  acc_last_len :: nat
  acc_last_ok :: bool
  acc_have_last :: bool

definition delta_new :: stats_delta where
  "delta_new = \<lparr>acc_decoded = 0, acc_ok = 0, acc_fail = 0, acc_filtered = 0, acc_carry = 0,
     acc_last_snap = replicate FRAME_SNAP_BYTES 0, acc_last_snap_len = 0, acc_last_len = 0,
     acc_last_ok = False, acc_have_last = False\<rparr>"

record rx_engine =
  eng_rx :: eth_rx
  our_mac :: mac

text \<open>\<^verbatim>\<open>RX_SHARED\<close>, \<^verbatim>\<open>RX_ENGINE\<close> and the image ring.\<close>

record rx_state =
  engine :: "rx_engine option"
  img_ring :: "bytes list"
  img_len :: "u32 list"
  img_cl :: "u32 list"
  img_w :: u32
  img_r :: u32
  img_drop :: u32
  img_discard :: bytes
  stitch_dec :: u32
  stitch_fail :: u32
  rxstall_halves :: u32
  inbox :: "bytes list"
  stats :: eth_rx_stats

definition rx_boot :: rx_state where
  "rx_boot = \<lparr>engine = None, img_ring = replicate IMG_SLOTS (replicate STITCH_BUF_BYTES 0),
     img_len = replicate IMG_SLOTS 0, img_cl = replicate IMG_SLOTS 0, img_w = 0, img_r = 0, img_drop = 0,
     img_discard = replicate STITCH_BUF_BYTES 0, stitch_dec = 0, stitch_fail = 0, rxstall_halves = 0,
     inbox = [], stats = stats_new\<rparr>"

definition install_rx :: "rx_state \<Rightarrow> eth_rx \<Rightarrow> mac \<Rightarrow> bool \<times> rx_state" where
  "install_rx st rx mac =
     (if engine st \<noteq> None then (False, st)
      else (True, st\<lparr>engine := Some \<lparr>eng_rx = rx, our_mac = mac\<rparr>\<rparr>))"

definition mac_accept :: "mac \<Rightarrow> mac \<Rightarrow> bool" where
  "mac_accept dst our \<longleftrightarrow> dst = our \<or> (dst ! 0) AND 0x01 \<noteq> 0"

definition snapshot_rx_stats :: "rx_state \<Rightarrow> eth_rx_stats \<times> rx_state" where
  "snapshot_rx_stats st = (stats st, st\<lparr>stats := stats_new\<rparr>)"

section \<open>Producer: the interrupt\<close>

text \<open>The image a slot holds after \<^verbatim>\<open>poll_into\<close>, and what happens to it.\<close>

definition process_completed_half :: "bool \<Rightarrow> bytes option \<Rightarrow> rx_engine \<Rightarrow> rx_state \<Rightarrow> rx_state option" where
  "process_completed_half rxstall half eng st =
     (let st = (if rxstall then st\<lparr>rxstall_halves := rxstall_halves st + 1\<rparr> else st);
          w = img_w st; r = img_r st
      in if of_nat IMG_SLOTS \<le> w - r then do {
           (outcome, rx, slot) \<leftarrow> poll_into (eng_rx eng) half (img_discard st);
           let st = st\<lparr>img_discard := slot, engine := Some (eng\<lparr>eng_rx := rx\<rparr>)\<rparr>;
           Some (case outcome of Image _ _ \<Rightarrow> st\<lparr>img_drop := img_drop st + 1\<rparr> | Nothing \<Rightarrow> st)
         } else do {
           let slot_idx = unat w mod IMG_SLOTS;
           (outcome, rx, slot) \<leftarrow> poll_into (eng_rx eng) half (img_ring st ! slot_idx);
           let st = st\<lparr>img_ring := (img_ring st)[slot_idx := slot]\<rparr>;
           let st = (case outcome of
               Nothing \<Rightarrow> st
             | Image len carry_prefix \<Rightarrow>
                 st\<lparr>img_len := (img_len st)[slot_idx := of_nat len],
                    img_cl := (img_cl st)[slot_idx := of_nat carry_prefix], img_w := w + 1\<rparr>);
           let (capped, rx) = take_carry_capped rx;
           let st = st\<lparr>engine := Some (eng\<lparr>eng_rx := rx\<rparr>)\<rparr>;
           Some (if capped \<noteq> 0
             then st\<lparr>stats := (stats st)\<lparr>stat_carry_capped := stat_carry_capped (stats st) + capped\<rparr>\<rparr>
             else st)
         })"

definition DMA_IRQ_0 :: "bool \<Rightarrow> bytes option \<Rightarrow> rx_state \<Rightarrow> rx_state option" where
  "DMA_IRQ_0 rxstall half st = (case engine st of
     None \<Rightarrow> Some st
   | Some eng \<Rightarrow> process_completed_half rxstall half eng st)"

section \<open>Consumer: decoding\<close>

text \<open>The publication under the lock: the oldest frame makes room in a full inbox.\<close>

definition publish :: "bytes \<Rightarrow> rx_state \<Rightarrow> rx_state" where
  "publish frame st =
     (let st = (if length (inbox st) = INBOX_SLOTS
                then st\<lparr>inbox := tl (inbox st),
                        stats := (stats st)\<lparr>inbox_dropped := inbox_dropped (stats st) + 1\<rparr>\<rparr>
                else st);
          st = (if length (inbox st) < INBOX_SLOTS then st\<lparr>inbox := inbox st @ [frame]\<rparr> else st);
          depth = of_nat (length (inbox st))
      in if inbox_high_water (stats st) < depth
         then st\<lparr>stats := (stats st)\<lparr>inbox_high_water := depth\<rparr>\<rparr> else st)"

text \<open>The rest of the loop body of \<^verbatim>\<open>scan_runs\<close>, once a frame is decoded.\<close>

definition take_frame :: "bytes \<Rightarrow> nat option \<Rightarrow> stats_delta \<Rightarrow> rx_state \<Rightarrow> stats_delta \<times> rx_state" where
  "take_frame frame stitch_cl acc st =
     (let flen = derive_frame_len frame;
          ok = verify_fcs frame flen;
          n = min flen (length frame);
          acc = acc\<lparr>acc_decoded := acc_decoded acc + 1\<rparr>;
          acc = (if ok then acc\<lparr>acc_ok := acc_ok acc + 1\<rparr> else acc\<lparr>acc_fail := acc_fail acc + 1\<rparr>);
          st = (if stitch_cl \<noteq> None
                then st\<lparr>stitch_dec := stitch_dec st + 1,
                        stitch_fail := (if ok then stitch_fail st else stitch_fail st + 1)\<rparr>
                else st);
          snap_n = min n (length (acc_last_snap acc));
          acc = acc\<lparr>acc_last_snap := take snap_n frame @ drop snap_n (acc_last_snap acc),
                    acc_last_snap_len := snap_n, acc_last_len := n, acc_last_ok := ok, acc_have_last := True\<rparr>
      in if \<not> ok then (acc, st) else (acc, publish (take n frame) st))"

partial_function (option) scan_from ::
  "mac \<Rightarrow> bytes \<Rightarrow> nat option \<Rightarrow> nat \<Rightarrow> stats_delta \<Rightarrow> rx_state \<Rightarrow> (stats_delta \<times> rx_state) option" where
  "scan_from our bs stitch_cl cursor acc st =
     (case find_active_run_from bs cursor 100 of
        None \<Rightarrow> Some (acc, st)
      | Some (off, len) \<Rightarrow> do {
          p \<leftarrow> peek_dst_mac bs off len;
          case p of
            None \<Rightarrow> scan_from our bs stitch_cl (off + len) acc st
          | Some dst \<Rightarrow>
              if \<not> mac_accept dst our
              then scan_from our bs stitch_cl (off + len) (acc\<lparr>acc_filtered := acc_filtered acc + 1\<rparr>) st
              else do {
                decoded \<leftarrow> decode_frame_edge_track (take len (drop off bs));
                case decoded of
                  None \<Rightarrow> scan_from our bs stitch_cl (off + len) acc st
                | Some frame \<Rightarrow>
                    (case take_frame frame stitch_cl acc st of
                       (acc, st) \<Rightarrow> scan_from our bs stitch_cl (off + len) acc st)
              }
        })"

definition scan_runs :: "mac \<Rightarrow> bytes \<Rightarrow> nat option \<Rightarrow> stats_delta \<Rightarrow> rx_state \<Rightarrow> (stats_delta \<times> rx_state) option" where
  "scan_runs our bs stitch_cl acc st = scan_from our bs stitch_cl 0 acc st"

definition merge_stats :: "stats_delta \<Rightarrow> rx_state \<Rightarrow> rx_state" where
  "merge_stats acc st =
     (let s = stats st;
          s = s\<lparr>frames_decoded := frames_decoded s + acc_decoded acc, fcs_ok := fcs_ok s + acc_ok acc,
                fcs_fail := fcs_fail s + acc_fail acc, frames_filtered := frames_filtered s + acc_filtered acc,
                stat_carry_capped := stat_carry_capped s + acc_carry acc\<rparr>;
          s = (if acc_have_last acc
               then s\<lparr>last_frame_snapshot := take (acc_last_snap_len acc) (acc_last_snap acc)
                        @ drop (acc_last_snap_len acc) (last_frame_snapshot s),
                      last_frame_snapshot_len := acc_last_snap_len acc, last_frame_len := acc_last_len acc,
                      last_frame_was_ok := acc_last_ok acc\<rparr>
               else s)
      in st\<lparr>stats := s\<rparr>)"

partial_function (option) drain_rx_images :: "rx_state \<Rightarrow> rx_state option" where
  "drain_rx_images st =
     (if img_r st = img_w st then Some st
      else
        (let slot_idx = unat (img_r st) mod IMG_SLOTS;
             len = unat (img_len st ! slot_idx);
             cl = unat (img_cl st ! slot_idx);
             our = (case engine st of Some e \<Rightarrow> our_mac e | None \<Rightarrow> replicate 6 0)
         in if STITCH_BUF_BYTES < len then None
            else do {
              (acc, st) \<leftarrow> scan_runs our (take len (img_ring st ! slot_idx)) (if 0 < cl then Some cl else None) delta_new st;
              let st = merge_stats acc st;
              drain_rx_images (st\<lparr>img_r := img_r st + 1\<rparr>)
            }))"

text \<open>\<^verbatim>\<open>EthMac::receive\<close>: the oldest frame leaves the inbox.\<close>

definition pop_inbox :: "rx_state \<Rightarrow> bytes option \<times> rx_state" where
  "pop_inbox st = (case inbox st of [] \<Rightarrow> (None, st) | f # fs \<Rightarrow> (Some f, st\<lparr>inbox := fs\<rparr>))"

section \<open>The carry\<close>

definition carried :: "eth_rx \<Rightarrow> bytes" where
  "carried rx = take (carry_len rx) (carry rx)"

definition carry_ok :: "eth_rx \<Rightarrow> bool" where
  "carry_ok rx \<longleftrightarrow> length (carry rx) = MAX_CARRY_BYTES \<and> carry_len rx \<le> MAX_CARRY_BYTES"

lemma buf_sizes: "BUF_BYTES = 16384" "MAX_CARRY_BYTES = 16384" "STITCH_BUF_BYTES = 32768"
  by (simp_all add: BUF_BYTES_def BUF_WORDS_def MAX_CARRY_BYTES_def STITCH_BUF_BYTES_def)

lemma length_carried: "carry_ok rx \<Longrightarrow> length (carried rx) = carry_len rx"
  by (simp add: carried_def carry_ok_def)

text \<open>The backward scan stops at the last idle byte; its cap is never hit.\<close>

lemma tail_start_spec:
  assumes "k \<le> ts" and "ts \<le> BUF_BYTES"
  shows "\<exists>t. tail_start_loop bs k ts c = (t, c) \<and> k \<le> t \<and> t \<le> ts
    \<and> (\<forall>j. t \<le> j \<and> j < ts \<longrightarrow> active (bs ! j)) \<and> (t = k \<or> \<not> active (bs ! (t - 1)))"
  using assms
proof (induction bs k ts c rule: tail_start_loop.induct)
  case (1 bs k ts c)
  show ?case
  proof (cases "ts \<le> k")
    case True
    with 1(2) show ?thesis by (subst tail_start_loop.simps) auto
  next
    case False
    then have nocap: "\<not> MAX_CARRY_BYTES \<le> BUF_BYTES - ts" using 1(3) by (simp add: buf_sizes)
    show ?thesis
    proof (cases "active (bs ! (ts - 1))")
      case idle: False
      with False nocap 1(2) show ?thesis by (subst tail_start_loop.simps) (auto simp: active_def)
    next
      case True
      then have step: "tail_start_loop bs k ts c = tail_start_loop bs k (ts - 1) c"
        using False nocap by (subst tail_start_loop.simps) (simp add: active_def Let_def)
      have pre: "k \<le> ts - 1" "ts - 1 \<le> BUF_BYTES" using False 1(3) by simp_all
      have "\<not> (bs ! (ts - 1) = 0x00 \<or> bs ! (ts - 1) = 0xFF)" using True by (simp add: active_def)
      then obtain t where t: "tail_start_loop bs k (ts - 1) c = (t, c)" "k \<le> t" "t \<le> ts - 1"
        "\<forall>j. t \<le> j \<and> j < ts - 1 \<longrightarrow> active (bs ! j)" "t = k \<or> \<not> active (bs ! (t - 1))"
        using 1(1) [OF False nocap refl _ pre] by blast
      have "active (bs ! j)" if "t \<le> j" "j < ts" for j
        using t(4) that True by (cases "j = ts - 1") auto
      with t step show ?thesis by (intro exI [of _ t]) auto
    qed
  qed
qed

lemma put_prefix: "put out i xs = Some out' \<Longrightarrow> take (i + length xs) out' = take i out @ xs"
  by (auto simp: put_def split: if_splits)

lemma put_Some: "i + length xs \<le> length out \<Longrightarrow> \<exists>out'. put out i xs = Some out'"
  by (simp add: put_def)

text \<open>A half whose every byte is active while a run is being carried is given up.\<close>

definition swallowed :: "eth_rx \<Rightarrow> bytes \<Rightarrow> bool" where
  "swallowed rx new \<longleftrightarrow> 0 < carry_len rx \<and> (\<forall>j < BUF_BYTES. active (new ! j))"

lemma lead_run_all:
  assumes "length new = BUF_BYTES"
  shows "skip_while active new 0 = BUF_BYTES \<longleftrightarrow> (\<forall>j < BUF_BYTES. active (new ! j))"
proof
  assume "skip_while active new 0 = BUF_BYTES"
  then show "\<forall>j < BUF_BYTES. active (new ! j)" using skip_while_all [of 0 _ active new] by simp
next
  assume "\<forall>j < BUF_BYTES. active (new ! j)"
  then show "skip_while active new 0 = BUF_BYTES" using skip_while_all_p [of 0 new active] assms by simp
qed

lemma poll_swallowed:
  assumes "carry_ok rx" and "length new = BUF_BYTES" and "swallowed rx new"
  shows "poll_into rx (Some new) slot
    = Some (Nothing, rx\<lparr>carry_capped := carry_capped rx + 1, carry_len := 0\<rparr>, slot)"
proof -
  have "\<not> carry_len rx + BUF_BYTES \<le> MAX_CARRY_BYTES"
    using assms(3) by (simp add: swallowed_def buf_sizes)
  then show ?thesis
    using assms(3) lead_run_all [OF assms(2)] by (simp add: swallowed_def Let_def)
qed

lemma poll_image:
  assumes ok: "carry_ok rx" and new: "length new = BUF_BYTES" and slot: "length slot = STITCH_BUF_BYTES"
    and go: "\<not> swallowed rx new"
  shows "\<exists>image rx' slot'. poll_into rx (Some new) slot = Some (Image (length image) (carry_len rx), rx', slot')
    \<and> take (length image) slot' = image \<and> image @ carried rx' = carried rx @ new
    \<and> (image = [] \<or> \<not> active (last image)) \<and> (\<forall>b \<in> set (carried rx'). active b)
    \<and> carry_ok rx' \<and> length slot' = STITCH_BUF_BYTES \<and> carry_capped rx' = carry_capped rx"
proof -
  let ?cl = "carry_len rx"
  define k where "k = (if 0 < ?cl then skip_while active new 0 else 0)"
  have kb: "k \<le> BUF_BYTES" using skip_while_le [of 0 new active] new by (simp add: k_def)
  have nk: "\<not> (0 < ?cl \<and> k = BUF_BYTES)"
    using go lead_run_all [OF new] by (auto simp: swallowed_def k_def)
  obtain t where t: "tail_start_loop new k BUF_BYTES (carry_capped rx) = (t, carry_capped rx)" "k \<le> t" "t \<le> BUF_BYTES"
    "\<forall>j. t \<le> j \<and> j < BUF_BYTES \<longrightarrow> active (new ! j)" "t = k \<or> \<not> active (new ! (t - 1))"
    using tail_start_spec [OF kb order_refl, of new "carry_capped rx"] by blast
  have c: "length (carried rx) = ?cl" "?cl \<le> MAX_CARRY_BYTES" "length (carry rx) = MAX_CARRY_BYTES"
    using ok length_carried by (auto simp: carry_ok_def)
  obtain slot1 where s1: "put slot 0 (carried rx) = Some slot1"
    using put_Some [of 0 "carried rx" slot] c slot by (auto simp: buf_sizes)
  have l1: "length slot1 = STITCH_BUF_BYTES" using put_length [OF s1] slot by simp
  obtain slot2 where s2: "put slot1 ?cl (take t new) = Some slot2"
    using put_Some [of ?cl "take t new" slot1] c l1 t(3) new by (auto simp: buf_sizes)
  have l2: "length slot2 = STITCH_BUF_BYTES" using put_length [OF s2] l1 by simp
  obtain c' where c': "put (carry rx) 0 (drop t new) = Some c'"
    using put_Some [of 0 "drop t new" "carry rx"] c new by (auto simp: buf_sizes)
  have lc: "length c' = MAX_CARRY_BYTES" using put_length [OF c'] c by simp
  let ?image = "carried rx @ take t new"
  let ?rx = "rx\<lparr>carry := c', carry_len := BUF_BYTES - t, carry_capped := carry_capped rx\<rparr>"
  have li: "length ?image = ?cl + t" using c t(3) new by simp
  have run: "poll_into rx (Some new) slot = Some (Image (?cl + t) ?cl, ?rx, slot2)"
    using t(1) s1 s2 c' unfolding poll_into.simps Let_def k_def [symmetric] if_not_P [OF nk]
    by (simp add: carried_def)
  have img: "take (?cl + t) slot2 = ?image"
  proof -
    have "take (?cl + length (take t new)) slot2 = take ?cl slot1 @ take t new" by (rule put_prefix [OF s2])
    moreover have "take ?cl slot1 = carried rx" using put_prefix [OF s1] c by simp
    ultimately show ?thesis using t(3) new by simp
  qed
  have car: "carried ?rx = drop t new"
    using put_prefix [OF c'] new t(3) by (simp add: carried_def)
  have "?image = [] \<or> \<not> active (last ?image)"
  proof (cases "t = k")
    case True
    have "?cl = 0"
    proof (rule ccontr)
      assume "?cl \<noteq> 0"
      with nk kb have kk: "k < BUF_BYTES" "k = skip_while active new 0" by (auto simp: k_def)
      then have "\<not> active (new ! k)" using skip_while_stop [of active new 0] new by simp
      with t(4) True kk(1) show False by simp
    qed
    with True c show ?thesis by (simp add: k_def)
  next
    case False
    then have "take t new \<noteq> []" using t(2) new by (auto simp: buf_sizes)
    moreover have "last (take t new) = new ! (t - 1)"
      using t(3) new \<open>take t new \<noteq> []\<close> by (subst last_conv_nth) (auto simp: min_def)
    ultimately show ?thesis using False t(5) by simp
  qed
  moreover have "\<forall>b \<in> set (drop t new). active b"
  proof
    fix b assume "b \<in> set (drop t new)"
    then obtain j where "j < length (drop t new)" "b = drop t new ! j" by (metis in_set_conv_nth)
    then show "active b" using t(3,4) new by simp
  qed
  ultimately show ?thesis
    using run img car li l2 lc
    by (intro exI [of _ ?image] exI [of _ ?rx] exI [of _ slot2]) (simp add: carry_ok_def buf_sizes)
qed

section \<open>The scan\<close>

text \<open>What the inbox holds: at most four frames, each a whole frame whose check sequence is right.\<close>

definition inbox_ok :: "rx_state \<Rightarrow> bool" where
  "inbox_ok st \<longleftrightarrow> length (inbox st) \<le> INBOX_SLOTS
     \<and> (\<forall>f \<in> set (inbox st). verify_fcs f (length f) \<and> length f \<le> MAX_FRAME_BYTES)"

text \<open>Everything else than the inbox, the statistics and the provenance counters.\<close>

definition same_ring :: "rx_state \<Rightarrow> rx_state \<Rightarrow> bool" where
  "same_ring st st' \<longleftrightarrow> engine st' = engine st \<and> img_ring st' = img_ring st \<and> img_len st' = img_len st
     \<and> img_cl st' = img_cl st \<and> img_w st' = img_w st \<and> img_r st' = img_r st \<and> img_drop st' = img_drop st
     \<and> img_discard st' = img_discard st"

lemma same_ring_refl [simp]: "same_ring st st"
  by (simp add: same_ring_def)

lemma same_ring_trans: "same_ring a b \<Longrightarrow> same_ring b c \<Longrightarrow> same_ring a c"
  by (simp add: same_ring_def)

lemma verify_fcs_take: "verify_fcs frame n \<Longrightarrow> verify_fcs (take n frame) (length (take n frame))"
  by (auto simp: verify_fcs_residue min_def)

lemma publish_ok:
  assumes "inbox_ok st" and "verify_fcs f (length f)" and "length f \<le> MAX_FRAME_BYTES"
  shows "inbox_ok (publish f st) \<and> same_ring st (publish f st)"
proof -
  have "set (tl (inbox st)) \<subseteq> set (inbox st)" by (cases "inbox st") auto
  with assms show ?thesis
    by (auto simp: inbox_ok_def publish_def same_ring_def Let_def INBOX_SLOTS_def)
qed

lemma take_frame_ok:
  assumes "inbox_ok st" and "length frame \<le> MAX_FRAME_BYTES" and "take_frame frame stitch_cl acc st = (acc', st')"
  shows "inbox_ok st'" and "same_ring st st'"
    and "acc_decoded acc' - (acc_ok acc' + acc_fail acc') = acc_decoded acc - (acc_ok acc + acc_fail acc)"
proof -
  define ok where "ok = verify_fcs frame (derive_frame_len frame)"
  define st1 where "st1 = (if stitch_cl \<noteq> None
      then st\<lparr>stitch_dec := stitch_dec st + 1, stitch_fail := (if ok then stitch_fail st else stitch_fail st + 1)\<rparr> else st)"
  have st': "st' = (if ok then publish (take (derive_frame_len frame) frame) st1 else st1)"
    using assms(3) derive_frame_len_le [of frame]
    by (auto simp: take_frame_def Let_def ok_def st1_def min_absorb1 split: if_splits)
  have s1: "inbox_ok st1" "same_ring st st1"
    using assms(1) by (simp_all add: st1_def inbox_ok_def same_ring_def)
  have "verify_fcs (take (derive_frame_len frame) frame) (length (take (derive_frame_len frame) frame))" if ok
    using that unfolding ok_def by (rule verify_fcs_take)
  moreover have "length (take (derive_frame_len frame) frame) \<le> MAX_FRAME_BYTES" using assms(2) by simp
  ultimately have p: "inbox_ok (publish (take (derive_frame_len frame) frame) st1)
      \<and> same_ring st1 (publish (take (derive_frame_len frame) frame) st1)" if ok
    using that publish_ok [OF s1(1)] by blast
  show "inbox_ok st'" using p s1 by (simp add: st')
  show "same_ring st st'" using p s1 same_ring_trans by (auto simp: st')
  show "acc_decoded acc' - (acc_ok acc' + acc_fail acc') = acc_decoded acc - (acc_ok acc + acc_fail acc)"
    using assms(3) by (auto simp: take_frame_def Let_def split: if_splits)
qed

lemma scan_total:
  assumes "inbox_ok st"
  shows "\<exists>acc' st'. scan_from our bs stitch_cl cursor acc st = Some (acc', st')
    \<and> inbox_ok st' \<and> same_ring st st'
    \<and> acc_decoded acc' - (acc_ok acc' + acc_fail acc') = acc_decoded acc - (acc_ok acc + acc_fail acc)"
  using assms
proof (induction "length bs - cursor" arbitrary: cursor acc st rule: less_induct)
  case less
  show ?case
  proof (cases "find_active_run_from bs cursor 100")
    case None
    then show ?thesis using less.prems by (subst scan_from.simps) simp
  next
    case (Some r)
    obtain off len where r: "r = (off, len)" by (cases r)
    have run: "cursor \<le> off" "100 \<le> len" "off + len \<le> length bs"
      using find_active_run_correct [where bs = bs and start = cursor and m = 100] unfolding Some r by simp_all
    have dec: "length bs - (off + len) < length bs - cursor" using run by linarith
    obtain p where p: "peek_dst_mac bs off len = Some p" using peek_dst_mac_total [of off len bs] run by auto
    note step = scan_from.simps [of our bs stitch_cl cursor acc st, unfolded Some r option.case prod.case p bind.bind_lunit]
    show ?thesis
    proof (cases p)
      case None
      with step less.hyps [OF dec less.prems, of acc] show ?thesis by simp
    next
      case (Some dst)
      show ?thesis
      proof (cases "mac_accept dst our")
        case False
        with step Some less.hyps [OF dec less.prems, of "acc\<lparr>acc_filtered := acc_filtered acc + 1\<rparr>"]
        show ?thesis by simp
      next
        case True
        have "take len (drop off bs) \<noteq> []" using run by auto
        from decode_total [OF this] obtain d where d: "decode_frame_edge_track (take len (drop off bs)) = Some d"
          "\<forall>frame. d = Some frame \<longrightarrow> length frame \<le> MAX_FRAME_BYTES" by blast
        show ?thesis
        proof (cases d)
          case None
          with step Some True d less.hyps [OF dec less.prems, of acc] show ?thesis by simp
        next
          case (Some frame)
          obtain acc1 st1 where t: "take_frame frame stitch_cl acc st = (acc1, st1)" by force
          have "length frame \<le> MAX_FRAME_BYTES" using d(2) Some by simp
          note ok = take_frame_ok [OF less.prems this t]
          obtain acc' st' where "scan_from our bs stitch_cl (off + len) acc1 st1 = Some (acc', st')
              \<and> inbox_ok st' \<and> same_ring st1 st'
              \<and> acc_decoded acc' - (acc_ok acc' + acc_fail acc') = acc_decoded acc1 - (acc_ok acc1 + acc_fail acc1)"
            using less.hyps [OF dec ok(1), of acc1] by blast
          with step \<open>p = Some dst\<close> True d(1) Some t ok(2,3) show ?thesis
            using same_ring_trans [OF ok(2)] by auto
        qed
      qed
    qed
  qed
qed

section \<open>The ring\<close>

definition ring_ok :: "rx_state \<Rightarrow> bool" where
  "ring_ok st \<longleftrightarrow> length (img_ring st) = IMG_SLOTS \<and> length (img_len st) = IMG_SLOTS \<and> length (img_cl st) = IMG_SLOTS
     \<and> (\<forall>s \<in> set (img_ring st). length s = STITCH_BUF_BYTES)
     \<and> (\<forall>n \<in> set (img_len st). unat n \<le> STITCH_BUF_BYTES)
     \<and> length (img_discard st) = STITCH_BUF_BYTES
     \<and> (\<forall>e. engine st = Some e \<longrightarrow> carry_ok (eng_rx e))"

lemma merge_stats_ring: "inbox (merge_stats acc st) = inbox st" "same_ring st (merge_stats acc st)"
  by (simp_all add: merge_stats_def same_ring_def Let_def)

lemma ring_ok_same: "same_ring st st' \<Longrightarrow> ring_ok st' = ring_ok st"
  by (simp add: ring_ok_def same_ring_def)

lemma measure_unat_pred: "w \<noteq> 0 \<Longrightarrow> unat (w - 1) < unat w" for w :: u32
  by (metis One_nat_def Suc_pred lessI unat_eq_zero unat_minus_one zero_less_iff_neq_zero)

lemma drain_total:
  assumes "ring_ok st" and "inbox_ok st"
  shows "\<exists>st'. drain_rx_images st = Some st' \<and> img_r st' = img_w st \<and> img_w st' = img_w st
    \<and> ring_ok st' \<and> inbox_ok st' \<and> engine st' = engine st"
  using assms
proof (induction "unat (img_w st - img_r st)" arbitrary: st rule: less_induct)
  case less
  show ?case
  proof (cases "img_r st = img_w st")
    case True
    then show ?thesis using less.prems by (subst drain_rx_images.simps) simp
  next
    case False
    let ?i = "unat (img_r st) mod IMG_SLOTS"
    let ?our = "case engine st of Some e \<Rightarrow> our_mac e | None \<Rightarrow> replicate 6 0"
    let ?len = "unat (img_len st ! ?i)" and ?cl = "unat (img_cl st ! ?i)"
    have i: "?i < IMG_SLOTS" by (simp add: IMG_SLOTS_def)
    have len: "\<not> STITCH_BUF_BYTES < ?len"
      using less.prems(1) i by (auto simp: ring_ok_def not_less)
    obtain acc' st1 where s: "scan_from ?our (take ?len (img_ring st ! ?i)) (if 0 < ?cl then Some ?cl else None) 0 delta_new st = Some (acc', st1)"
      "inbox_ok st1" "same_ring st st1"
      using scan_total [OF less.prems(2)] by blast
    define st2 where "st2 = (merge_stats acc' st1)\<lparr>img_r := img_r (merge_stats acc' st1) + 1\<rparr>"
    have same: "same_ring st (merge_stats acc' st1)" using s(3) merge_stats_ring(2) by (rule same_ring_trans)
    have f: "img_w st2 = img_w st" "img_r st2 = img_r st + 1" "engine st2 = engine st"
      using same by (simp_all add: st2_def same_ring_def)
    have ok: "ring_ok st2" "inbox_ok st2"
    proof -
      have "ring_ok (merge_stats acc' st1)" using less.prems(1) ring_ok_same [OF same] by simp
      then show "ring_ok st2" by (simp add: st2_def ring_ok_def)
      show "inbox_ok st2" using s(2) by (simp add: st2_def inbox_ok_def merge_stats_ring)
    qed
    have "unat (img_w st - (img_r st + 1)) < unat (img_w st - img_r st)"
    proof -
      have "img_w st - img_r st \<noteq> 0" using False by simp
      then have "unat (img_w st - img_r st - 1) < unat (img_w st - img_r st)" by (rule measure_unat_pred)
      then show ?thesis by (simp add: algebra_simps)
    qed
    then obtain st' where "drain_rx_images st2 = Some st' \<and> img_r st' = img_w st \<and> img_w st' = img_w st
        \<and> ring_ok st' \<and> inbox_ok st' \<and> engine st' = engine st"
      using less.hyps [of st2] f ok by auto
    moreover have "drain_rx_images st = drain_rx_images st2"
      using False len s(1) by (subst drain_rx_images.simps) (simp add: scan_runs_def st2_def Let_def)
    ultimately show ?thesis by simp
  qed
qed

section \<open>The ring as a queue\<close>

text \<open>The abstract ring: the images captured and not yet decoded, oldest first, each with the length of
  the carry in front of it.\<close>

definition slot_image :: "rx_state \<Rightarrow> nat \<Rightarrow> bytes \<times> nat option" where
  "slot_image st s =
     (take (unat (img_len st ! s)) (img_ring st ! s),
      if 0 < unat (img_cl st ! s) then Some (unat (img_cl st ! s)) else None)"

definition pending :: "rx_state \<Rightarrow> (bytes \<times> nat option) list" where
  "pending st = map (\<lambda>i. slot_image st ((unat (img_r st) + i) mod IMG_SLOTS)) [0..<unat (img_w st - img_r st)]"

text \<open>At most six images, and the sequence numbers have not wrapped.\<close>

definition queue_ok :: "rx_state \<Rightarrow> bool" where
  "queue_ok st \<longleftrightarrow> unat (img_r st) \<le> unat (img_w st) \<and> unat (img_w st) \<le> unat (img_r st) + IMG_SLOTS"

lemma queue_length: "queue_ok st \<Longrightarrow> unat (img_w st - img_r st) = unat (img_w st) - unat (img_r st)"
  by (simp add: queue_ok_def unat_sub word_le_nat_alt)

lemma length_pending: "queue_ok st \<Longrightarrow> length (pending st) = unat (img_w st) - unat (img_r st)"
  by (simp add: pending_def queue_length)

lemma slot_distinct: "(r + i) mod 6 = (r + n) mod 6 \<Longrightarrow> i < n \<Longrightarrow> n < 6 \<Longrightarrow> False" for r i n :: nat
  by presburger

text \<open>The interrupt appends.\<close>

lemma produce_queue:
  assumes "ring_ok st" and "queue_ok st" and "length (pending st) < IMG_SLOTS" and "unat (img_w st) + 1 < 2 ^ 32"
    and "length slot = STITCH_BUF_BYTES" and "n \<le> STITCH_BUF_BYTES" and "c \<le> STITCH_BUF_BYTES"
    and st': "img_ring st' = (img_ring st)[unat (img_w st) mod IMG_SLOTS := slot]"
      "img_len st' = (img_len st)[unat (img_w st) mod IMG_SLOTS := of_nat n]"
      "img_cl st' = (img_cl st)[unat (img_w st) mod IMG_SLOTS := of_nat c]"
      "img_w st' = img_w st + 1" "img_r st' = img_r st"
  shows "pending st' = pending st @ [(take n slot, if 0 < c then Some c else None)]" and "queue_ok st'"
proof -
  let ?k = "unat (img_w st) - unat (img_r st)" and ?w = "unat (img_w st) mod IMG_SLOTS"
  have w: "unat (img_w st + 1) = unat (img_w st) + 1"
    using assms(4) by (simp add: unat_word_ariths)
  have le: "unat (img_r st) \<le> unat (img_w st)" "unat (img_r st) + ?k = unat (img_w st)" "?k < 6"
    using assms(2,3) length_pending [OF assms(2)] by (auto simp: queue_ok_def IMG_SLOTS_def)
  show q': "queue_ok st'" using le w st'(4,5) by (simp add: queue_ok_def IMG_SLOTS_def)
  have len': "unat (img_w st' - img_r st') = Suc ?k"
    unfolding queue_length [OF q'] using st'(4,5) w le by simp
  have lens: "length (img_ring st) = IMG_SLOTS" "length (img_len st) = IMG_SLOTS" "length (img_cl st) = IMG_SLOTS"
    using assms(1) by (simp_all add: ring_ok_def)
  have wi: "?w < IMG_SLOTS" by (simp add: IMG_SLOTS_def)
  have old: "slot_image st' ((unat (img_r st) + i) mod IMG_SLOTS) = slot_image st ((unat (img_r st) + i) mod IMG_SLOTS)"
    if "i < ?k" for i
  proof -
    have "(unat (img_r st) + i) mod IMG_SLOTS \<noteq> ?w"
      using slot_distinct [of "unat (img_r st)" i ?k] that le by (auto simp: IMG_SLOTS_def)
    then show ?thesis by (simp add: slot_image_def st')
  qed
  have nc: "unat (of_nat n :: u32) = n" "unat (of_nat c :: u32) = c"
    using assms(6,7) by (simp_all add: unat_of_nat buf_sizes)
  have new: "slot_image st' ((unat (img_r st) + ?k) mod IMG_SLOTS) = (take n slot, if 0 < c then Some c else None)"
    unfolding le(2) slot_image_def st' using lens wi nc by simp
  have "pending st' = map (\<lambda>i. slot_image st' ((unat (img_r st) + i) mod IMG_SLOTS)) ([0..<?k] @ [?k])"
    unfolding pending_def len' by (simp add: st'(5))
  also have "\<dots> = pending st @ [(take n slot, if 0 < c then Some c else None)]"
    unfolding pending_def queue_length [OF assms(2)] map_append using old new by simp
  finally show "pending st' = pending st @ [(take n slot, if 0 < c then Some c else None)]" .
qed

text \<open>The thread decodes in order, and ends when the queue is empty.\<close>

primrec decode_images :: "mac \<Rightarrow> (bytes \<times> nat option) list \<Rightarrow> rx_state \<Rightarrow> rx_state option" where
  "decode_images our [] st = Some st"
| "decode_images our (x # xs) st = do {
     (acc, st) \<leftarrow> scan_runs our (fst x) (snd x) delta_new st;
     let st = merge_stats acc st;
     decode_images our xs (st\<lparr>img_r := img_r st + 1\<rparr>)
   }"

definition our_address :: "rx_state \<Rightarrow> mac" where
  "our_address st = (case engine st of Some e \<Rightarrow> our_mac e | None \<Rightarrow> replicate 6 0)"

lemma consume_queue:
  assumes "queue_ok st" and "img_r st \<noteq> img_w st" and same: "same_ring st st1"
  defines "st2 \<equiv> st1\<lparr>img_r := img_r st1 + 1\<rparr>"
  shows "pending st = slot_image st (unat (img_r st) mod IMG_SLOTS) # pending st2" and "queue_ok st2"
proof -
  have ne: "unat (img_r st) < unat (img_w st)"
    using assms(1,2) by (metis le_neq_implies_less queue_ok_def word_unat_eq_iff)
  then have "unat (img_r st) + 1 < 2 ^ 32" using unat_u32_lt [of "img_w st"] by simp
  then have r: "unat (img_r st + 1) = unat (img_r st) + 1"
    by (simp add: unat_word_ariths)
  have f: "img_r st2 = img_r st + 1" "img_w st2 = img_w st" "img_ring st2 = img_ring st" "img_len st2 = img_len st"
    "img_cl st2 = img_cl st" using same by (simp_all add: same_ring_def st2_def)
  show q2: "queue_ok st2" using assms(1) ne r by (simp add: queue_ok_def f)
  have k: "unat (img_w st - img_r st) = Suc (unat (img_w st2 - img_r st2))"
    unfolding queue_length [OF assms(1)] queue_length [OF q2] using ne r by (simp add: f)
  have s: "slot_image st2 = slot_image st" by (simp add: fun_eq_iff slot_image_def f)
  show "pending st = slot_image st (unat (img_r st) mod IMG_SLOTS) # pending st2"
    unfolding pending_def k s f(1) r upt_conv_Cons [OF zero_less_Suc] list.map
    by (simp only: map_Suc_upt [symmetric] map_map comp_def) simp
qed

lemma drain_decodes:
  assumes "ring_ok st" and "inbox_ok st" and "queue_ok st"
  shows "drain_rx_images st = decode_images (our_address st) (pending st) st"
  using assms
proof (induction "unat (img_w st - img_r st)" arbitrary: st)
  case 0
  then have "img_w st = img_r st" by (simp add: unsigned_eq_0_iff)
  then show ?case by (subst drain_rx_images.simps) (simp add: pending_def)
next
  case (Suc k)
  then have ne: "img_r st \<noteq> img_w st" by auto
  let ?i = "unat (img_r st) mod IMG_SLOTS"
  let ?len = "unat (img_len st ! ?i)" and ?cl = "unat (img_cl st ! ?i)"
  have "?i < IMG_SLOTS" by (simp add: IMG_SLOTS_def)
  then have len: "\<not> STITCH_BUF_BYTES < ?len" using Suc.prems(1) by (auto simp: ring_ok_def not_less)
  obtain acc' st1 where s: "scan_from (our_address st) (fst (slot_image st ?i)) (snd (slot_image st ?i)) 0 delta_new st = Some (acc', st1)"
    "inbox_ok st1" "same_ring st st1"
    using scan_total [OF Suc.prems(2)] by blast
  have same: "same_ring st (merge_stats acc' st1)" using s(3) merge_stats_ring(2) by (rule same_ring_trans)
  define st2 where "st2 = (merge_stats acc' st1)\<lparr>img_r := img_r (merge_stats acc' st1) + 1\<rparr>"
  have p: "pending st = slot_image st ?i # pending st2" "queue_ok st2"
    unfolding st2_def by (rule consume_queue [OF Suc.prems(3) ne same])+
  have "ring_ok (merge_stats acc' st1)" using Suc.prems(1) ring_ok_same [OF same] by simp
  then have ok: "ring_ok st2" "inbox_ok st2"
    using s(2) by (simp_all add: st2_def ring_ok_def inbox_ok_def merge_stats_ring)
  have our: "our_address st2 = our_address st" using same by (simp add: st2_def our_address_def same_ring_def)
  have "length (pending st) = Suc (length (pending st2))" using p by simp
  then have k: "k = unat (img_w st2 - img_r st2)"
    using Suc.hyps(2) by (simp add: pending_def)
  have "drain_rx_images st = drain_rx_images st2"
    using ne len s(1) by (subst drain_rx_images.simps)
      (simp add: scan_runs_def st2_def Let_def slot_image_def our_address_def)
  also have "\<dots> = decode_images (our_address st) (pending st2) st2"
    using Suc.hyps(1) [OF k ok p(2)] our by simp
  also have "\<dots> = decode_images (our_address st) (pending st) st"
    using s(1) by (simp add: p(1) scan_runs_def st2_def Let_def)
  finally show ?case .
qed

lemma pending_cong:
  "img_ring st' = img_ring st \<Longrightarrow> img_len st' = img_len st \<Longrightarrow> img_cl st' = img_cl st \<Longrightarrow>
   img_w st' = img_w st \<Longrightarrow> img_r st' = img_r st \<Longrightarrow> pending st' = pending st \<and> queue_ok st' = queue_ok st"
  by (simp add: pending_def slot_image_def queue_ok_def)

lemma length_pending_unat: "length (pending st) = unat (img_w st - img_r st)"
  by (simp add: pending_def)

lemma full_iff: "of_nat IMG_SLOTS \<le> img_w st - img_r st \<longleftrightarrow> IMG_SLOTS \<le> length (pending st)"
  by (simp add: length_pending_unat word_le_nat_alt IMG_SLOTS_def)

lemma set_list_update: "x \<in> set (xs[i := y]) \<Longrightarrow> x = y \<or> x \<in> set xs"
  using set_update_subset_insert by fastforce

text \<open>One interrupt with a completed half that is not given up.\<close>

lemma irq_image:
  assumes "ring_ok st" and "queue_ok st" and eng: "engine st = Some e" and "length new = BUF_BYTES"
    and "\<not> swallowed (eng_rx e) new" and "unat (img_w st) + 1 < 2 ^ 32"
  shows "\<exists>image rx st'. DMA_IRQ_0 stall (Some new) st = Some st' \<and> engine st' = Some (e\<lparr>eng_rx := rx\<rparr>)
    \<and> image @ carried rx = carried (eng_rx e) @ new \<and> (image = [] \<or> \<not> active (last image))
    \<and> ring_ok st' \<and> queue_ok st' \<and> inbox st' = inbox st
    \<and> (if length (pending st) < IMG_SLOTS
       then pending st' = pending st @ [(image, if 0 < carry_len (eng_rx e) then Some (carry_len (eng_rx e)) else None)]
         \<and> img_drop st' = img_drop st
       else pending st' = pending st \<and> img_drop st' = img_drop st + 1)"
proof -
  let ?rx = "eng_rx e"
  define st0 where "st0 = (if stall then st\<lparr>rxstall_halves := rxstall_halves st + 1\<rparr> else st)"
  have f0: "img_ring st0 = img_ring st" "img_len st0 = img_len st" "img_cl st0 = img_cl st" "img_w st0 = img_w st"
    "img_r st0 = img_r st" "img_discard st0 = img_discard st" "inbox st0 = inbox st" "img_drop st0 = img_drop st"
    by (simp_all add: st0_def)
  have cok: "carry_ok ?rx" using assms(1) eng by (simp add: ring_ok_def)
  have slots: "\<forall>s \<in> set (img_ring st). length s = STITCH_BUF_BYTES" "length (img_discard st) = STITCH_BUF_BYTES"
    "\<forall>n \<in> set (img_len st). unat n \<le> STITCH_BUF_BYTES"
    "length (img_ring st) = IMG_SLOTS" "length (img_len st) = IMG_SLOTS" "length (img_cl st) = IMG_SLOTS"
    using assms(1) by (simp_all add: ring_ok_def)
  have irq: "DMA_IRQ_0 stall (Some new) st = process_completed_half stall (Some new) e st"
    using eng by (simp add: DMA_IRQ_0_def)
  show ?thesis
  proof (cases "length (pending st) < IMG_SLOTS")
    case False
    then have full: "of_nat IMG_SLOTS \<le> img_w st - img_r st" using full_iff [of st] by simp
    obtain image rx slot where p: "poll_into ?rx (Some new) (img_discard st) = Some (Image (length image) (carry_len ?rx), rx, slot)"
      "image @ carried rx = carried ?rx @ new" "image = [] \<or> \<not> active (last image)" "carry_ok rx"
      "length slot = STITCH_BUF_BYTES"
      using poll_image [OF cok assms(4) slots(2) assms(5)] by blast
    define st' where "st' = st0\<lparr>img_discard := slot, engine := Some (e\<lparr>eng_rx := rx\<rparr>), img_drop := img_drop st0 + 1\<rparr>"
    have "DMA_IRQ_0 stall (Some new) st = Some st'"
      unfolding irq process_completed_half_def st0_def [symmetric] Let_def
      using full p(1) by (simp add: f0 st'_def)
    moreover have "ring_ok st'" using assms(1) p(4,5) by (simp add: ring_ok_def st'_def f0)
    moreover have "pending st' = pending st \<and> queue_ok st' = queue_ok st"
      by (rule pending_cong) (simp_all add: st'_def f0)
    ultimately show ?thesis using False p(2,3) assms(2)
      by (intro exI [of _ image] exI [of _ rx] exI [of _ st']) (simp add: st'_def f0)
  next
    case room: True
    then have nf: "\<not> of_nat IMG_SLOTS \<le> img_w st - img_r st" using full_iff [of st] by simp
    let ?i = "unat (img_w st) mod IMG_SLOTS"
    have i: "?i < IMG_SLOTS" by (simp add: IMG_SLOTS_def)
    have "length (img_ring st ! ?i) = STITCH_BUF_BYTES" using slots(1,4) i by simp
    from poll_image [OF cok assms(4) this assms(5)] obtain image rx slot
      where p: "poll_into ?rx (Some new) (img_ring st ! ?i) = Some (Image (length image) (carry_len ?rx), rx, slot)"
      "take (length image) slot = image" "image @ carried rx = carried ?rx @ new" "image = [] \<or> \<not> active (last image)"
      "carry_ok rx" "length slot = STITCH_BUF_BYTES" by blast
    have il: "length image \<le> STITCH_BUF_BYTES" using p(2,6) by (metis length_take min.cobounded1)
    have cl: "carry_len ?rx \<le> STITCH_BUF_BYTES" using cok by (simp add: carry_ok_def buf_sizes)
    define s0 where "s0 = (stats st)\<lparr>stat_carry_capped := stat_carry_capped (stats st) + carry_capped rx\<rparr>"
    define st' where "st' = st0\<lparr>img_ring := (img_ring st)[?i := slot], img_len := (img_len st)[?i := of_nat (length image)],
      img_cl := (img_cl st)[?i := of_nat (carry_len ?rx)], img_w := img_w st + 1,
      engine := Some (e\<lparr>eng_rx := rx\<lparr>carry_capped := 0\<rparr>\<rparr>),
      stats := (if carry_capped rx \<noteq> 0 then s0 else stats st)\<rparr>"
    have "stats st0 = stats st" by (simp add: st0_def)
    then have run: "DMA_IRQ_0 stall (Some new) st = Some st'"
      unfolding irq process_completed_half_def st0_def [symmetric] Let_def
      using nf p(1) by (simp add: f0 st'_def s0_def take_carry_capped_def Let_def)
    have q: "pending st' = pending st @ [(take (length image) slot, if 0 < carry_len ?rx then Some (carry_len ?rx) else None)]"
      "queue_ok st'"
      by (rule produce_queue [OF assms(1,2) room assms(6) p(6) il cl]; simp add: st'_def f0)+
    have "unat (of_nat (length image) :: u32) \<le> STITCH_BUF_BYTES" using il by (simp add: unat_of_nat buf_sizes)
    moreover have "carry_ok (rx\<lparr>carry_capped := 0\<rparr>)" using p(5) by (simp add: carry_ok_def)
    ultimately have "ring_ok st'"
      using slots p(6) by (auto simp: ring_ok_def st'_def f0 dest!: set_list_update)
    with run q p(2,3,4) room show ?thesis
      by (intro exI [of _ image] exI [of _ "rx\<lparr>carry_capped := 0\<rparr>"] exI [of _ st']) (simp add: st'_def f0 carried_def)
  qed
qed

text \<open>After \<open>2 ^ 32\<close> halves the sequence numbers wrap, and six does not divide \<open>2 ^ 32\<close>: the slot numbers
  jump, and the slot the interrupt takes next can be that of the oldest image still waiting.\<close>

lemma ring_wrap_overwrites:
  assumes "engine st = Some e" and "img_r st = 0xFFFFFFFE" and "img_w st = 2"
    and "poll_into (eng_rx e) half (img_ring st ! 2) = Some (Image n c, rx, slot)" and "length (img_ring st) = IMG_SLOTS"
  shows "\<exists>st'. DMA_IRQ_0 False half st = Some st' \<and> length (pending st) = 4
    \<and> img_ring st' ! (unat (img_r st) mod IMG_SLOTS) = slot"
proof -
  have k: "unat (img_w st - img_r st) = 4" by (simp add: assms(2,3))
  have w: "unat (img_w st) mod IMG_SLOTS = 2" "unat (img_r st) mod IMG_SLOTS = 2"
    by (simp_all add: assms(2,3) IMG_SLOTS_def)
  have "\<not> of_nat IMG_SLOTS \<le> img_w st - img_r st"
    using k full_iff [of st] by (simp add: length_pending_unat IMG_SLOTS_def)
  then show ?thesis
    using assms(1,4,5) k w
    by (auto simp: DMA_IRQ_0_def process_completed_half_def Let_def take_carry_capped_def length_pending_unat IMG_SLOTS_def)
qed

text \<open>A published frame still ends in its check sequence: a full-size IPv4 frame (total length 1500)
  enters the inbox with 1518 bytes, and is forwarded at that length.\<close>

lemma inbox_keeps_fcs:
  assumes "verify_fcs frame 1518" and "be16 (frame ! 12) (frame ! 13) = 0x0800"
    and "be16 (frame ! 16) (frame ! 17) = 1500" and "inbox st = []"
  shows "inbox (snd (take_frame frame None acc st)) = [take 1518 frame]" and "length (take 1518 frame) = 1518"
proof -
  have n: "1518 \<le> length frame" using assms(1) by (simp add: verify_fcs_def split: if_splits)
  have d: "derive_frame_len frame = 1518" using n assms(2,3) by (simp add: derive_frame_len_def)
  show "inbox (snd (take_frame frame None acc st)) = [take 1518 frame]"
    using assms(1,4) n by (simp add: take_frame_def Let_def d publish_def INBOX_SLOTS_def min_absorb1)
  show "length (take 1518 frame) = 1518" using n by simp
qed

text \<open>The inbox is a queue that drops its oldest frame.\<close>

interpretation inbox: frame_queue "\<lambda>st. length (inbox st) \<le> INBOX_SLOTS" publish pop_inbox inbox
  "\<lambda>st. inbox_dropped (stats st)" INBOX_SLOTS
  by unfold_locales
    (auto simp: publish_def pop_inbox_def INBOX_SLOTS_def Let_def neq_Nil_conv length_Suc_conv numeral_eq_Suc split: list.splits)

section \<open>Properties\<close>

text \<open>C19. Nothing of the sample stream is lost or cut at the border of two halves: the image that a completed half gives
  and the new carry are, together, the old carry followed by the half; the image ends in an idle byte (or
  is empty), so no run of active bytes, and so no frame, is split between images; and the buffers stay
  in bounds. The one exception is a half with no idle byte that arrives while a run is carried: it
  is dropped with the carry, and counted.\<close>

theorem poll_keeps_stream:
  assumes "carry_ok rx" and "length new = BUF_BYTES" and "length slot = STITCH_BUF_BYTES"
  shows "if swallowed rx new
    then poll_into rx (Some new) slot = Some (Nothing, rx\<lparr>carry_capped := carry_capped rx + 1, carry_len := 0\<rparr>, slot)
    else \<exists>image rx' slot'. poll_into rx (Some new) slot = Some (Image (length image) (carry_len rx), rx', slot')
      \<and> take (length image) slot' = image \<and> image @ carried rx' = carried rx @ new
      \<and> (image = [] \<or> \<not> active (last image)) \<and> (\<forall>b \<in> set (carried rx'). active b)
      \<and> carry_ok rx' \<and> length slot' = STITCH_BUF_BYTES \<and> carry_capped rx' = carry_capped rx"
  using poll_swallowed [OF assms(1,2)] poll_image [OF assms] by (cases "swallowed rx new") simp_all

definition quiet_rx :: eth_rx where
  "quiet_rx = \<lparr>carry = replicate MAX_CARRY_BYTES 0, carry_len = 0, carry_capped = 0\<rparr>"

lemma quiet_rx_ok: "carry_ok quiet_rx" "carried quiet_rx = []" "\<not> swallowed quiet_rx new"
  by (simp_all add: carry_ok_def quiet_rx_def carried_def swallowed_def)

theorem poll_keeps_stream_witness:
  "\<exists>image rx' slot'. poll_into quiet_rx (Some (replicate BUF_BYTES 0)) (replicate STITCH_BUF_BYTES 0)
      = Some (Image (length image) 0, rx', slot') \<and> image @ carried rx' = replicate BUF_BYTES 0"
  using poll_keeps_stream [OF quiet_rx_ok(1), of "replicate BUF_BYTES 0" "replicate STITCH_BUF_BYTES 0"] quiet_rx_ok(2,3)
  by (auto simp: quiet_rx_def)

text \<open>C20. The image ring is a bounded queue. A completed half (one that is not given up) adds its image at the end when there
  are fewer than six waiting, and otherwise is dropped and counted with the queue unchanged;
  the decoding thread takes the waiting images in the order they came until none is left. This holds
  until the 32-bit sequence numbers wrap.\<close>

theorem ring_is_queue:
  assumes "ring_ok st" and "inbox_ok st" and "queue_ok st" and "engine st = Some e" and "length new = BUF_BYTES"
    and "\<not> swallowed (eng_rx e) new" and "unat (img_w st) + 1 < 2 ^ 32"
  shows "(\<exists>image rx st'. DMA_IRQ_0 stall (Some new) st = Some st' \<and> engine st' = Some (e\<lparr>eng_rx := rx\<rparr>)
      \<and> image @ carried rx = carried (eng_rx e) @ new
      \<and> ring_ok st' \<and> inbox_ok st' \<and> queue_ok st'
      \<and> (if length (pending st) < IMG_SLOTS
         then map fst (pending st') = map fst (pending st) @ [image] \<and> img_drop st' = img_drop st
         else pending st' = pending st \<and> img_drop st' = img_drop st + 1))
    \<and> (\<exists>st'. drain_rx_images st = decode_images (our_mac e) (pending st) st
        \<and> drain_rx_images st = Some st' \<and> pending st' = [])"
proof
  obtain image rx st' where i: "DMA_IRQ_0 stall (Some new) st = Some st' \<and> engine st' = Some (e\<lparr>eng_rx := rx\<rparr>)
    \<and> image @ carried rx = carried (eng_rx e) @ new \<and> (image = [] \<or> \<not> active (last image))
    \<and> ring_ok st' \<and> queue_ok st' \<and> inbox st' = inbox st
    \<and> (if length (pending st) < IMG_SLOTS
       then pending st' = pending st @ [(image, if 0 < carry_len (eng_rx e) then Some (carry_len (eng_rx e)) else None)]
         \<and> img_drop st' = img_drop st
       else pending st' = pending st \<and> img_drop st' = img_drop st + 1)"
    using irq_image [OF assms(1,3,4,5,6,7)] by blast
  then show "\<exists>image rx st'. DMA_IRQ_0 stall (Some new) st = Some st' \<and> engine st' = Some (e\<lparr>eng_rx := rx\<rparr>)
      \<and> image @ carried rx = carried (eng_rx e) @ new
      \<and> ring_ok st' \<and> inbox_ok st' \<and> queue_ok st'
      \<and> (if length (pending st) < IMG_SLOTS
         then map fst (pending st') = map fst (pending st) @ [image] \<and> img_drop st' = img_drop st
         else pending st' = pending st \<and> img_drop st' = img_drop st + 1)"
    using assms(2) by (intro exI [of _ image] exI [of _ rx] exI [of _ st']) (simp add: inbox_ok_def)
  obtain st' where d: "drain_rx_images st = Some st'" "img_r st' = img_w st" "img_w st' = img_w st"
    using drain_total [OF assms(1,2)] by blast
  then have "pending st' = []" by (simp add: pending_def)
  moreover have "our_address st = our_mac e" using assms(4) by (simp add: our_address_def)
  ultimately show "\<exists>st'. drain_rx_images st = decode_images (our_mac e) (pending st) st
        \<and> drain_rx_images st = Some st' \<and> pending st' = []"
    using d(1) drain_decodes [OF assms(1-3)] by simp
qed

definition booted :: rx_state where
  "booted = snd (install_rx rx_boot quiet_rx [2, 0, 0, 0, 0, 1])"

lemma booted_ok: "ring_ok booted" "inbox_ok booted" "queue_ok booted"
  "engine booted = Some \<lparr>eng_rx = quiet_rx, our_mac = [2, 0, 0, 0, 0, 1]\<rparr>" "pending booted = []" "img_w booted = 0"
  using quiet_rx_ok(1)
  by (simp_all add: booted_def install_rx_def rx_boot_def ring_ok_def inbox_ok_def queue_ok_def pending_def
      carry_ok_def quiet_rx_def IMG_SLOTS_def)

theorem ring_is_queue_witness:
  "\<exists>image st'. DMA_IRQ_0 True (Some (replicate BUF_BYTES 0)) booted = Some st'
    \<and> map fst (pending st') = [image]"
proof -
  have e: "\<not> swallowed (eng_rx \<lparr>eng_rx = quiet_rx, our_mac = [2, 0, 0, 0, 0, 1]\<rparr>) (replicate BUF_BYTES 0)"
    using quiet_rx_ok(3) by simp
  have w: "unat (img_w booted) + 1 < 2 ^ 32" by (simp add: booted_ok(6))
  show ?thesis
    using ring_is_queue [OF booted_ok(1-4) _ e w, of True] booted_ok(5) by (auto simp: IMG_SLOTS_def)
qed

text \<open>C5. The receive path is safe and publishes only sound frames. From any state whose buffers have their sizes
  and whose inbox is sound, decoding all waiting images returns, without a panic or a read outside
  a buffer; scanning one image counts each decoded frame as passed or failed, never both or neither; and
  afterwards the inbox still holds at most four frames, each at most 1600 bytes with a
  correct check sequence at its end.\<close>

theorem receive_path_sound:
  assumes "ring_ok st" and "inbox_ok st"
  shows "(\<exists>st'. drain_rx_images st = Some st' \<and> ring_ok st' \<and> inbox_ok st' \<and> img_r st' = img_w st')
    \<and> (\<exists>acc st'. scan_runs our bs stitch_cl delta_new st = Some (acc, st')
        \<and> acc_decoded acc = acc_ok acc + acc_fail acc \<and> inbox_ok st')
    \<and> inbox_ok (snd (pop_inbox st))"
proof (intro conjI)
  show "\<exists>st'. drain_rx_images st = Some st' \<and> ring_ok st' \<and> inbox_ok st' \<and> img_r st' = img_w st'"
    using drain_total [OF assms] by auto
  obtain acc st' where "scan_from our bs stitch_cl 0 delta_new st = Some (acc, st')" "inbox_ok st'"
    "acc_decoded acc - (acc_ok acc + acc_fail acc) = acc_decoded delta_new - (acc_ok delta_new + acc_fail delta_new)"
    using scan_total [OF assms(2)] by blast
  then show "\<exists>acc st'. scan_runs our bs stitch_cl delta_new st = Some (acc, st')
        \<and> acc_decoded acc = acc_ok acc + acc_fail acc \<and> inbox_ok st'"
    by (simp add: scan_runs_def delta_new_def)
  show "inbox_ok (snd (pop_inbox st))"
    using assms(2) by (cases "inbox st") (auto simp: pop_inbox_def inbox_ok_def)
qed

theorem receive_path_sound_witness:
  "(\<exists>st'. drain_rx_images booted = Some st' \<and> img_r st' = img_w st')
    \<and> inbox_ok (snd (pop_inbox booted))"
  using receive_path_sound [OF booted_ok(1,2), where our = "[2, 0, 0, 0, 0, 1]" and bs = "[1, 2, 3]" and stitch_cl = None]
  by auto

end
