(* ===== verification/EthMac.thy ===== *)
theory EthMac
  imports RxRing
begin

text \<open>
  The \<^verbatim>\<open>phy::Device\<close> of \<^verbatim>\<open>src/eth_mac.rs\<close>: receive tokens that own a frame of the inbox, transmit tokens that fill
  the buffer, count the frame by kind and send it. What smoltcp writes into the buffer is a parameter,
  a function on byte lists that keeps the length.
\<close>

definition MTU :: nat where "MTU = 1500"

record eth_mac_stats =
  rx_handed_out :: u32
  tx_handed_out :: u32
  tx_consumed :: u32
  tx_arp :: u32
  tx_icmp :: u32
  tx_udp :: u32
  tx_other :: u32
  last_tx_len :: u16
  last_tx :: bytes

definition mac_stats_default :: eth_mac_stats where
  "mac_stats_default = \<lparr>rx_handed_out = 0, tx_handed_out = 0, tx_consumed = 0, tx_arp = 0, tx_icmp = 0,
     tx_udp = 0, tx_other = 0, last_tx_len = 0, last_tx = replicate 128 0\<rparr>"

record eth_mac =
  mac_tx :: eth_tx
  tx_buf :: bytes
  mac_stats :: eth_mac_stats

definition mac_new :: "eth_tx \<Rightarrow> eth_mac" where
  "mac_new tx = \<lparr>mac_tx = tx, tx_buf = replicate MAX_FRAME_BYTES 0, mac_stats = mac_stats_default\<rparr>"

definition mac_send_nlp :: "line \<Rightarrow> eth_mac \<Rightarrow> eth_mac option" where
  "mac_send_nlp hw mac = map_option (\<lambda>tx. mac\<lparr>mac_tx := tx\<rparr>) (send_nlp hw (mac_tx mac))"

definition mac_send_udp_broadcast :: "line \<Rightarrow> eth_mac \<Rightarrow> udp_endpoint \<Rightarrow> bytes \<Rightarrow> eth_mac option" where
  "mac_send_udp_broadcast hw mac ep payload =
     map_option (\<lambda>tx. mac\<lparr>mac_tx := tx\<rparr>) (send_udp_broadcast hw (mac_tx mac) ep payload)"

text \<open>A receive token is its frame; a transmit token borrows the device.\<close>

definition mac_receive :: "eth_mac \<Rightarrow> rx_state \<Rightarrow> bytes option \<times> eth_mac \<times> rx_state" where
  "mac_receive mac st =
     (case pop_inbox st of
        (None, st) \<Rightarrow> (None, mac, st)
      | (Some buf, st) \<Rightarrow>
          (Some buf, mac\<lparr>mac_stats := (mac_stats mac)\<lparr>rx_handed_out := rx_handed_out (mac_stats mac) + 1\<rparr>\<rparr>, st))"

definition mac_transmit :: "eth_mac \<Rightarrow> eth_mac" where
  "mac_transmit mac = mac\<lparr>mac_stats := (mac_stats mac)\<lparr>tx_handed_out := tx_handed_out (mac_stats mac) + 1\<rparr>\<rparr>"

text \<open>The counting in \<^verbatim>\<open>EthTxToken::consume\<close>.\<close>

definition categorize :: "bytes \<Rightarrow> eth_mac_stats \<Rightarrow> eth_mac_stats" where
  "categorize body s =
     (let len = length body
      in if len \<ge> 14 then
           (let ethertype = be16 (body ! 12) (body ! 13)
            in if ethertype = 0x0806 then s\<lparr>tx_arp := tx_arp s + 1\<rparr>
               else if ethertype = 0x0800 \<and> len \<ge> 24 then
                 (if body ! 23 = 1 then
                    (let snap_n = min len (length (last_tx s))
                     in s\<lparr>tx_icmp := tx_icmp s + 1, last_tx := take snap_n body @ drop snap_n (last_tx s),
                          last_tx_len := of_nat len\<rparr>)
                  else if body ! 23 = 17 then s\<lparr>tx_udp := tx_udp s + 1\<rparr>
                  else s\<lparr>tx_other := tx_other s + 1\<rparr>)
               else s\<lparr>tx_other := tx_other s + 1\<rparr>)
         else s)"

definition tx_token_consume :: "line \<Rightarrow> nat \<Rightarrow> (bytes \<Rightarrow> bytes) \<Rightarrow> eth_mac \<Rightarrow> eth_mac option" where
  "tx_token_consume hw len f mac =
     (let len = min len (length (tx_buf mac));
          body = f (take len (tx_buf mac));
          mac = mac\<lparr>tx_buf := body @ drop len (tx_buf mac)\<rparr>;
          mac = mac\<lparr>mac_stats := categorize body (mac_stats mac)\<rparr>
      in do {
        tx \<leftarrow> send_raw_frame hw (mac_tx mac) body;
        let mac = mac\<lparr>mac_tx := tx\<rparr>;
        Some (mac\<lparr>mac_stats := (mac_stats mac)\<lparr>tx_consumed := tx_consumed (mac_stats mac) + 1\<rparr>\<rparr>)
      })"

text \<open>A token whose closure fills the clamped buffer sends it.\<close>

lemma tx_token_consume_ok:
  assumes "drains hw" and "length (tx_buf mac) = MAX_FRAME_BYTES"
    and body: "length (f (take (min len MAX_FRAME_BYTES) (tx_buf mac))) = min len MAX_FRAME_BYTES"
  shows "\<exists>mac'. tx_token_consume hw len f mac = Some mac'
    \<and> (let body = f (take (min len MAX_FRAME_BYTES) (tx_buf mac)); s = mac_stats mac; s' = mac_stats mac'
       in length body = min len MAX_FRAME_BYTES
        \<and> sent (mac_tx mac') = sent (mac_tx mac) @ on_wire (frame_bytes body)
        \<and> tx_consumed s' = tx_consumed s + 1
        \<and> tx_arp s' + tx_icmp s' + tx_udp s' + tx_other s'
          = tx_arp s + tx_icmp s + tx_udp s + tx_other s + (if 14 \<le> length body then 1 else 0)
        \<and> length (tx_buf mac') = MAX_FRAME_BYTES)"
proof -
  define body where "body = f (take (min len MAX_FRAME_BYTES) (tx_buf mac))"
  have body: "length body = min len MAX_FRAME_BYTES" using assms(3) by (simp add: body_def)
  obtain t l where s: "send_raw_frame hw (mac_tx mac) body =
      Some ((mac_tx mac)\<lparr>clock := t, lfsr := l, sent := sent (mac_tx mac) @ on_wire (frame_bytes body)\<rparr>)"
    using send_raw_frame_ok [OF assms(1)] by blast
  have c: "tx_arp (categorize body s) + tx_icmp (categorize body s) + tx_udp (categorize body s) + tx_other (categorize body s)
      = tx_arp s + tx_icmp s + tx_udp s + tx_other s + (if 14 \<le> length body then 1 else 0)"
    "tx_consumed (categorize body s) = tx_consumed s" for s
    by (simp_all add: categorize_def Let_def)
  show ?thesis
    using s body assms(2) c
    by (simp add: tx_token_consume_def Let_def body_def [symmetric])
qed

section \<open>Properties\<close>

text \<open>Handing a frame to the transmitter: whatever length is asked for, the token never panics; it
  clamps the length to its 1600-byte buffer, sends what was written there, counts one frame
  consumed, and counts exactly one category for a frame with an Ethernet header.\<close>

theorem tx_token_sends:
  assumes "drains hw" and "length (tx_buf mac) = MAX_FRAME_BYTES" and "\<forall>xs. length (f xs) = length xs"
  shows "\<exists>mac'. tx_token_consume hw len f mac = Some mac'
    \<and> (let body = f (take (min len MAX_FRAME_BYTES) (tx_buf mac)); s = mac_stats mac; s' = mac_stats mac'
       in length body = min len MAX_FRAME_BYTES
        \<and> sent (mac_tx mac') = sent (mac_tx mac) @ on_wire (frame_bytes body)
        \<and> tx_consumed s' = tx_consumed s + 1
        \<and> tx_arp s' + tx_icmp s' + tx_udp s' + tx_other s'
          = tx_arp s + tx_icmp s + tx_udp s + tx_other s + (if 14 \<le> length body then 1 else 0)
        \<and> length (tx_buf mac') = MAX_FRAME_BYTES)"
proof -
  have "length (f (take (min len MAX_FRAME_BYTES) (tx_buf mac))) = min len MAX_FRAME_BYTES"
    using assms(2,3) by simp
  then show ?thesis by (rule tx_token_consume_ok [OF assms(1,2)])
qed

theorem tx_token_sends_witness:
  "\<exists>mac'. tx_token_consume idle_line 2000 (map (\<lambda>b. b + 1)) (mac_new (tx_new 0)) = Some mac'
    \<and> tx_consumed (mac_stats mac') = 1 \<and> tx_other (mac_stats mac') + tx_arp (mac_stats mac')
      + tx_icmp (mac_stats mac') + tx_udp (mac_stats mac') = 1"
  using tx_token_sends [OF drains_idle_line, of "mac_new (tx_new 0)" "map (\<lambda>b. b + 1)" 2000]
  by (auto simp: mac_new_def mac_stats_default_def MAX_FRAME_BYTES_def Let_def ac_simps)

end
