(* ===== verification/Conntrack.thy ===== *)
theory Conntrack
  imports Checksum
begin

text \<open>
  The NAPT connection-tracking table of \<^verbatim>\<open>src/conntrack.rs\<close>: 64 slots and a rolling cursor over
  the WAN ids \<open>NAT_LO..NAT_HI\<close>. The telemetry counters (\<^verbatim>\<open>static AtomicU32\<close>) that the table's
  operations bump are fields of the same record, because only these operations write them.
  Times are the \<^verbatim>\<open>u64\<close> milliseconds of the code, ids are \<^verbatim>\<open>u16\<close>. A slot index is a \<^typ>\<open>nat\<close> below
  \<open>CT_CAP\<close>: the array type \<^verbatim>\<open>[Entry; CT_CAP]\<close> is a list whose length the invariant pins.
\<close>

section \<open>Data\<close>

datatype proto = Tcp | Udp | IcmpEcho

datatype tcp_state = New | Established | Closing

record tuple =
  t_proto :: proto
  src_ip :: ipv4
  src_id :: u16
  dst_ip :: ipv4
  dst_id :: u16

definition NAT_LO :: u16 where "NAT_LO = 49152"
definition NAT_HI :: u16 where "NAT_HI = 65535"
definition CT_CAP :: nat where "CT_CAP = 64"

definition T_TCP_EST :: u64 where "T_TCP_EST = 60000"
definition T_TCP_TRANS :: u64 where "T_TCP_TRANS = 10000"
definition T_UDP :: u64 where "T_UDP = 30000"
definition T_ICMP :: u64 where "T_ICMP = 10000"

definition TCP_FIN :: u8 where "TCP_FIN = 0x01"
definition TCP_SYN :: u8 where "TCP_SYN = 0x02"
definition TCP_RST :: u8 where "TCP_RST = 0x04"

record entry =
  used :: bool
  proto :: proto
  lan_ip :: ipv4
  lan_id :: u16
  remote_ip :: ipv4
  remote_id :: u16
  wan_id :: u16
  last_seen :: u64
  tcp :: tcp_state

definition EMPTY :: entry where
  "EMPTY = \<lparr>used = False, proto = Udp, lan_ip = UNSPECIFIED, lan_id = 0,
     remote_ip = UNSPECIFIED, remote_id = 0, wan_id = 0, last_seen = 0, tcp = New\<rparr>"

record conntrack =
  slots :: "entry list"
  cursor :: u16
  nat_out :: u32
  nat_in :: u32
  nat_new :: u32
  nat_evict :: u32
  nat_drop :: u32
  nat_live :: u32

definition ct_new :: conntrack where
  "ct_new = \<lparr>slots = replicate CT_CAP EMPTY, cursor = NAT_LO,
     nat_out = 0, nat_in = 0, nat_new = 0, nat_evict = 0, nat_drop = 0, nat_live = 0\<rparr>"

section \<open>Operations\<close>

definition addr_words :: "ipv4 \<Rightarrow> u16 \<times> u16" where
  "addr_words ip = (case ip of Ipv4 a b c d \<Rightarrow> (be16 a b, be16 c d))"

definition live_count :: "conntrack \<Rightarrow> nat" where
  "live_count ct = unat (nat_live ct)"

text \<open>\<^verbatim>\<open>u64::saturating_sub\<close>.\<close>

definition sat_sub :: "u64 \<Rightarrow> u64 \<Rightarrow> u64" where
  "sat_sub a b = (if a < b then 0 else a - b)"

definition timeout_ms :: "entry \<Rightarrow> u64" where
  "timeout_ms e =
     (case proto e of
        Udp \<Rightarrow> T_UDP
      | IcmpEcho \<Rightarrow> T_ICMP
      | Tcp \<Rightarrow> (case tcp e of Established \<Rightarrow> T_TCP_EST | _ \<Rightarrow> T_TCP_TRANS))"

definition next_tcp_state :: "tcp_state \<Rightarrow> u8 \<Rightarrow> tcp_state" where
  "next_tcp_state cur flags =
     (if flags AND (TCP_FIN OR TCP_RST) \<noteq> 0 then Closing
      else if flags AND TCP_SYN \<noteq> 0 then (if cur = Closing then cur else New)
      else Established)"

definition id_in_use :: "conntrack \<Rightarrow> u16 \<Rightarrow> bool" where
  "id_in_use ct i = list_ex (\<lambda>s. used s \<and> wan_id s = i) (slots ct)"

primrec alloc_loop :: "nat \<Rightarrow> conntrack \<Rightarrow> u16 option \<times> conntrack" where
  "alloc_loop 0 ct = (None, ct)"
| "alloc_loop (Suc n) ct =
     (let i = cursor ct;
          ct' = ct\<lparr>cursor := (if cursor ct = NAT_HI then NAT_LO else cursor ct + 1)\<rparr>
      in if \<not> id_in_use ct' i then (Some i, ct') else alloc_loop n ct')"

definition alloc_id :: "conntrack \<Rightarrow> u16 option \<times> conntrack" where
  "alloc_id ct = (let span = unat (ucast (NAT_HI - NAT_LO) + 1 :: u32) in alloc_loop span ct)"

definition expired :: "u64 \<Rightarrow> entry \<Rightarrow> bool" where
  "expired now_ms s \<longleftrightarrow> timeout_ms s \<le> sat_sub now_ms (last_seen s)"

definition lru_slot :: "entry list \<Rightarrow> nat" where
  "lru_slot sl =
     foldl (\<lambda>best i. if last_seen (sl ! i) < last_seen (sl ! best) then i else best)
       0 [1..<CT_CAP]"

definition pick_slot :: "conntrack \<Rightarrow> u64 \<Rightarrow> nat" where
  "pick_slot ct now_ms =
     (case position (\<lambda>s. \<not> used s) (slots ct) of
        Some i \<Rightarrow> i
      | None \<Rightarrow> (case position (expired now_ms) (slots ct) of
                   Some i \<Rightarrow> i
                 | None \<Rightarrow> lru_slot (slots ct)))"

definition flow_match :: "tuple \<Rightarrow> entry \<Rightarrow> bool" where
  "flow_match t s \<longleftrightarrow> used s \<and> proto s = t_proto t \<and> lan_ip s = src_ip t \<and> lan_id s = src_id t
     \<and> remote_ip s = dst_ip t \<and> remote_id s = dst_id t"

definition touch :: "u8 \<Rightarrow> u64 \<Rightarrow> entry \<Rightarrow> entry" where
  "touch flags now_ms s = s\<lparr>last_seen := now_ms, tcp := next_tcp_state (tcp s) flags\<rparr>"

definition new_entry :: "tuple \<Rightarrow> u16 \<Rightarrow> u8 \<Rightarrow> u64 \<Rightarrow> entry" where
  "new_entry t i flags now_ms =
     \<lparr>used = True, proto = t_proto t, lan_ip = src_ip t, lan_id = src_id t,
      remote_ip = dst_ip t, remote_id = dst_id t, wan_id = i, last_seen = now_ms,
      tcp = next_tcp_state New flags\<rparr>"

definition outbound :: "conntrack \<Rightarrow> tuple \<Rightarrow> u8 \<Rightarrow> u64 \<Rightarrow> u16 option \<times> conntrack" where
  "outbound ct t tcp_flags now_ms =
     (case position (flow_match t) (slots ct) of
        Some i \<Rightarrow>
          (Some (wan_id (slots ct ! i)),
           ct\<lparr>slots := (slots ct)[i := touch tcp_flags now_ms (slots ct ! i)],
              nat_out := nat_out ct + 1\<rparr>)
      | None \<Rightarrow>
          (case alloc_id ct of
             (None, ct1) \<Rightarrow> (None, ct1\<lparr>nat_drop := nat_drop ct1 + 1\<rparr>)
           | (Some i, ct1) \<Rightarrow>
               (let idx = pick_slot ct1 now_ms;
                    ct2 = (if \<not> used (slots ct1 ! idx)
                           then ct1\<lparr>nat_live := nat_live ct1 + 1\<rparr>
                           else ct1\<lparr>nat_evict := nat_evict ct1 + 1\<rparr>)
                in (Some i,
                    ct2\<lparr>slots := (slots ct2)[idx := new_entry t i tcp_flags now_ms],
                        nat_new := nat_new ct2 + 1, nat_out := nat_out ct2 + 1\<rparr>))))"

definition reply_match :: "proto \<Rightarrow> ipv4 \<Rightarrow> u16 \<Rightarrow> u16 \<Rightarrow> u64 \<Rightarrow> entry \<Rightarrow> bool" where
  "reply_match pr rip rid wid now_ms s \<longleftrightarrow> used s \<and> proto s = pr \<and> wan_id s = wid
     \<and> remote_ip s = rip \<and> remote_id s = rid \<and> sat_sub now_ms (last_seen s) < timeout_ms s"

definition inbound ::
  "conntrack \<Rightarrow> proto \<Rightarrow> ipv4 \<Rightarrow> u16 \<Rightarrow> u16 \<Rightarrow> u8 \<Rightarrow> u64 \<Rightarrow> (ipv4 \<times> u16) option \<times> conntrack" where
  "inbound ct pr rip rid wid tcp_flags now_ms =
     (case position (reply_match pr rip rid wid now_ms) (slots ct) of
        Some i \<Rightarrow>
          (Some (lan_ip (slots ct ! i), lan_id (slots ct ! i)),
           ct\<lparr>slots := (slots ct)[i := touch tcp_flags now_ms (slots ct ! i)],
              nat_in := nat_in ct + 1\<rparr>)
      | None \<Rightarrow> (None, ct))"

primrec reap_loop :: "u64 \<Rightarrow> entry list \<Rightarrow> u32 \<Rightarrow> u32 \<Rightarrow> entry list \<times> u32 \<times> u32" where
  "reap_loop now_ms [] live ev = ([], live, ev)"
| "reap_loop now_ms (s # sl) live ev =
     (if used s \<and> expired now_ms s
      then (case reap_loop now_ms sl (live - 1) (ev + 1) of
              (sl', r) \<Rightarrow> (s\<lparr>used := False\<rparr> # sl', r))
      else (case reap_loop now_ms sl live ev of (sl', r) \<Rightarrow> (s # sl', r)))"

definition reap :: "conntrack \<Rightarrow> u64 \<Rightarrow> conntrack" where
  "reap ct now_ms =
     (case reap_loop now_ms (slots ct) (nat_live ct) (nat_evict ct) of
        (sl, live, ev) \<Rightarrow> ct\<lparr>slots := sl, nat_live := live, nat_evict := ev\<rparr>)"

section \<open>Invariant\<close>

text \<open>A key that no two used slots share.\<close>

definition uniq :: "(entry \<Rightarrow> 'k) \<Rightarrow> entry list \<Rightarrow> bool" where
  "uniq key sl \<longleftrightarrow> (\<forall>i < length sl. \<forall>j < length sl.
     used (sl ! i) \<and> used (sl ! j) \<and> key (sl ! i) = key (sl ! j) \<longrightarrow> i = j)"

definition flow_key :: "entry \<Rightarrow> proto \<times> ipv4 \<times> u16 \<times> ipv4 \<times> u16" where
  "flow_key e = (proto e, lan_ip e, lan_id e, remote_ip e, remote_id e)"

definition n_used :: "entry list \<Rightarrow> nat" where
  "n_used sl = length (filter used sl)"

definition ct_inv :: "conntrack \<Rightarrow> bool" where
  "ct_inv ct \<longleftrightarrow> length (slots ct) = CT_CAP \<and> NAT_LO \<le> cursor ct
     \<and> (\<forall>e \<in> set (slots ct). used e \<longrightarrow> NAT_LO \<le> wan_id e)
     \<and> uniq wan_id (slots ct) \<and> uniq flow_key (slots ct)
     \<and> nat_live ct = of_nat (n_used (slots ct))"

lemma ct_invD:
  assumes "ct_inv ct"
  shows "length (slots ct) = CT_CAP" "NAT_LO \<le> cursor ct"
    "uniq wan_id (slots ct)" "uniq flow_key (slots ct)"
    "nat_live ct = of_nat (n_used (slots ct))"
    "\<And>e. e \<in> set (slots ct) \<Longrightarrow> used e \<Longrightarrow> NAT_LO \<le> wan_id e"
  using assms by (auto simp: ct_inv_def)

lemma uniqD:
  "uniq key sl \<Longrightarrow> i < length sl \<Longrightarrow> j < length sl \<Longrightarrow> used (sl ! i) \<Longrightarrow> used (sl ! j) \<Longrightarrow>
     key (sl ! i) = key (sl ! j) \<Longrightarrow> i = j"
  by (auto simp: uniq_def)

lemma uniq_update:
  assumes "uniq key sl"
    and "\<And>j. j < length sl \<Longrightarrow> j \<noteq> i \<Longrightarrow> used x \<Longrightarrow> used (sl ! j) \<Longrightarrow> key (sl ! j) \<noteq> key x"
  shows "uniq key (sl[i := x])"
  unfolding uniq_def
proof (intro allI impI, elim conjE)
  fix a b
  assume len: "a < length (sl[i := x])" "b < length (sl[i := x])"
    and "used (sl[i := x] ! a)" "used (sl[i := x] ! b)"
    and "key (sl[i := x] ! a) = key (sl[i := x] ! b)"
  with assms(2) [of a] assms(2) [of b] uniqD [OF assms(1), of a b] show "a = b"
    by (cases "a = i"; cases "b = i") auto
qed

lemma uniq_update_same:
  assumes "uniq key sl" and "i < length sl" and "used (sl ! i)" and "key x = key (sl ! i)"
  shows "uniq key (sl[i := x])"
proof (rule uniq_update [OF assms(1)])
  fix j assume "j < length sl" "j \<noteq> i" "used (sl ! j)"
  then show "key (sl ! j) \<noteq> key x"
    using uniqD [OF assms(1), of j i] assms by auto
qed

lemma n_used_update:
  "i < length sl \<Longrightarrow> n_used (sl[i := x]) + (if used (sl ! i) then 1 else 0)
     = n_used sl + (if used x then 1 else 0)"
  unfolding n_used_def by (rule count_update)

lemma n_used_le: "n_used sl \<le> length sl"
  by (simp add: n_used_def)

lemma live_count_eq:
  assumes "ct_inv ct"
  shows "live_count ct = n_used (slots ct)"
proof -
  have "n_used (slots ct) < 2 ^ 32"
    using n_used_le [of "slots ct"] ct_invD(1) [OF assms] by (simp add: CT_CAP_def)
  then show ?thesis
    using ct_invD(5) [OF assms] by (simp add: live_count_def unsigned_of_nat take_bit_nat_eq_self)
qed

lemma touch_simps [simp]:
  "used (touch fl now s) = used s" "wan_id (touch fl now s) = wan_id s"
  "flow_key (touch fl now s) = flow_key s" "last_seen (touch fl now s) = now"
  "lan_ip (touch fl now s) = lan_ip s" "lan_id (touch fl now s) = lan_id s"
  "proto (touch fl now s) = proto s" "remote_ip (touch fl now s) = remote_ip s"
  "remote_id (touch fl now s) = remote_id s"
  by (simp_all add: touch_def flow_key_def)

lemma new_entry_simps [simp]:
  "used (new_entry t i fl now)" "wan_id (new_entry t i fl now) = i"
  "flow_key (new_entry t i fl now) = (t_proto t, src_ip t, src_id t, dst_ip t, dst_id t)"
  "last_seen (new_entry t i fl now) = now" "lan_ip (new_entry t i fl now) = src_ip t"
  "lan_id (new_entry t i fl now) = src_id t" "proto (new_entry t i fl now) = t_proto t"
  "remote_ip (new_entry t i fl now) = dst_ip t" "remote_id (new_entry t i fl now) = dst_id t"
  by (simp_all add: new_entry_def flow_key_def)

lemma flow_match_key:
  "flow_match t s \<longleftrightarrow> used s \<and> flow_key s = (t_proto t, src_ip t, src_id t, dst_ip t, dst_id t)"
  by (auto simp: flow_match_def flow_key_def)

lemma ct_inv_new: "ct_inv ct_new"
  by (auto simp: ct_inv_def ct_new_def uniq_def n_used_def EMPTY_def)

text \<open>Refreshing a used slot keeps the invariant, whichever counter moves with it.\<close>

lemma ct_inv_touch:
  assumes inv: "ct_inv ct" and i: "i < length (slots ct)" and u: "used (slots ct ! i)"
    and ct': "slots ct' = (slots ct)[i := touch fl now (slots ct ! i)]"
      "cursor ct' = cursor ct" "nat_live ct' = nat_live ct"
  shows "ct_inv ct'"
proof -
  have "n_used (slots ct') = n_used (slots ct)"
    using n_used_update [OF i, of "touch fl now (slots ct ! i)"] u ct'(1) by simp
  moreover have "NAT_LO \<le> wan_id e" if "e \<in> set (slots ct')" "used e" for e
  proof -
    from that(1) ct'(1) consider "e = touch fl now (slots ct ! i)" | "e \<in> set (slots ct)"
      by (metis insert_iff set_update_subset_insert subsetD)
    then show ?thesis
      using ct_invD(6) [OF inv] that(2) i u by cases auto
  qed
  moreover have "uniq wan_id (slots ct')" "uniq flow_key (slots ct')"
    unfolding ct'(1) using ct_invD(3,4) [OF inv] i u by (auto intro: uniq_update_same)
  ultimately show ?thesis
    using ct_invD(1,2,5) [OF inv] ct' by (simp add: ct_inv_def)
qed

section \<open>Allocation\<close>

definition next_id :: "u16 \<Rightarrow> u16" where
  "next_id c = (if c = NAT_HI then NAT_LO else c + 1)"

lemma unat_NAT_LO [simp]: "unat NAT_LO = 49152"
  by (simp add: NAT_LO_def)

lemma unat_next_id:
  assumes "NAT_LO \<le> c"
  shows "unat (next_id c) = 49152 + (unat c - 49152 + 1) mod 16384"
proof (cases "c = NAT_HI")
  case True
  then show ?thesis by (simp add: next_id_def NAT_HI_def)
next
  case False
  then have "unat c \<noteq> 65535" by (simp add: NAT_HI_def word_unat_eq_iff)
  with unat_u16_lt [of c] have "unat c < 65535" by linarith
  moreover have "49152 \<le> unat c" using assms by (simp add: word_le_nat_alt)
  ultimately show ?thesis
    using False by (simp add: next_id_def unat_word_ariths)
qed

lemma NAT_LO_le_next_id: "NAT_LO \<le> c \<Longrightarrow> NAT_LO \<le> next_id c"
  by (simp add: word_le_nat_alt unat_next_id)

lemma unat_next_id_iter:
  assumes "NAT_LO \<le> c"
  shows "NAT_LO \<le> (next_id ^^ k) c
    \<and> unat ((next_id ^^ k) c) = 49152 + (unat c - 49152 + k) mod 16384"
proof (induction k)
  case 0
  have "unat c - 49152 < 16384" using unat_u16_lt [of c] by linarith
  with assms show ?case by (simp add: word_le_nat_alt)
next
  case (Suc k)
  then show ?case
    by (simp add: NAT_LO_le_next_id unat_next_id mod_Suc_eq)
qed

lemma id_in_use_iff: "id_in_use ct i \<longleftrightarrow> (\<exists>e \<in> set (slots ct). used e \<and> wan_id e = i)"
  by (simp add: id_in_use_def list_ex_iff)

lemma alloc_loop_Some:
  "alloc_loop n ct = (Some i, ct') \<Longrightarrow> NAT_LO \<le> cursor ct \<Longrightarrow>
     \<exists>c. ct' = ct\<lparr>cursor := c\<rparr> \<and> NAT_LO \<le> c \<and> NAT_LO \<le> i \<and> \<not> id_in_use ct i"
proof (induction n arbitrary: ct)
  case (Suc n)
  let ?ct1 = "ct\<lparr>cursor := next_id (cursor ct)\<rparr>"
  have use: "id_in_use ?ct1 i = id_in_use ct i" for i by (simp add: id_in_use_def)
  show ?case
  proof (cases "id_in_use ct (cursor ct)")
    case True
    with Suc.prems have "alloc_loop n ?ct1 = (Some i, ct')"
      by (simp add: Let_def use flip: next_id_def)
    moreover have "NAT_LO \<le> cursor ?ct1"
      using Suc.prems(2) by (simp add: NAT_LO_le_next_id)
    ultimately show ?thesis
      using Suc.IH [of ?ct1] by (auto simp: use)
  next
    case False
    with Suc.prems show ?thesis
      by (auto simp: Let_def use NAT_LO_le_next_id simp flip: next_id_def)
  qed
qed simp

lemma alloc_loop_None:
  "alloc_loop n ct = (None, ct') \<Longrightarrow> k < n \<Longrightarrow> id_in_use ct ((next_id ^^ k) (cursor ct))"
proof (induction n arbitrary: ct k)
  case (Suc n)
  let ?ct1 = "ct\<lparr>cursor := next_id (cursor ct)\<rparr>"
  have use: "id_in_use ?ct1 i = id_in_use ct i" for i by (simp add: id_in_use_def)
  from Suc.prems have here: "id_in_use ct (cursor ct)" and "alloc_loop n ?ct1 = (None, ct')"
    by (auto simp: Let_def use simp flip: next_id_def split: if_splits)
  with Suc.IH [of ?ct1] Suc.prems(2) show ?case
    by (cases k) (simp_all add: use funpow_swap1)
qed simp

lemma mod_window_inj:
  fixes a b c n :: nat
  assumes eq: "(c + a) mod n = (c + b) mod n" and lt: "a < n" "b < n"
  shows "a = b"
proof -
  have le: "y \<le> x" if "(c + x) mod n = (c + y) mod n" "y < n" "x < n" for x y
  proof (rule ccontr)
    assume "\<not> y \<le> x"
    then have "n dvd (c + y) - (c + x)"
      using that(1) by (simp only: mod_eq_dvd_iff_nat [symmetric])
    then have "n dvd y - x" by simp
    with \<open>\<not> y \<le> x\<close> that(2) show False by (simp add: nat_dvd_not_less)
  qed
  from le [OF eq lt(2,1)] le [OF eq [symmetric] lt] show ?thesis by simp
qed

text \<open>64 slots cannot hold 65 different ids, so 65 probes always find a free one.\<close>

lemma alloc_loop_succeeds:
  assumes lo: "NAT_LO \<le> cursor ct" and len: "length (slots ct) = CT_CAP" and n: "CT_CAP < n"
  shows "\<exists>i ct'. alloc_loop n ct = (Some i, ct')"
proof (rule ccontr)
  assume "\<not> ?thesis"
  then obtain ct' where none: "alloc_loop n ct = (None, ct')"
    by (metis not_None_eq surj_pair)
  let ?f = "\<lambda>k. (next_id ^^ k) (cursor ct)"
  have "inj_on ?f {..CT_CAP}"
  proof (rule inj_onI)
    fix a b assume ab: "a \<in> {..CT_CAP}" "b \<in> {..CT_CAP}" and "?f a = ?f b"
    then have "(unat (cursor ct) - 49152 + a) mod 16384 = (unat (cursor ct) - 49152 + b) mod 16384"
      using unat_next_id_iter [OF lo, of a] unat_next_id_iter [OF lo, of b] by simp
    then show "a = b"
      by (rule mod_window_inj) (use ab in \<open>simp_all add: CT_CAP_def\<close>)
  qed
  moreover have "?f ` {..CT_CAP} \<subseteq> wan_id ` set (slots ct)"
  proof
    fix w assume "w \<in> ?f ` {..CT_CAP}"
    then obtain k where "w = ?f k" "k < n" using n by auto
    then have "id_in_use ct w" using alloc_loop_None [OF none] by simp
    then show "w \<in> wan_id ` set (slots ct)" by (auto simp: id_in_use_iff)
  qed
  ultimately have "card {..CT_CAP} \<le> card (wan_id ` set (slots ct))"
    by (metis card_inj_on_le finite_imageI finite_set)
  also have "\<dots> \<le> length (slots ct)"
    by (meson card_image_le card_length finite_set order_trans)
  finally show False using len by simp
qed

lemma alloc_id_succeeds:
  assumes "ct_inv ct"
  obtains i c where "alloc_id ct = (Some i, ct\<lparr>cursor := c\<rparr>)"
    "NAT_LO \<le> c" "NAT_LO \<le> i" "\<not> id_in_use ct i"
proof -
  have "alloc_id ct = alloc_loop 16384 ct"
    by (simp add: alloc_id_def NAT_LO_def NAT_HI_def)
  moreover obtain i ct' where "alloc_loop 16384 ct = (Some i, ct')"
    using alloc_loop_succeeds [of ct 16384] ct_invD(1,2) [OF assms] by (auto simp: CT_CAP_def)
  ultimately show thesis
    using alloc_loop_Some ct_invD(2) [OF assms] that by metis
qed

section \<open>Slot choice\<close>

lemma lru_loop:
  fixes sl :: "entry list"
  assumes "0 < n"
  defines "best \<equiv> foldl (\<lambda>best i. if last_seen (sl ! i) < last_seen (sl ! best) then i else best) 0 [1..<n]"
  shows "best < n \<and> (\<forall>j < n. last_seen (sl ! best) \<le> last_seen (sl ! j))"
  using assms(1) unfolding best_def
proof (induction n)
  case (Suc n)
  show ?case
  proof (cases "n = 0")
    case False
    with Suc.IH show ?thesis
      by (auto simp: less_Suc_eq intro: less_imp_le order_trans)
  qed simp
qed simp

lemma lru_slot_least:
  "lru_slot sl < CT_CAP \<and> (\<forall>j < CT_CAP. last_seen (sl ! lru_slot sl) \<le> last_seen (sl ! j))"
  unfolding lru_slot_def by (rule lru_loop) (simp add: CT_CAP_def)

lemma pick_slot_lt:
  "length (slots ct) = CT_CAP \<Longrightarrow> pick_slot ct now < CT_CAP"
  using lru_slot_least [of "slots ct"]
  by (auto simp: pick_slot_def dest!: position_SomeD split: option.splits)

lemma pick_slot_cong: "slots ct = slots ct' \<Longrightarrow> pick_slot ct now = pick_slot ct' now"
  unfolding pick_slot_def by (simp only:)

section \<open>What each operation does to the table\<close>

lemma outbound_hit:
  assumes "position (flow_match t) (slots ct) = Some i"
  shows "outbound ct t fl now = (Some (wan_id (slots ct ! i)),
     ct\<lparr>slots := (slots ct)[i := touch fl now (slots ct ! i)], nat_out := nat_out ct + 1\<rparr>)"
  using assms by (simp add: outbound_def)

lemma outbound_miss:
  fixes now :: u64
  assumes inv: "ct_inv ct" and miss: "position (flow_match t) (slots ct) = None"
  defines "idx \<equiv> pick_slot ct now"
  obtains i ct' where "outbound ct t fl now = (Some i, ct')"
    "slots ct' = (slots ct)[idx := new_entry t i fl now]" "NAT_LO \<le> cursor ct'"
    "nat_live ct' = (if used (slots ct ! idx) then nat_live ct else nat_live ct + 1)"
    "nat_drop ct' = nat_drop ct" "NAT_LO \<le> i" "\<not> id_in_use ct i"
proof -
  obtain i c where a: "alloc_id ct = (Some i, ct\<lparr>cursor := c\<rparr>)" "NAT_LO \<le> c" "NAT_LO \<le> i"
    "\<not> id_in_use ct i"
    using alloc_id_succeeds [OF inv] .
  have p: "pick_slot (ct\<lparr>cursor := c\<rparr>) now = idx"
    unfolding idx_def by (rule pick_slot_cong) simp
  let ?ct' = "snd (outbound ct t fl now)"
  have "outbound ct t fl now = (Some i, ?ct')" "slots ?ct' = (slots ct)[idx := new_entry t i fl now]"
    "cursor ?ct' = c" "nat_drop ?ct' = nat_drop ct"
    "nat_live ?ct' = (if used (slots ct ! idx) then nat_live ct else nat_live ct + 1)"
    using miss by (simp_all add: outbound_def a(1) p Let_def)
  with a(2-4) show thesis using that by metis
qed

lemma flow_match_unique:
  assumes "ct_inv ct" and "i < length (slots ct)" and "flow_match t (slots ct ! i)"
  shows "position (flow_match t) (slots ct) = Some i"
proof (rule position_unique [where p = "flow_match t", OF assms(2) assms(3)])
  fix j assume "j < length (slots ct)" "flow_match t (slots ct ! j)"
  then show "j = i"
    using uniqD [OF ct_invD(4) [OF assms(1)], of j i] assms(2,3) by (simp add: flow_match_key)
qed

lemma ct_inv_insert:
  assumes inv: "ct_inv ct" and fresh: "\<not> id_in_use ct i" "NAT_LO \<le> i"
    and miss: "position (flow_match t) (slots ct) = None"
    and idx: "idx < length (slots ct)"
    and ct': "slots ct' = (slots ct)[idx := new_entry t i fl now]" "NAT_LO \<le> cursor ct'"
      "nat_live ct' = (if used (slots ct ! idx) then nat_live ct else nat_live ct + 1)"
  shows "ct_inv ct'"
proof -
  let ?e = "new_entry t i fl now"
  have "uniq wan_id (slots ct')"
    unfolding ct'(1) using fresh(1)
    by (intro uniq_update ct_invD(3) [OF inv]) (auto simp: id_in_use_iff)
  moreover have "uniq flow_key (slots ct')"
    unfolding ct'(1) using miss
    by (intro uniq_update ct_invD(4) [OF inv]) (auto simp: position_None_iff flow_match_key)
  moreover have "nat_live ct' = of_nat (n_used (slots ct'))"
    using n_used_update [OF idx, of ?e] ct_invD(5) [OF inv] ct'(1,3)
    by (cases "used (slots ct ! idx)") (simp_all add: add.commute)
  moreover have "NAT_LO \<le> wan_id e" if "e \<in> set (slots ct')" "used e" for e
  proof -
    from that(1) ct'(1) consider "e = ?e" | "e \<in> set (slots ct)"
      by (metis insert_iff set_update_subset_insert subsetD)
    then show ?thesis
      using ct_invD(6) [OF inv] that(2) fresh(2) by cases auto
  qed
  ultimately show ?thesis
    using ct_invD(1) [OF inv] ct' by (simp add: ct_inv_def)
qed

lemma ct_inv_outbound [inv_intros]:
  assumes inv: "ct_inv ct"
  shows "ct_inv (snd (outbound ct t fl now))"
proof (cases "position (flow_match t) (slots ct)")
  case (Some i)
  with position_SomeD [OF Some] show ?thesis
    by (intro ct_inv_touch [OF inv, of i _ fl now]) (auto simp: outbound_hit flow_match_def)
next
  case None
  have idx: "pick_slot ct now < length (slots ct)"
    using pick_slot_lt ct_invD(1) [OF inv] by simp
  obtain i ct' where o: "outbound ct t fl now = (Some i, ct')"
    and ct': "slots ct' = (slots ct)[pick_slot ct now := new_entry t i fl now]" "NAT_LO \<le> cursor ct'"
      "nat_live ct' = (if used (slots ct ! pick_slot ct now) then nat_live ct else nat_live ct + 1)"
    and "NAT_LO \<le> i" "\<not> id_in_use ct i"
    using outbound_miss [OF inv None, of fl now] .
  then show ?thesis
    using ct_inv_insert [OF inv _ _ None idx ct'] by simp
qed

lemma ct_inv_inbound [inv_intros]:
  assumes inv: "ct_inv ct"
  shows "ct_inv (snd (inbound ct pr rip rid wid fl now))"
proof (cases "position (reply_match pr rip rid wid now) (slots ct)")
  case (Some i)
  with position_SomeD [OF Some] show ?thesis
    by (intro ct_inv_touch [OF inv, of i _ fl now]) (auto simp: inbound_def reply_match_def)
qed (simp add: inbound_def inv)

text \<open>The sweep drops exactly the expired slots and keeps the counters in step.\<close>

definition reap_entry :: "u64 \<Rightarrow> entry \<Rightarrow> entry" where
  "reap_entry now s = (if used s \<and> expired now s then s\<lparr>used := False\<rparr> else s)"

lemma reap_loop_eq:
  "reap_loop now sl live ev =
     (map (reap_entry now) sl,
      live - of_nat (length (filter (\<lambda>s. used s \<and> expired now s) sl)),
      ev + of_nat (length (filter (\<lambda>s. used s \<and> expired now s) sl)))"
  by (induction sl arbitrary: live ev) (auto simp: reap_entry_def algebra_simps)

lemma n_used_reap:
  "n_used (map (reap_entry now) sl) + length (filter (\<lambda>s. used s \<and> expired now s) sl) = n_used sl"
  by (induction sl) (auto simp: n_used_def reap_entry_def)

lemma uniq_reap: "uniq key sl \<Longrightarrow> (\<And>s. key (reap_entry now s) = key s) \<Longrightarrow> uniq key (map (reap_entry now) sl)"
  unfolding uniq_def by (auto simp: reap_entry_def split: if_splits)

lemma slots_reap: "slots (reap ct now) = map (reap_entry now) (slots ct)"
  by (simp add: reap_def reap_loop_eq)

lemma ct_inv_reap [inv_intros]:
  assumes inv: "ct_inv ct"
  shows "ct_inv (reap ct now)"
proof -
  have "nat_live (reap ct now) = of_nat (n_used (slots (reap ct now)))"
    unfolding slots_reap using ct_invD(5) [OF inv]
    by (simp add: reap_def reap_loop_eq flip: n_used_reap [of now "slots ct"])
  moreover have "uniq wan_id (slots (reap ct now))" "uniq flow_key (slots (reap ct now))"
    unfolding slots_reap using ct_invD(3,4) [OF inv]
    by (auto intro!: uniq_reap simp: reap_entry_def flow_key_def)
  moreover have "cursor (reap ct now) = cursor ct"
    by (simp add: reap_def reap_loop_eq)
  ultimately show ?thesis
    using ct_invD(1,2,6) [OF inv]
    by (auto simp: ct_inv_def slots_reap reap_entry_def split: if_splits)
qed

section \<open>Runs of the table\<close>

datatype ct_op =
    OpOut tuple u8 u64
  | OpIn proto ipv4 u16 u16 u8 u64
  | OpReap u64

fun ct_step :: "conntrack \<Rightarrow> ct_op \<Rightarrow> conntrack" where
  "ct_step ct (OpOut t fl now) = snd (outbound ct t fl now)"
| "ct_step ct (OpIn pr rip rid wid fl now) = snd (inbound ct pr rip rid wid fl now)"
| "ct_step ct (OpReap now) = reap ct now"

definition ct_run :: "ct_op list \<Rightarrow> conntrack" where
  "ct_run ops = foldl ct_step ct_new ops"

lemma ct_inv_step: "ct_inv ct \<Longrightarrow> ct_inv (ct_step ct c)"
  by (cases c) (auto intro: inv_intros)

lemma ct_inv_run: "ct_inv (ct_run ops)"
proof -
  have "ct_inv ct \<Longrightarrow> ct_inv (foldl ct_step ct ops)" for ct
    by (induction ops arbitrary: ct) (simp_all add: ct_inv_step)
  then show ?thesis by (simp add: ct_run_def ct_inv_new)
qed

section \<open>The abstract table\<close>

text \<open>
  What the table promises, as a partial map from WAN ids to flows
  \<open>(proto, lan_ip, lan_id, remote_ip, remote_id)\<close>.
\<close>

type_synonym flow = "proto \<times> ipv4 \<times> u16 \<times> ipv4 \<times> u16"

definition flow_of :: "tuple \<Rightarrow> flow" where
  "flow_of t = (t_proto t, src_ip t, src_id t, dst_ip t, dst_id t)"

definition flows :: "conntrack \<Rightarrow> u16 \<rightharpoonup> flow" where
  "flows ct w = map_option (\<lambda>i. flow_key (slots ct ! i))
     (position (\<lambda>s. used s \<and> wan_id s = w) (slots ct))"

lemma flows_Some_iff:
  assumes inv: "ct_inv ct"
  shows "flows ct w = Some k \<longleftrightarrow>
    (\<exists>i < length (slots ct). used (slots ct ! i) \<and> wan_id (slots ct ! i) = w \<and> flow_key (slots ct ! i) = k)"
    (is "?l \<longleftrightarrow> ?r")
proof
  assume ?l
  then show ?r by (auto simp: flows_def dest: position_SomeD)
next
  let ?p = "\<lambda>s. used s \<and> wan_id s = w"
  assume ?r
  then obtain i where i: "i < length (slots ct)" "?p (slots ct ! i)" "flow_key (slots ct ! i) = k"
    by blast
  have "position ?p (slots ct) = Some i"
  proof (rule position_unique [where p = ?p, OF i(1,2)])
    fix j assume "j < length (slots ct)" "?p (slots ct ! j)"
    then show "j = i" using uniqD [OF ct_invD(3) [OF inv], of j i] i by simp
  qed
  with i(3) show ?l by (simp add: flows_def)
qed

lemma flows_NoneI:
  "ct_inv ct \<Longrightarrow> \<not> id_in_use ct w \<Longrightarrow> flows ct w = None"
  by (auto simp: flows_def position_None_iff id_in_use_iff)

text \<open>Two tables with invariant and the same used slots up to refreshes have the same flows.\<close>

lemma flows_update:
  assumes inv: "ct_inv ct" "ct_inv ct'" and i: "i < length (slots ct)"
    and ct': "slots ct' = (slots ct)[i := e]" and e: "used e"
    and keep: "used (slots ct ! i) \<Longrightarrow> wan_id (slots ct ! i) = wan_id e"
  shows "flows ct' = (flows ct)(wan_id e \<mapsto> flow_key e)"
proof (rule ext)
  fix w
  have "flows ct' w = Some k \<longleftrightarrow> ((flows ct)(wan_id e \<mapsto> flow_key e)) w = Some k" for k
  proof -
    have "flows ct' w = Some k \<longleftrightarrow> (\<exists>j < length (slots ct). used ((slots ct)[i := e] ! j)
        \<and> wan_id ((slots ct)[i := e] ! j) = w \<and> flow_key ((slots ct)[i := e] ! j) = k)"
      by (simp add: flows_Some_iff [OF inv(2)] ct')
    also have "\<dots> \<longleftrightarrow> wan_id e = w \<and> flow_key e = k \<or> (\<exists>j < length (slots ct). j \<noteq> i
        \<and> used (slots ct ! j) \<and> wan_id (slots ct ! j) = w \<and> flow_key (slots ct ! j) = k)"
      using i e by (metis nth_list_update)
    also have "\<dots> \<longleftrightarrow> ((flows ct)(wan_id e \<mapsto> flow_key e)) w = Some k"
    proof (cases "w = wan_id e")
      case True
      have "\<not> (\<exists>j < length (slots ct). j \<noteq> i \<and> used (slots ct ! j) \<and> wan_id (slots ct ! j) = w)"
      proof
        assume "\<exists>j < length (slots ct). j \<noteq> i \<and> used (slots ct ! j) \<and> wan_id (slots ct ! j) = w"
        then obtain j where "j < length (slots ct)" "j \<noteq> i" "used (slots ct ! j)" "wan_id (slots ct ! j) = w"
          by blast
        then show False
          using uniqD [OF ct_invD(3) [OF inv(2)], of i j] True i e ct' by simp
      qed
      with True show ?thesis by auto
    next
      case False
      with keep show ?thesis by (auto simp: flows_Some_iff [OF inv(1)])
    qed
    finally show ?thesis .
  qed
  then show "flows ct' w = ((flows ct)(wan_id e \<mapsto> flow_key e)) w"
    by (metis not_None_eq)
qed

lemma flow_match_flow_of: "flow_match t s \<longleftrightarrow> used s \<and> flow_key s = flow_of t"
  by (simp add: flow_match_key flow_of_def)

text \<open>Whatever its branch, \<open>outbound\<close> leaves one slot holding the flow, stamped \<open>now\<close>.\<close>

lemma outbound_slot_ex:
  assumes inv: "ct_inv ct"
  obtains i j e ct' where "outbound ct t fl now = (Some i, ct')" "j < length (slots ct)"
    "slots ct' = (slots ct)[j := e]" "used e" "wan_id e = i" "flow_key e = flow_of t"
    "last_seen e = now" "NAT_LO \<le> i" "nat_drop ct' = nat_drop ct"
    "position (flow_match t) (slots ct) = Some j \<and> e = touch fl now (slots ct ! j)
     \<or> position (flow_match t) (slots ct) = None \<and> j = pick_slot ct now \<and> \<not> id_in_use ct i"
proof (cases "position (flow_match t) (slots ct)")
  case (Some j)
  note pos = position_SomeD [OF Some]
  let ?e = "touch fl now (slots ct ! j)"
  show thesis
  proof (rule that [OF outbound_hit [OF Some], of j ?e])
    show "NAT_LO \<le> wan_id (slots ct ! j)"
      using pos ct_invD(6) [OF inv, of "slots ct ! j"] by (simp add: flow_match_def)
  qed (use Some pos in \<open>simp_all add: flow_match_flow_of\<close>)
next
  case None
  obtain i ct' where o: "outbound ct t fl now = (Some i, ct')"
    and ct': "slots ct' = (slots ct)[pick_slot ct now := new_entry t i fl now]"
      "nat_drop ct' = nat_drop ct" "NAT_LO \<le> i" "\<not> id_in_use ct i"
    using outbound_miss [OF inv None, of fl now] .
  show thesis
    using that [OF o _ ct'(1)] ct' None pick_slot_lt [OF ct_invD(1) [OF inv], of now] ct_invD(1) [OF inv]
    by (simp add: flow_of_def)
qed

lemma outbound_slot:
  assumes inv: "ct_inv ct" and o: "outbound ct t fl now = (Some i, ct')"
  obtains j e where "j < length (slots ct)"
    "slots ct' = (slots ct)[j := e]" "used e" "wan_id e = i" "flow_key e = flow_of t"
    "last_seen e = now" "NAT_LO \<le> i" "nat_drop ct' = nat_drop ct"
    "position (flow_match t) (slots ct) = Some j \<and> e = touch fl now (slots ct ! j)
     \<or> position (flow_match t) (slots ct) = None \<and> j = pick_slot ct now \<and> \<not> id_in_use ct i"
proof -
  obtain i0 j e ct0 where o0: "outbound ct t fl now = (Some i0, ct0)" and
    *: "j < length (slots ct)" "slots ct0 = (slots ct)[j := e]" "used e" "wan_id e = i0"
    "flow_key e = flow_of t" "last_seen e = now" "NAT_LO \<le> i0" "nat_drop ct0 = nat_drop ct"
    "position (flow_match t) (slots ct) = Some j \<and> e = touch fl now (slots ct ! j)
     \<or> position (flow_match t) (slots ct) = None \<and> j = pick_slot ct now \<and> \<not> id_in_use ct i0"
    using outbound_slot_ex [OF inv, of t fl now] .
  have "i0 = i" "ct0 = ct'" using o o0 by simp_all
  with * show thesis by (intro that [of j e]) simp_all
qed

lemma outbound_flows:
  assumes inv: "ct_inv ct" and o: "outbound ct t fl now = (Some i, ct')"
  shows "flows ct' i = Some (flow_of t)"
    and "flows ct' w = Some k \<Longrightarrow> w = i \<or> flows ct w = Some k"
    and "(\<exists>s \<in> set (slots ct). flow_match t s) \<or> live_count ct < CT_CAP \<Longrightarrow>
      flows ct' = (flows ct)(i \<mapsto> flow_of t)"
proof -
  obtain j e where j: "j < length (slots ct)" and ct': "slots ct' = (slots ct)[j := e]"
    and e: "used e" "wan_id e = i" "flow_key e = flow_of t"
    and how: "position (flow_match t) (slots ct) = Some j \<and> e = touch fl now (slots ct ! j)
     \<or> position (flow_match t) (slots ct) = None \<and> j = pick_slot ct now \<and> \<not> id_in_use ct i"
    using outbound_slot [OF inv o] .
  have inv': "ct_inv ct'" using ct_inv_outbound [OF inv, of t fl now] o by simp
  show "flows ct' i = Some (flow_of t)"
    unfolding flows_Some_iff [OF inv'] using j e ct' by (intro exI [of _ j]) simp
  show "w = i \<or> flows ct w = Some k" if "flows ct' w = Some k"
    using that e ct' unfolding flows_Some_iff [OF inv'] flows_Some_iff [OF inv]
    by (metis length_list_update nth_list_update_eq nth_list_update_neq)
  assume room: "(\<exists>s \<in> set (slots ct). flow_match t s) \<or> live_count ct < CT_CAP"
  have "used (slots ct ! j) \<Longrightarrow> wan_id (slots ct ! j) = wan_id e"
  proof (cases "position (flow_match t) (slots ct)")
    case (Some k)
    then show ?thesis using how by simp
  next
    case None
    with room have "n_used (slots ct) < length (slots ct)"
      using live_count_eq [OF inv] ct_invD(1) [OF inv] by (auto simp: position_None_iff)
    then obtain k where free: "position (\<lambda>s. \<not> used s) (slots ct) = Some k"
      by (metis position_None_iff n_used_def filter_True less_irrefl not_None_eq)
    with how None have "j = k" by (simp add: pick_slot_def)
    with position_SomeD [OF free] show "used (slots ct ! j) \<Longrightarrow> ?thesis" by simp
  qed
  with flows_update [OF inv inv' j ct' e(1)] e show "flows ct' = (flows ct)(i \<mapsto> flow_of t)"
    by simp
qed

lemma reply_match_flow:
  "reply_match pr rip rid w now s \<longleftrightarrow> used s \<and> wan_id s = w
     \<and> (\<exists>lip lid. flow_key s = (pr, lip, lid, rip, rid)) \<and> \<not> expired now s"
  by (auto simp: reply_match_def flow_key_def expired_def not_le)

lemma inbound_Some:
  assumes "fst (inbound ct pr rip rid w fl now) = Some (lip, lid)"
  obtains i where "i < length (slots ct)" "used (slots ct ! i)" "wan_id (slots ct ! i) = w"
    "flow_key (slots ct ! i) = (pr, lip, lid, rip, rid)" "\<not> expired now (slots ct ! i)"
proof (cases "position (reply_match pr rip rid w now) (slots ct)")
  case (Some i)
  with assms position_SomeD [OF Some] show thesis
    by (intro that [of i]) (auto simp: inbound_def reply_match_flow flow_key_def)
qed (use assms in \<open>simp add: inbound_def\<close>)

lemma inbound_SomeI:
  assumes inv: "ct_inv ct" and i: "i < length (slots ct)" "used (slots ct ! i)"
    and key: "flow_key (slots ct ! i) = (pr, lip, lid, rip, rid)" and live: "\<not> expired now (slots ct ! i)"
  shows "fst (inbound ct pr rip rid (wan_id (slots ct ! i)) fl now) = Some (lip, lid)"
proof -
  let ?p = "reply_match pr rip rid (wan_id (slots ct ! i)) now"
  have p: "?p (slots ct ! i)" using i key live by (simp add: reply_match_flow)
  have "position ?p (slots ct) = Some i"
  proof (rule position_unique [where p = ?p, OF i(1) p])
    fix j assume "j < length (slots ct)" "?p (slots ct ! j)"
    then show "j = i"
      using uniqD [OF ct_invD(3) [OF inv], of j i] i by (simp add: reply_match_flow)
  qed
  then show ?thesis using key by (simp add: inbound_def flow_key_def)
qed

lemma timeout_ms_ge: "10000 \<le> timeout_ms e"
  by (simp add: timeout_ms_def T_UDP_def T_ICMP_def T_TCP_EST_def T_TCP_TRANS_def
      split: proto.split tcp_state.split)

lemma outbound_reply:
  assumes inv: "ct_inv ct" and o: "outbound ct t fl now = (Some i, ct')"
    and fresh: "sat_sub now' now < 10000"
  shows "fst (inbound ct' (t_proto t) (dst_ip t) (dst_id t) i fl' now') = Some (src_ip t, src_id t)"
proof -
  obtain j e where j: "j < length (slots ct)" and ct': "slots ct' = (slots ct)[j := e]"
    and e: "used e" "wan_id e = i" "flow_key e = flow_of t" "last_seen e = now"
    using outbound_slot [OF inv o] .
  have inv': "ct_inv ct'" using ct_inv_outbound [OF inv, of t fl now] o by simp
  have "\<not> expired now' e"
    using fresh timeout_ms_ge [of e] e(4) by (simp add: expired_def not_le)
  with inbound_SomeI [OF inv', of j _ _ _ _ _ now' fl'] j ct' e show ?thesis
    by (simp add: flow_of_def)
qed

lemma outbound_total:
  assumes "ct_inv ct"
  obtains i ct' where "outbound ct t fl now = (Some i, ct')" "NAT_LO \<le> i" "nat_drop ct' = nat_drop ct"
  using outbound_slot_ex [OF assms, of t fl now] by metis

text \<open>Refreshing an entry, on either path, changes no flow; the sweep only removes flows.\<close>

lemma flows_inbound:
  assumes inv: "ct_inv ct"
  shows "flows (snd (inbound ct pr rip rid w fl now)) = flows ct"
proof (cases "position (reply_match pr rip rid w now) (slots ct)")
  case (Some i)
  let ?ct' = "snd (inbound ct pr rip rid w fl now)" and ?s = "slots ct ! i"
  have i: "i < length (slots ct)" "used ?s"
    using position_SomeD [OF Some] by (simp_all add: reply_match_def)
  have "slots ?ct' = (slots ct)[i := touch fl now ?s]" using Some by (simp add: inbound_def)
  from flows_update [OF inv ct_inv_inbound [OF inv] i(1) this] i
  have "flows ?ct' = (flows ct)(wan_id ?s \<mapsto> flow_key ?s)" by simp
  moreover have "flows ct (wan_id ?s) = Some (flow_key ?s)"
    using i by (auto simp: flows_Some_iff [OF inv])
  ultimately show ?thesis by (simp add: fun_upd_idem)
qed (simp add: inbound_def)

lemma reap_entry_simps [simp]:
  "used (reap_entry now s) \<longleftrightarrow> used s \<and> \<not> expired now s"
  "wan_id (reap_entry now s) = wan_id s" "flow_key (reap_entry now s) = flow_key s"
  "last_seen (reap_entry now s) = last_seen s"
  by (auto simp: reap_entry_def flow_key_def)

lemma flows_Some_set:
  "ct_inv ct \<Longrightarrow> flows ct w = Some k \<longleftrightarrow> (\<exists>s \<in> set (slots ct). used s \<and> wan_id s = w \<and> flow_key s = k)"
  unfolding flows_Some_iff by (metis in_set_conv_nth)

lemma flows_reap:
  assumes inv: "ct_inv ct"
  shows "flows (reap ct now) w = Some k \<longleftrightarrow>
    (\<exists>s \<in> set (slots ct). used s \<and> wan_id s = w \<and> flow_key s = k \<and> \<not> expired now s)"
  unfolding flows_Some_set [OF ct_inv_reap [OF inv]] slots_reap by auto

section \<open>The contract the forwarder relies on\<close>

text \<open>
  The forwarder calls \<^verbatim>\<open>outbound\<close>, \<^verbatim>\<open>inbound\<close> and \<^verbatim>\<open>reap\<close> only. What it needs of them are laws
  about the table of flows \<open>tab\<close>: an answer of \<open>out\<close> enters one flow and adds no other, \<open>inb\<close> answers
  only from the table and changes none of it, \<open>exp\<close> only forgets.
\<close>

locale nat_table =
  fixes inv :: "'s \<Rightarrow> bool" and s0 :: 's
    and out :: "'s \<Rightarrow> tuple \<Rightarrow> u8 \<Rightarrow> u64 \<Rightarrow> u16 option \<times> 's"
    and inb :: "'s \<Rightarrow> proto \<Rightarrow> ipv4 \<Rightarrow> u16 \<Rightarrow> u16 \<Rightarrow> u8 \<Rightarrow> u64 \<Rightarrow> (ipv4 \<times> u16) option \<times> 's"
    and exp :: "'s \<Rightarrow> u64 \<Rightarrow> 's"
    and tab :: "'s \<Rightarrow> u16 \<rightharpoonup> flow"
  assumes inv_s0: "inv s0" and tab_s0: "tab s0 = Map.empty"
    and inv_out: "inv s \<Longrightarrow> inv (snd (out s t fl now))"
    and inv_inb: "inv s \<Longrightarrow> inv (snd (inb s pr rip rid w fl now))"
    and inv_exp: "inv s \<Longrightarrow> inv (exp s now)"
    and out_total: "inv s \<Longrightarrow> fst (out s t fl now) \<noteq> None"
    and out_tab: "inv s \<Longrightarrow> out s t fl now = (Some i, s') \<Longrightarrow> tab s' i = Some (flow_of t)"
    and out_other: "inv s \<Longrightarrow> out s t fl now = (Some i, s') \<Longrightarrow> tab s' w = Some k \<Longrightarrow> w \<noteq> i \<Longrightarrow>
      tab s w = Some k"
    and out_known: "inv s \<Longrightarrow> out s t fl now = (Some i, s') \<Longrightarrow> tab s w = Some k \<Longrightarrow>
      w = i \<longleftrightarrow> k = flow_of t"
    and inb_tab: "inv s \<Longrightarrow> tab (snd (inb s pr rip rid w fl now)) = tab s"
    and inb_Some: "inv s \<Longrightarrow> fst (inb s pr rip rid w fl now) = Some (lip, lid) \<Longrightarrow>
      tab s w = Some (pr, lip, lid, rip, rid)"
    and exp_tab: "inv s \<Longrightarrow> tab (exp s now) w = Some k \<Longrightarrow> tab s w = Some k"
begin

fun step :: "'s \<Rightarrow> ct_op \<Rightarrow> 's" where
  "step s (OpOut t fl now) = snd (out s t fl now)"
| "step s (OpIn pr rip rid w fl now) = snd (inb s pr rip rid w fl now)"
| "step s (OpReap now) = exp s now"

definition run :: "ct_op list \<Rightarrow> 's" where
  "run ops = foldl step s0 ops"

lemma run_snoc: "run (ops @ [c]) = step (run ops) c"
  by (simp add: run_def)

lemma inv_run: "inv (run ops)"
proof (induction ops rule: rev_induct)
  case Nil
  show ?case by (simp add: run_def inv_s0)
next
  case (snoc c ops)
  then show ?case
    by (cases c) (simp_all add: run_snoc inv_out inv_inb inv_exp)
qed

text \<open>Every flow in the table was opened from the LAN side and was told its id then.\<close>

lemma tab_run:
  "tab (run ops) w = Some k \<Longrightarrow>
     \<exists>pre t fl now post. ops = pre @ OpOut t fl now # post \<and> flow_of t = k
       \<and> fst (out (run pre) t fl now) = Some w"
proof (induction ops rule: rev_induct)
  case Nil
  then show ?case by (simp add: run_def tab_s0)
next
  case (snoc c ops)
  show ?case
  proof (cases "tab (run ops) w = Some k")
    case True
    then show ?thesis using snoc.IH by (metis append.assoc append_Cons)
  next
    case new: False
    from snoc.prems inb_tab [OF inv_run] exp_tab [OF inv_run] new
    obtain t fl now where c: "c = OpOut t fl now"
      by (cases c) (auto simp: run_snoc)
    obtain i s' where o: "out (run ops) t fl now = (Some i, s')"
      using out_total [OF inv_run [of ops], of t fl now] by (cases "out (run ops) t fl now") auto
    have t: "tab s' w = Some k" using snoc.prems c o by (simp add: run_snoc)
    with out_other [OF inv_run o t] new have "w = i" by blast
    with t out_tab [OF inv_run o] have "flow_of t = k" by simp
    with c o \<open>w = i\<close> show ?thesis by (metis fst_conv)
  qed
qed

lemma no_unsolicited:
  "fst (inb (run ops) pr rip rid w fl now) = Some (lip, lid) \<Longrightarrow>
     \<exists>pre t fl now post. ops = pre @ OpOut t fl now # post \<and> flow_of t = (pr, lip, lid, rip, rid)
       \<and> fst (out (run pre) t fl now) = Some w"
  by (rule tab_run [OF inb_Some [OF inv_run]])

lemma ids_separate_flows:
  assumes "out (run ops) t1 fl1 now1 = (i, s1)" and "out s1 t2 fl2 now2 = (j, s2)"
  shows "i = j \<longleftrightarrow> flow_of t1 = flow_of t2"
proof -
  have s1: "inv s1" using inv_out [OF inv_run, of ops t1 fl1 now1] assms(1) by simp
  obtain a b where ab: "i = Some a" "j = Some b"
    using out_total [OF inv_run [of ops], of t1 fl1 now1] out_total [OF s1, of t2 fl2 now2] assms by auto
  have "tab s1 a = Some (flow_of t1)" using out_tab [OF inv_run] assms(1) ab by blast
  from out_known [OF s1 _ this] assms(2) ab show ?thesis by simp
qed

end

lemma nat_tableI: "nat_table ct_inv ct_new outbound inbound reap flows"
proof (rule nat_table.intro)
  show "ct_inv ct_new" by (rule ct_inv_new)
  show "flows ct_new = Map.empty"
    by (rule ext) (simp add: flows_def position_None_iff ct_new_def EMPTY_def)
next
  fix ct :: conntrack and t fl now
  assume inv: "ct_inv ct"
  show "ct_inv (snd (outbound ct t fl now))" by (rule ct_inv_outbound [OF inv])
  obtain i ct' where "outbound ct t fl now = (Some i, ct')"
    using outbound_total [OF inv] .
  then show "fst (outbound ct t fl now) \<noteq> None" by simp
next
  fix ct :: conntrack and t fl now
  assume inv: "ct_inv ct"
  fix i ct' assume o: "outbound ct t fl now = (Some i, ct')"
  show "flows ct' i = Some (flow_of t)" by (rule outbound_flows(1) [OF inv o])
  fix w k
  show "flows ct w = Some k" if "flows ct' w = Some k" "w \<noteq> i"
    using outbound_flows(2) [OF inv o that(1)] that(2) by blast
  show "w = i \<longleftrightarrow> k = flow_of t" if wk: "flows ct w = Some k"
  proof -
    obtain a where a: "a < length (slots ct)" "used (slots ct ! a)" "wan_id (slots ct ! a) = w"
      "flow_key (slots ct ! a) = k"
      using wk flows_Some_iff [OF inv] by blast
    obtain j e where j: "wan_id e = i" "flow_key e = flow_of t" "j < length (slots ct)"
      and how: "position (flow_match t) (slots ct) = Some j \<and> e = touch fl now (slots ct ! j)
       \<or> position (flow_match t) (slots ct) = None \<and> j = pick_slot ct now \<and> \<not> id_in_use ct i"
      using outbound_slot [OF inv o] .
    show ?thesis
    proof (cases "position (flow_match t) (slots ct)")
      case (Some b)
      with how have e: "b = j" "e = touch fl now (slots ct ! j)" by simp_all
      with j have b: "used (slots ct ! j)" "wan_id (slots ct ! j) = i"
        "flow_key (slots ct ! j) = flow_of t"
        using position_SomeD [OF Some] by (simp_all add: flow_match_def)
      have "a = j" if "w = i"
        using uniqD [OF ct_invD(3) [OF inv] a(1) j(3) a(2) b(1)] a(3) b(2) that by simp
      moreover have "a = j" if "k = flow_of t"
        using uniqD [OF ct_invD(4) [OF inv] a(1) j(3) a(2) b(1)] a(4) b(3) that by simp
      ultimately show ?thesis using a(3,4) b(2,3) by blast
    next
      case None
      then have "\<not> flow_match t (slots ct ! a)" using a(1) by (auto simp: position_None_iff)
      moreover have "\<not> id_in_use ct i" using how None by simp
      ultimately have "k \<noteq> flow_of t" "w \<noteq> i"
        using a nth_mem [OF a(1)] by (auto simp: flow_match_flow_of id_in_use_iff)
      then show ?thesis by blast
    qed
  qed
next
  fix ct :: conntrack and pr rip rid w fl now
  assume inv: "ct_inv ct"
  show "ct_inv (snd (inbound ct pr rip rid w fl now))" by (rule ct_inv_inbound [OF inv])
  show "flows (snd (inbound ct pr rip rid w fl now)) = flows ct" by (rule flows_inbound [OF inv])
  fix lip lid assume "fst (inbound ct pr rip rid w fl now) = Some (lip, lid)"
  from inbound_Some [OF this] obtain i where "i < length (slots ct)" "used (slots ct ! i)"
    "wan_id (slots ct ! i) = w" "flow_key (slots ct ! i) = (pr, lip, lid, rip, rid)" .
  then show "flows ct w = Some (pr, lip, lid, rip, rid)"
    unfolding flows_Some_iff [OF inv] by blast
next
  fix ct :: conntrack and now
  assume inv: "ct_inv ct"
  show "ct_inv (reap ct now)" by (rule ct_inv_reap [OF inv])
  show "flows ct w = Some k" if "flows (reap ct now) w = Some k" for w k
    using that by (auto simp: flows_reap [OF inv] flows_Some_set [OF inv])
qed

interpretation nt: nat_table ct_inv ct_new outbound inbound reap flows
  by (rule nat_tableI)

lemma nt_run: "nt.run = ct_run"
proof -
  have "nt.step s c = ct_step s c" for s c by (cases c) simp_all
  then have "nt.step = ct_step" by (intro ext)
  then show ?thesis by (intro ext) (simp add: nt.run_def ct_run_def)
qed

lemmas ct_run_inv = nt.inv_run [unfolded nt_run]
lemmas ct_run_no_unsolicited = nt.no_unsolicited [unfolded nt_run]
lemmas ct_run_ids = nt.ids_separate_flows [unfolded nt_run]

section \<open>Properties\<close>

text \<open>The flow the witnesses use: a LAN client's DNS query.\<close>

definition dns_tuple :: tuple where
  "dns_tuple = \<lparr>t_proto = Udp, src_ip = Ipv4 192 168 4 10, src_id = 5000,
     dst_ip = Ipv4 8 8 8 8, dst_id = 53\<rparr>"

text \<open>C14. After any sequence of operations the table is well formed: 64 slots, a cursor and ids
  inside the NAT range, no two live entries with the same WAN id, no two with the same flow, and a
  live-entry counter that equals the number of used slots (so it never wraps below zero).\<close>

theorem conntrack_invariant:
  "ct_inv (ct_run ops) \<and> live_count (ct_run ops) = n_used (slots (ct_run ops))"
  by (simp add: ct_run_inv live_count_eq)

lemma nat_drop_run: "nat_drop (ct_run ops) = 0"
proof (induction ops rule: rev_induct)
  case (snoc c ops)
  have "nat_drop (ct_step ct c) = nat_drop ct" if inv: "ct_inv ct" for ct
  proof (cases c)
    case (OpOut t fl now)
    obtain i ct' where "outbound ct t fl now = (Some i, ct')" "nat_drop ct' = nat_drop ct"
      using outbound_total [OF inv] .
    with OpOut show ?thesis by simp
  next
    case OpIn
    then show ?thesis by (simp add: inbound_def split: option.split)
  qed (simp add: reap_def reap_loop_eq)
  with snoc ct_run_inv [of ops] show ?case by (simp add: ct_run_def)
qed (simp add: ct_run_def ct_new_def)

text \<open>C15. The id space is never exhausted: whatever happened before, \<open>outbound\<close> answers with an
  id of the NAT range and the drop counter has never moved. The \<^verbatim>\<open>None\<close> branch of \<^verbatim>\<open>outbound\<close> is dead,
  because 64 slots cannot hold 16384 ids.\<close>

theorem nat_ids_never_exhausted:
  "(\<exists>i. fst (outbound (ct_run ops) t fl now) = Some i \<and> NAT_LO \<le> i) \<and> nat_drop (ct_run ops) = 0"
  using outbound_total [OF ct_run_inv, of ops t fl now] nat_drop_run [of ops] by (metis fst_conv)

text \<open>C11. Isolation of the LAN: \<open>inbound\<close> answers with a LAN address only for a packet whose
  protocol, remote address, remote id and WAN id are those of a flow that this very LAN address
  opened before, and which was told that WAN id when it did.\<close>

theorem nat_no_unsolicited:
  assumes "fst (inbound (ct_run ops) pr rip rid w fl now) = Some (lip, lid)"
  shows "\<exists>pre t fl now post. ops = pre @ OpOut t fl now # post
    \<and> flow_of t = (pr, lip, lid, rip, rid) \<and> fst (outbound (ct_run pre) t fl now) = Some w"
  using ct_run_no_unsolicited [OF assms] .

theorem nat_no_unsolicited_witness:
  "\<exists>pre t fl now post. [OpOut dns_tuple 0 7] = pre @ OpOut t fl now # post
    \<and> flow_of t = (Udp, Ipv4 192 168 4 10, 5000, Ipv4 8 8 8 8, 53)
    \<and> fst (outbound (ct_run pre) t fl now) = Some 49152"
  by (rule nat_no_unsolicited [where fl = 0 and now = 100]) code_simp

text \<open>The round trip of a flow: a reply that comes back within ten seconds of the outbound
  packet, from the peer it went to and to the id it was given, is delivered to the LAN address and
  id the packet came from.\<close>

theorem nat_reply_round_trip:
  assumes "outbound (ct_run ops) t fl now = (Some i, ct')" and "sat_sub now' now < 10000"
  shows "fst (inbound ct' (t_proto t) (dst_ip t) (dst_id t) i fl' now') = Some (src_ip t, src_id t)"
  by (rule outbound_reply [OF ct_run_inv assms])

theorem nat_reply_round_trip_witness:
  "fst (inbound (snd (outbound (ct_run []) dns_tuple 0 7)) Udp (Ipv4 8 8 8 8) 53 49152 0 9000)
     = Some (Ipv4 192 168 4 10, 5000)"
proof -
  have "outbound (ct_run []) dns_tuple 0 7 = (Some 49152, snd (outbound (ct_run []) dns_tuple 0 7))"
    by (rule prod_eqI) (simp_all, code_simp)
  from nat_reply_round_trip [OF this, of 9000 0] show ?thesis
    by (simp add: dns_tuple_def sat_sub_def)
qed

text \<open>Two packets sent out one after the other get the same WAN id exactly when they belong to
  the same flow; so a flow keeps its id and two flows never share one, even when the second packet
  evicts an entry.\<close>

theorem nat_ids_separate_flows:
  "let (i, ct1) = outbound (ct_run ops) t1 fl1 now1; (j, ct2) = outbound ct1 t2 fl2 now2
   in i = j \<longleftrightarrow> flow_of t1 = flow_of t2"
  by (simp add: ct_run_ids split: prod.split)

text \<open>C13. \<open>outbound\<close> implements insertion into the abstract table of flows: when the flow is known
  or a slot is free, the table changes at the returned id only; a full table may lose one other
  flow, but never gains one.\<close>

theorem outbound_refines_table:
  assumes "outbound (ct_run ops) t fl now = (Some i, ct')"
  shows "flows ct' i = Some (flow_of t)
    \<and> flows ct' \<subseteq>\<^sub>m (flows (ct_run ops))(i \<mapsto> flow_of t)
    \<and> (live_count (ct_run ops) < CT_CAP \<or> flow_of t \<in> ran (flows (ct_run ops)) \<longrightarrow>
        flows ct' = (flows (ct_run ops))(i \<mapsto> flow_of t))"
proof (intro conjI impI)
  note inv = ct_run_inv [of ops] and refine = outbound_flows [OF ct_run_inv assms]
  show "flows ct' i = Some (flow_of t)" by (rule refine(1))
  show "flows ct' \<subseteq>\<^sub>m (flows (ct_run ops))(i \<mapsto> flow_of t)"
    unfolding map_le_def
  proof
    fix w assume "w \<in> dom (flows ct')"
    then obtain k where k: "flows ct' w = Some k" by blast
    then show "flows ct' w = ((flows (ct_run ops))(i \<mapsto> flow_of t)) w"
      using refine(1) refine(2) [OF k] by auto
  qed
  assume "live_count (ct_run ops) < CT_CAP \<or> flow_of t \<in> ran (flows (ct_run ops))"
  moreover have "\<exists>s \<in> set (slots (ct_run ops)). flow_match t s"
    if "flow_of t \<in> ran (flows (ct_run ops))"
    using that by (auto simp: ran_def flows_Some_set [OF inv] flow_match_flow_of)
  ultimately show "flows ct' = (flows (ct_run ops))(i \<mapsto> flow_of t)"
    by (intro refine(3)) blast
qed

theorem outbound_refines_table_witness:
  "flows (snd (outbound (ct_run []) dns_tuple 0 7)) = (flows (ct_run []))(49152 \<mapsto> flow_of dns_tuple)"
proof -
  have "outbound (ct_run []) dns_tuple 0 7 = (Some 49152, snd (outbound (ct_run []) dns_tuple 0 7))"
    by (rule prod_eqI) (simp_all, code_simp)
  from outbound_refines_table [OF this] show ?thesis
    by (simp add: live_count_def ct_run_def ct_new_def CT_CAP_def)
qed

text \<open>A slot is taken from a live, unexpired entry only when all 64 slots hold one, and then
  from the one that was used least recently.\<close>

theorem pick_slot_priority:
  "let sl = slots (ct_run ops); i = pick_slot (ct_run ops) now
   in i < CT_CAP \<and>
     (if live_count (ct_run ops) < CT_CAP then \<not> used (sl ! i)
      else if list_ex (expired now) sl then expired now (sl ! i)
      else list_all (\<lambda>s. used s \<and> last_seen (sl ! i) \<le> last_seen s) sl)"
proof -
  define ct where "ct = ct_run ops"
  have inv: "ct_inv ct" unfolding ct_def by (rule ct_run_inv)
  note len = ct_invD(1) [OF inv] and live = live_count_eq [OF inv]
  show ?thesis
    unfolding ct_def [symmetric] Let_def
  proof (intro conjI)
    show "pick_slot ct now < CT_CAP" by (rule pick_slot_lt [OF len])
    show "if live_count ct < CT_CAP then \<not> used (slots ct ! pick_slot ct now)
      else if list_ex (expired now) (slots ct) then expired now (slots ct ! pick_slot ct now)
      else list_all (\<lambda>s. used s \<and> last_seen (slots ct ! pick_slot ct now) \<le> last_seen s) (slots ct)"
    proof (cases "position (\<lambda>s. \<not> used s) (slots ct)")
      case (Some k)
      from n_used_update [of k "slots ct" "(slots ct ! k)\<lparr>used := True\<rparr>"] position_SomeD [OF Some]
      have "n_used (slots ct) < CT_CAP"
        using n_used_le [of "(slots ct)[k := (slots ct ! k)\<lparr>used := True\<rparr>]"] len by simp
      with position_SomeD [OF Some] Some live show ?thesis by (simp add: pick_slot_def)
    next
      case free: None
      then have full: "\<not> live_count ct < CT_CAP" "list_all used (slots ct)"
        using len live by (simp_all add: n_used_def position_None_iff list_all_iff)
      show ?thesis
      proof (cases "position (expired now) (slots ct)")
        case (Some k)
        then have "pick_slot ct now = k" using free by (simp add: pick_slot_def)
        moreover have "expired now (slots ct ! k)" "list_ex (expired now) (slots ct)"
          using position_SomeD [OF Some] by (auto simp: list_ex_iff)
        ultimately show ?thesis using full(1) by simp
      next
        case None
        then have "pick_slot ct now = lru_slot (slots ct)"
          using free by (simp add: pick_slot_def)
        moreover have "\<not> list_ex (expired now) (slots ct)"
          using None by (simp add: position_None_iff list_ex_iff)
        ultimately show ?thesis
          using full lru_slot_least [of "slots ct"] len
          by (simp only: if_False list_all_length) blast
      qed
    qed
  qed
qed

text \<open>The periodic sweep forgets exactly the entries whose idle timeout has passed.\<close>

theorem reap_forgets_expired:
  "flows (reap (ct_run ops) now) w = Some k \<longleftrightarrow>
     (\<exists>s \<in> set (slots (ct_run ops)). used s \<and> wan_id s = w \<and> flow_key s = k
        \<and> sat_sub now (last_seen s) < timeout_ms s)"
  by (simp add: flows_reap [OF ct_run_inv] expired_def not_le)

text \<open>A \<^verbatim>\<open>FIN\<close> or \<^verbatim>\<open>RST\<close> moves a connection to the short closing timeout only until the next plain
  segment: the acknowledgement that follows in every TCP close puts the entry back to \<open>Established\<close>
  and its 60 second timeout. Only a \<^verbatim>\<open>SYN\<close> finds the closing state sticky.\<close>

theorem closing_is_undone_by_ack:
  "let s1 = touch 0x11 now (new_entry (t\<lparr>t_proto := Tcp\<rparr>) i 0x10 now); s2 = touch 0x10 now' s1
   in tcp s1 = Closing \<and> timeout_ms s1 = 10000 \<and> tcp s2 = Established \<and> timeout_ms s2 = 60000"
proof -
  have f: "(0x11 :: u8) AND (TCP_FIN OR TCP_RST) \<noteq> 0" "(0x10 :: u8) AND (TCP_FIN OR TCP_RST) = 0"
    "(0x10 :: u8) AND TCP_SYN = 0"
    by (simp_all add: TCP_FIN_def TCP_RST_def TCP_SYN_def)
  show ?thesis
    using f by (simp add: Let_def touch_def new_entry_def next_tcp_state_def timeout_ms_def
        T_TCP_TRANS_def T_TCP_EST_def)
qed

end
