(* ===== verification/Napt.thy ===== *)
theory Napt
  imports Conntrack
begin

text \<open>
  The address rewrite of the NAPT path: \<^verbatim>\<open>parse_l4\<close>, \<^verbatim>\<open>rd16\<close>, \<^verbatim>\<open>wr16\<close>, \<^verbatim>\<open>napt_rewrite_src\<close> and
  \<^verbatim>\<open>napt_rewrite_dst\<close> of \<^verbatim>\<open>src/forward.rs\<close>, and the reference the self-test
  \<^verbatim>\<open>tools/conntrack_selftest.rs\<close> compares them with: \<^verbatim>\<open>l4_bounds\<close>, \<^verbatim>\<open>pseudo_acc\<close>, \<^verbatim>\<open>l4_valid\<close> and its own
  \<^verbatim>\<open>rewrite_src\<close> and \<^verbatim>\<open>rewrite_dst\<close>. Every slice access that Rust checks is an option, \<^const>\<open>None\<close>
  for the panic; \<^verbatim>\<open>parse_l4\<close> guards its accesses by a length test first, so it indexes directly.
\<close>

section \<open>Slices\<close>

definition rd16 :: "bytes \<Rightarrow> nat \<Rightarrow> u16 option" where
  "rd16 b i = (if i + 1 < length b then Some (be16 (b ! i) (b ! (i + 1))) else None)"

definition wr16 :: "bytes \<Rightarrow> nat \<Rightarrow> u16 \<Rightarrow> bytes option" where
  "wr16 b i v = (if i + 2 \<le> length b then Some (b[i := hi8 v, i + 1 := lo8 v]) else None)"

text \<open>\<^verbatim>\<open>Ipv4Address::new(b[i], b[i + 1], b[i + 2], b[i + 3])\<close> and
  \<^verbatim>\<open>b[i..i + 4].copy_from_slice(&ip.octets())\<close>.\<close>

definition rd_ip :: "bytes \<Rightarrow> nat \<Rightarrow> ipv4 option" where
  "rd_ip b i = (if i + 3 < length b then Some (Ipv4 (b ! i) (b ! (i + 1)) (b ! (i + 2)) (b ! (i + 3))) else None)"

fun put_ip :: "bytes \<Rightarrow> nat \<Rightarrow> ipv4 \<Rightarrow> bytes option" where
  "put_ip b i (Ipv4 p q r s) =
     (if i + 4 \<le> length b then Some (b[i := p, i + 1 := q, i + 2 := r, i + 3 := s]) else None)"

section \<open>The firmware's rewrite\<close>

definition ETHERTYPE_IPV4 :: u16 where "ETHERTYPE_IPV4 = 0x0800"
definition IPPROTO_ICMP :: u8 where "IPPROTO_ICMP = 1"
definition IPPROTO_TCP :: u8 where "IPPROTO_TCP = 6"
definition IPPROTO_UDP :: u8 where "IPPROTO_UDP = 17"

record l4 =
  l4_proto :: proto
  l4_off :: nat
  l4_src_id :: u16
  l4_dst_id :: u16
  csum_off :: nat
  tcp_flags :: u8

definition parse_l4 :: "bytes \<Rightarrow> l4 option" where
  "parse_l4 frame =
     (if length frame < 14 + 20 \<or> be16 (frame ! 12) (frame ! 13) \<noteq> ETHERTYPE_IPV4 then None
      else
        let ihl = unat (frame ! 14 AND 0x0f) * 4
        in if ihl < 20 then None
           else
             let l4 = 14 + ihl; pr = frame ! (14 + 9)
             in if pr = IPPROTO_TCP \<and> l4 + 20 \<le> length frame then
                  Some \<lparr>l4_proto = Tcp, l4_off = l4,
                     l4_src_id = be16 (frame ! l4) (frame ! (l4 + 1)),
                     l4_dst_id = be16 (frame ! (l4 + 2)) (frame ! (l4 + 3)),
                     csum_off = l4 + 16, tcp_flags = frame ! (l4 + 13)\<rparr>
                else if pr = IPPROTO_UDP \<and> l4 + 8 \<le> length frame then
                  Some \<lparr>l4_proto = Udp, l4_off = l4,
                     l4_src_id = be16 (frame ! l4) (frame ! (l4 + 1)),
                     l4_dst_id = be16 (frame ! (l4 + 2)) (frame ! (l4 + 3)),
                     csum_off = l4 + 6, tcp_flags = 0\<rparr>
                else if pr = IPPROTO_ICMP \<and> l4 + 8 \<le> length frame \<and> (frame ! l4 = 0 \<or> frame ! l4 = 8) then
                  Some \<lparr>l4_proto = IcmpEcho, l4_off = l4,
                     l4_src_id = be16 (frame ! (l4 + 4)) (frame ! (l4 + 5)),
                     l4_dst_id = 0, csum_off = l4 + 2, tcp_flags = 0\<rparr>
                else None)"

text \<open>The two rewrites, up to the closing write of the address: the checksum first, from the old
  address and the old id, then the id.\<close>

definition rewrite_ports :: "bytes \<Rightarrow> l4 \<Rightarrow> nat \<Rightarrow> ipv4 \<Rightarrow> ipv4 \<Rightarrow> u16 \<Rightarrow> bytes option" where
  "rewrite_ports frame l4 port_off old_ip new_ip new_id = do {
     old_port \<leftarrow> rd16 frame port_off;
     old_csum \<leftarrow> rd16 frame (csum_off l4);
     frame \<leftarrow> (if \<not> (l4_proto l4 = Udp \<and> old_csum = 0) then
       (case (addr_words old_ip, addr_words new_ip) of ((oh, ol), (nh, nl)) \<Rightarrow>
          wr16 frame (csum_off l4) (checksum_incr old_csum [(oh, nh), (ol, nl), (old_port, new_id)]))
       else Some frame);
     wr16 frame port_off new_id
   }"

definition rewrite_echo :: "bytes \<Rightarrow> l4 \<Rightarrow> u16 \<Rightarrow> bytes option" where
  "rewrite_echo frame l4 new_id = do {
     old_id \<leftarrow> rd16 frame (l4_off l4 + 4);
     old_csum \<leftarrow> rd16 frame (csum_off l4);
     frame \<leftarrow> wr16 frame (csum_off l4) (checksum_incr old_csum [(old_id, new_id)]);
     wr16 frame (l4_off l4 + 4) new_id
   }"

definition napt_rewrite_src :: "bytes \<Rightarrow> l4 \<Rightarrow> ipv4 \<Rightarrow> u16 \<Rightarrow> bytes option" where
  "napt_rewrite_src frame l4 new_ip new_id = do {
     old_ip \<leftarrow> rd_ip frame 26;
     frame \<leftarrow> (case l4_proto l4 of
         IcmpEcho \<Rightarrow> rewrite_echo frame l4 new_id
       | _ \<Rightarrow> rewrite_ports frame l4 (l4_off l4) old_ip new_ip new_id);
     put_ip frame 26 new_ip
   }"

definition napt_rewrite_dst :: "bytes \<Rightarrow> l4 \<Rightarrow> ipv4 \<Rightarrow> u16 \<Rightarrow> bytes option" where
  "napt_rewrite_dst frame l4 new_ip new_id = do {
     old_ip \<leftarrow> rd_ip frame 30;
     frame \<leftarrow> (case l4_proto l4 of
         IcmpEcho \<Rightarrow> rewrite_echo frame l4 new_id
       | _ \<Rightarrow> rewrite_ports frame l4 (l4_off l4 + 2) old_ip new_ip new_id);
     put_ip frame 30 new_ip
   }"

section \<open>The self-test's reference\<close>

definition ETH :: nat where "ETH = 14"

text \<open>\<^verbatim>\<open>(l4_off, l4_len, proto, csum_off)\<close>; \<^const>\<open>None\<close> when an index or the subtraction fails.\<close>

definition l4_bounds :: "bytes \<Rightarrow> (nat \<times> nat \<times> u8 \<times> nat) option" where
  "l4_bounds frame =
     (if length frame < ETH + 10 then None
      else
        let ihl = unat (frame ! ETH AND 0x0f) * 4;
            l4 = ETH + ihl;
            pr = frame ! (ETH + 9);
            ip_total = unat (be16 (frame ! (ETH + 2)) (frame ! (ETH + 3)))
        in if ip_total < ihl then None
           else Some (l4, ip_total - ihl, pr,
             if pr = 6 then l4 + 16 else if pr = 17 then l4 + 6 else if pr = 1 then l4 + 2 else l4))"

definition pseudo_acc :: "bytes \<Rightarrow> nat \<Rightarrow> u8 \<Rightarrow> u16 option" where
  "pseudo_acc frame l4_len pr = do {
     a \<leftarrow> rd16 frame (ETH + 12);
     b \<leftarrow> rd16 frame (ETH + 14);
     c \<leftarrow> rd16 frame (ETH + 16);
     d \<leftarrow> rd16 frame (ETH + 18);
     Some (add1c (add1c (add1c (add1c (add1c (add1c 0 a) b) c) d) (ucast pr)) (of_nat l4_len))
   }"

definition l4_valid :: "bytes \<Rightarrow> bool option" where
  "l4_valid frame = do {
     (l4, l4_len, pr, _) \<leftarrow> l4_bounds frame;
     seg \<leftarrow> (if l4 + l4_len \<le> length frame then Some (take l4_len (drop l4 frame)) else None);
     acc \<leftarrow> (if pr = 1 then Some (fold_be 0 seg)
       else do { acc0 \<leftarrow> pseudo_acc frame l4_len pr; Some (fold_be acc0 seg) });
     Some (acc = 0xffff)
   }"

definition rewrite_src :: "bytes \<Rightarrow> ipv4 \<Rightarrow> u16 \<Rightarrow> bytes option" where
  "rewrite_src frame new_ip new_id = do {
     (l4, _, pr, cko) \<leftarrow> l4_bounds frame;
     old_csum \<leftarrow> rd16 frame cko;
     frame \<leftarrow> (if pr = 1 then do {
         old_id \<leftarrow> rd16 frame (l4 + 4);
         frame \<leftarrow> wr16 frame cko (checksum_incr old_csum [(old_id, new_id)]);
         wr16 frame (l4 + 4) new_id }
       else do {
         old_hi \<leftarrow> rd16 frame (ETH + 12);
         old_lo \<leftarrow> rd16 frame (ETH + 14);
         (new_hi, new_lo) \<leftarrow> Some (addr_words new_ip);
         old_port \<leftarrow> rd16 frame l4;
         frame \<leftarrow> (if \<not> (pr = 17 \<and> old_csum = 0)
           then wr16 frame cko (checksum_incr old_csum [(old_hi, new_hi), (old_lo, new_lo), (old_port, new_id)])
           else Some frame);
         wr16 frame l4 new_id });
     put_ip frame (ETH + 12) new_ip
   }"

definition rewrite_dst :: "bytes \<Rightarrow> ipv4 \<Rightarrow> u16 \<Rightarrow> bytes option" where
  "rewrite_dst frame new_ip new_id = do {
     (l4, _, pr, cko) \<leftarrow> l4_bounds frame;
     old_csum \<leftarrow> rd16 frame cko;
     frame \<leftarrow> (if pr = 1 then do {
         old_id \<leftarrow> rd16 frame (l4 + 4);
         frame \<leftarrow> wr16 frame cko (checksum_incr old_csum [(old_id, new_id)]);
         wr16 frame (l4 + 4) new_id }
       else do {
         old_hi \<leftarrow> rd16 frame (ETH + 16);
         old_lo \<leftarrow> rd16 frame (ETH + 18);
         (new_hi, new_lo) \<leftarrow> Some (addr_words new_ip);
         old_port \<leftarrow> rd16 frame (l4 + 2);
         frame \<leftarrow> (if \<not> (pr = 17 \<and> old_csum = 0)
           then wr16 frame cko (checksum_incr old_csum [(old_hi, new_hi), (old_lo, new_lo), (old_port, new_id)])
           else Some frame);
         wr16 frame (l4 + 2) new_id });
     put_ip frame (ETH + 16) new_ip
   }"

section \<open>Words of a segment\<close>

lemma length_words_of: "length (words_of xs) = (length xs + 1) div 2"
  by (induction xs rule: words_of.induct) auto

lemma words_of_nth:
  "Suc (2 * k) < length xs \<Longrightarrow> words_of xs ! k = be16 (xs ! (2 * k)) (xs ! Suc (2 * k))"
proof (induction xs arbitrary: k rule: words_of.induct)
  case (1 a b xs)
  then show ?case by (cases k) auto
qed auto

lemma words_of_update:
  "Suc (2 * k) < length xs \<Longrightarrow>
     words_of (xs[2 * k := hi8 w, Suc (2 * k) := lo8 w]) = (words_of xs)[k := w]"
proof (induction xs arbitrary: k rule: words_of.induct)
  case (1 a b xs)
  then show ?case by (cases k) auto
qed auto

lemma mset_two_updates:
  fixes ws :: "u16 list"
  assumes "i < length ws" and "j < length ws" and "i \<noteq> j"
  obtains R where "mset ws = {#ws ! i, ws ! j#} + R" "\<And>a b. mset (ws[i := a, j := b]) = {#a, b#} + R"
proof -
  obtain R1 where R1: "mset ws = {#ws ! i#} + R1"
    using assms(1) by (metis add_mset_add_single mset_add nth_mem_mset union_commute)
  have upd: "mset (ws[i := a]) = {#a#} + R1" for a
    using mset_update [OF assms(1), of a] R1 by simp
  have "ws ! j \<in># {#NOT (ws ! j)#} + R1"
    using assms unfolding upd [symmetric] by (metis length_list_update nth_list_update_neq nth_mem_mset)
  moreover have "NOT (ws ! j) \<noteq> ws ! j"
  proof
    assume "NOT (ws ! j) = ws ! j"
    with unat_not_u16 [of "ws ! j"] unat_u16_lt [of "ws ! j"] show False by simp presburger
  qed
  ultimately have "ws ! j \<in># R1" by auto
  then obtain R where R: "R1 = {#ws ! j#} + R"
    by (metis add_mset_add_single mset_add union_commute)
  have "mset (ws[i := a, j := b]) = {#a, b#} + R" for a b
    using mset_update [of j "ws[i := a]" b] assms R upd [of a] by simp
  with R1 R show thesis by (intro that [of R]) simp_all
qed

text \<open>
  The one arithmetic fact behind the rewrites: \<open>ws\<close> are the words under the checksum, the checksum
  itself at \<open>i\<close> and the id at \<open>j\<close>; \<open>olds\<close> are the words of the old address in front of them.
\<close>

lemma rewrite_sum:
  assumes ij: "i < length ws" "j < length ws" "i \<noteq> j"
    and len: "length olds = length news"
    and valid: "osum (olds @ fixed @ ws) = 0xFFFF"
    and nz: "(\<exists>w \<in> set fixed. w \<noteq> 0) \<or> id' \<noteq> 0"
  shows "osum (news @ fixed @ ws[i := checksum_incr (ws ! i) (zip (olds @ [ws ! j]) (news @ [id'])), j := id'])
    = 0xFFFF"
proof -
  obtain R where R: "mset ws = {#ws ! i, ws ! j#} + R"
    "\<And>a b. mset (ws[i := a, j := b]) = {#a, b#} + R"
    using mset_two_updates [OF ij] by blast
  obtain rs where rs: "R = mset rs" by (metis ex_mset)
  have "osum (ws ! i # (fixed @ rs) @ (olds @ [ws ! j])) = 0xFFFF"
    unfolding valid [symmetric] by (rule osum_mset) (simp add: R(1) rs)
  moreover have "osum ((fixed @ rs) @ (news @ [id'])) \<noteq> 0"
    using nz by (auto simp: osum_eq_0_iff)
  ultimately have "osum (checksum_incr (ws ! i) (zip (olds @ [ws ! j]) (news @ [id']))
      # (fixed @ rs) @ (news @ [id'])) = 0xFFFF"
    by (intro incr_valid) (simp_all add: len)
  moreover have "mset (news @ fixed @ ws[i := c, j := id']) = mset (c # (fixed @ rs) @ (news @ [id']))" for c
    by (simp add: R(2) rs)
  ultimately show ?thesis using osum_mset by metis
qed

section \<open>Frames\<close>

text \<open>What the self-test's validity check computes, over words.\<close>

definition pseudo_words :: "bytes \<Rightarrow> nat \<Rightarrow> u8 \<Rightarrow> u16 list" where
  "pseudo_words f n pr = [be16 (f ! 26) (f ! 27), be16 (f ! 28) (f ! 29), be16 (f ! 30) (f ! 31),
     be16 (f ! 32) (f ! 33), ucast pr, of_nat n]"

definition segment :: "bytes \<Rightarrow> nat \<Rightarrow> nat \<Rightarrow> bytes" where
  "segment f l n = take n (drop l f)"

lemma l4_valid_iff:
  assumes "34 \<le> length f" and "l4_bounds f = Some (l, n, pr, cko)" and "l + n \<le> length f"
  shows "l4_valid f = Some (osum ((if pr = 1 then [] else pseudo_words f n pr) @ words_of (segment f l n)) = 0xFFFF)"
proof -
  have "pseudo_acc f n pr = Some (osum (pseudo_words f n pr))"
    using assms(1)
    by (simp add: pseudo_acc_def rd16_def ETH_def pseudo_words_def oc.assoc)
  then show ?thesis
    using assms(2,3) by (simp add: l4_valid_def segment_def fold_be_osum)
qed

lemma l4_validD:
  assumes "l4_valid f = Some b"
  obtains l n pr cko where "l4_bounds f = Some (l, n, pr, cko)" "l + n \<le> length f"
  using assms by (auto simp: l4_valid_def bind_eq_Some_conv split: if_splits)

lemma parse_l4_Some:
  assumes "parse_l4 f = Some q"
  shows "34 \<le> length f" "34 \<le> l4_off q" "l4_off q = 14 + unat (f ! 14 AND 0x0f) * 4"
    "f ! 23 = (case l4_proto q of Tcp \<Rightarrow> 6 | Udp \<Rightarrow> 17 | IcmpEcho \<Rightarrow> 1)"
    "csum_off q = l4_off q + (case l4_proto q of Tcp \<Rightarrow> 16 | Udp \<Rightarrow> 6 | IcmpEcho \<Rightarrow> 2)"
    "csum_off q + 2 \<le> length f" "l4_off q + 8 \<le> length f"
    "be16 (f ! 12) (f ! 13) = 0x0800"
  using assms
  by (auto simp: parse_l4_def Let_def ETHERTYPE_IPV4_def IPPROTO_TCP_def IPPROTO_UDP_def
      IPPROTO_ICMP_def split: if_splits)

lemma parse_l4_ids:
  assumes "parse_l4 f = Some q"
  shows "l4_proto q = IcmpEcho \<Longrightarrow> l4_src_id q = be16 (f ! (l4_off q + 4)) (f ! (l4_off q + 5))"
    and "l4_proto q \<noteq> IcmpEcho \<Longrightarrow> l4_src_id q = be16 (f ! l4_off q) (f ! (l4_off q + 1))"
    and "l4_proto q \<noteq> IcmpEcho \<Longrightarrow> l4_dst_id q = be16 (f ! (l4_off q + 2)) (f ! (l4_off q + 3))"
  using assms
  by (auto simp: parse_l4_def Let_def split: if_splits)

text \<open>A rewritten frame, written out: the checksum (when it is updated), the id, the address.\<close>

definition put16 :: "bytes \<Rightarrow> nat \<Rightarrow> u16 \<Rightarrow> bytes" where
  "put16 b i v = b[i := hi8 v, i + 1 := lo8 v]"

lemma length_put16 [simp, frame_len]: "length (put16 b i v) = length b"
  by (simp add: put16_def)

lemma put16_nth: "i + 1 < length b \<Longrightarrow> put16 b i v ! k = (if k = i then hi8 v else if k = i + 1 then lo8 v else b ! k)"
  by (auto simp: put16_def nth_list_update)

lemma put16_nth_other [simp]: "k \<noteq> i \<Longrightarrow> k \<noteq> i + 1 \<Longrightarrow> put16 b i v ! k = b ! k"
  by (simp add: put16_def)

lemma wr16_eq: "i + 2 \<le> length b \<Longrightarrow> wr16 b i v = Some (put16 b i v)"
  by (simp add: wr16_def put16_def)

definition ip_words :: "bytes \<Rightarrow> nat \<Rightarrow> u16 list" where
  "ip_words f i = [be16 (f ! i) (f ! (i + 1)), be16 (f ! (i + 2)) (f ! (i + 3))]"

fun set_ip :: "bytes \<Rightarrow> nat \<Rightarrow> ipv4 \<Rightarrow> bytes" where
  "set_ip b i (Ipv4 p q r s) = b[i := p, i + 1 := q, i + 2 := r, i + 3 := s]"

lemma length_set_ip [simp, frame_len]: "length (set_ip b i ip) = length b"
  by (cases ip) simp

lemma put_ip_eq: "i + 4 \<le> length b \<Longrightarrow> put_ip b i ip = Some (set_ip b i ip)"
  by (cases ip) simp

lemma set_ip_nth_other [simp]: "k < i \<or> i + 4 \<le> k \<Longrightarrow> set_ip b i ip ! k = b ! k"
  by (cases ip) auto

lemma segment_put16 [simp]:
  "l + n \<le> length f \<Longrightarrow> k + 1 < n \<Longrightarrow> segment (put16 f (l + k) v) l n = put16 (segment f l n) k v"
  by (simp add: segment_def put16_def drop_update_swap take_update_swap)

lemma segment_set_ip [simp]: "i + 4 \<le> l \<Longrightarrow> segment (set_ip f i ip) l n = segment f l n"
  by (cases ip) (simp add: segment_def)

lemma length_segment [simp]: "l + n \<le> length f \<Longrightarrow> length (segment f l n) = n"
  by (simp add: segment_def)

lemma words_of_put16 [simp]:
  "2 * k + 1 < length xs \<Longrightarrow> words_of (put16 xs (2 * k) v) = (words_of xs)[k := v]"
  using words_of_update [of k xs v] by (simp add: put16_def)

lemma rd16_segment:
  "l + n \<le> length f \<Longrightarrow> 2 * k + 1 < n \<Longrightarrow> be16 (f ! (l + 2 * k)) (f ! (l + 2 * k + 1)) = words_of (segment f l n) ! k"
  by (simp add: words_of_nth segment_def add.assoc)

lemma l4_bounds_cong:
  "length g = length f \<Longrightarrow> g ! 14 = f ! 14 \<Longrightarrow> g ! 16 = f ! 16 \<Longrightarrow> g ! 17 = f ! 17 \<Longrightarrow> g ! 23 = f ! 23 \<Longrightarrow>
     l4_bounds g = l4_bounds f"
  by (simp add: l4_bounds_def ETH_def)

lemma addr_words_rd_ip:
  "rd_ip f i = Some ip \<Longrightarrow> addr_words ip = (be16 (f ! i) (f ! (i + 1)), be16 (f ! (i + 2)) (f ! (i + 3)))"
  by (auto simp: rd_ip_def addr_words_def split: if_splits)

lemma ip_words_set_ip [simp]:
  "i + 4 \<le> length f \<Longrightarrow> ip_words (set_ip f i ip) i = [fst (addr_words ip), snd (addr_words ip)]"
  by (cases ip) (simp add: ip_words_def addr_words_def nth_list_update)

section \<open>The rewrites in closed form\<close>

definition csum_of :: "bytes \<Rightarrow> l4 \<Rightarrow> u16" where
  "csum_of f q = be16 (f ! csum_off q) (f ! (csum_off q + 1))"

definition no_csum :: "bytes \<Rightarrow> l4 \<Rightarrow> bool" where
  "no_csum f q \<longleftrightarrow> l4_proto q = Udp \<and> csum_of f q = 0"

definition ports_out :: "bytes \<Rightarrow> l4 \<Rightarrow> nat \<Rightarrow> u16 list \<Rightarrow> u16 list \<Rightarrow> u16 \<Rightarrow> bytes" where
  "ports_out f q po olds news v =
     put16 (if no_csum f q then f
            else put16 f (csum_off q) (checksum_incr (csum_of f q)
              (zip (olds @ [be16 (f ! po) (f ! (po + 1))]) (news @ [v])))) po v"

definition echo_out :: "bytes \<Rightarrow> l4 \<Rightarrow> u16 \<Rightarrow> bytes" where
  "echo_out f q v = ports_out f q (l4_off q + 4) [] [] v"

definition ip_pair :: "ipv4 \<Rightarrow> u16 list" where
  "ip_pair ip = [fst (addr_words ip), snd (addr_words ip)]"

lemma rewrite_ports_eq:
  "csum_off q + 2 \<le> length f \<Longrightarrow> po + 2 \<le> length f \<Longrightarrow>
     rewrite_ports f q po old new v = Some (ports_out f q po (ip_pair old) (ip_pair new) v)"
  by (simp add: rewrite_ports_def ports_out_def rd16_def wr16_eq csum_of_def no_csum_def ip_pair_def
      split: prod.split)

lemma rewrite_echo_eq:
  "l4_proto q = IcmpEcho \<Longrightarrow> csum_off q + 2 \<le> length f \<Longrightarrow> l4_off q + 6 \<le> length f \<Longrightarrow>
     rewrite_echo f q v = Some (echo_out f q v)"
  by (simp add: rewrite_echo_def echo_out_def ports_out_def rd16_def wr16_eq csum_of_def no_csum_def
      add.assoc)

lemma length_ports_out [simp, frame_len]: "length (ports_out f q po olds news v) = length f"
  by (simp add: ports_out_def)

lemma length_echo_out [simp, frame_len]: "length (echo_out f q v) = length f"
  by (simp add: echo_out_def)

text \<open>\<open>dir\<close> is the offset of the address: 26 for the source, 30 for the destination.\<close>

definition napt_out :: "nat \<Rightarrow> bytes \<Rightarrow> l4 \<Rightarrow> ipv4 \<Rightarrow> u16 \<Rightarrow> bytes" where
  "napt_out dir f q ip v =
     set_ip (case l4_proto q of
         IcmpEcho \<Rightarrow> echo_out f q v
       | _ \<Rightarrow> ports_out f q (l4_off q + (dir - 26) div 2) (ip_words f dir) (ip_pair ip) v) dir ip"

lemma ip_pair_rd_ip: "rd_ip f i = Some ip \<Longrightarrow> ip_pair ip = ip_words f i"
  by (simp add: ip_pair_def ip_words_def addr_words_rd_ip)

lemma ex_rd_ip: "i + 3 < length f \<Longrightarrow> \<exists>ip. rd_ip f i = Some ip"
  by (simp add: rd_ip_def)

lemma napt_rewrite_src_eq:
  assumes "parse_l4 f = Some q"
  shows "napt_rewrite_src f q ip v = Some (napt_out 26 f q ip v)"
proof -
  note p = parse_l4_Some [OF assms]
  obtain old where old: "rd_ip f 26 = Some old" using ex_rd_ip [of 26 f] p(1) by auto
  then show ?thesis
    using p(1,6,7) ip_pair_rd_ip [OF old]
    by (cases "l4_proto q")
      (simp_all add: napt_rewrite_src_def napt_out_def rewrite_ports_eq rewrite_echo_eq put_ip_eq)
qed

lemma napt_rewrite_dst_eq:
  assumes "parse_l4 f = Some q"
  shows "napt_rewrite_dst f q ip v = Some (napt_out 30 f q ip v)"
proof -
  note p = parse_l4_Some [OF assms]
  obtain old where old: "rd_ip f 30 = Some old" using ex_rd_ip [of 30 f] p(1) by auto
  then show ?thesis
    using p(1,6,7) ip_pair_rd_ip [OF old]
    by (cases "l4_proto q")
      (simp_all add: napt_rewrite_dst_def napt_out_def rewrite_ports_eq rewrite_echo_eq put_ip_eq)
qed

lemma length_napt_out [simp, frame_len]: "length (napt_out dir f q ip v) = length f"
  by (cases "l4_proto q") (simp_all add: napt_out_def)

text \<open>The bytes a rewrite leaves alone.\<close>

lemma napt_out_other:
  assumes "k < dir \<or> dir + 4 \<le> k" and "k < l4_off q"
    and "csum_off q = l4_off q + (case l4_proto q of Tcp \<Rightarrow> 16 | Udp \<Rightarrow> 6 | IcmpEcho \<Rightarrow> 2)"
  shows "napt_out dir f q ip v ! k = f ! k"
  using assms by (cases "l4_proto q") (auto simp: napt_out_def echo_out_def ports_out_def)

lemma napt_out_l4_bounds:
  assumes p: "parse_l4 f = Some q" and dir: "dir = 26 \<or> dir = 30"
  shows "l4_bounds (napt_out dir f q ip v) = l4_bounds f"
proof (rule l4_bounds_cong)
  fix k note p = parse_l4_Some [OF p]
  have "napt_out dir f q ip v ! k = f ! k" if "k < 26" for k
    by (rule napt_out_other) (use p(2,5) that dir in auto)
  then show "napt_out dir f q ip v ! 14 = f ! 14" "napt_out dir f q ip v ! 16 = f ! 16"
    "napt_out dir f q ip v ! 17 = f ! 17" "napt_out dir f q ip v ! 23 = f ! 23"
    by simp_all
qed simp

section \<open>Checksum validity is preserved\<close>

text \<open>The checksum and the ids lie inside the segment the total-length field announces.\<close>

definition l4_header_inside :: "bytes \<Rightarrow> bool" where
  "l4_header_inside f =
     (case l4_bounds f of None \<Rightarrow> False | Some (l, n, pr, cko) \<Rightarrow> cko + 2 \<le> l + n \<and> 6 \<le> n)"

lemma l4_bounds_parse:
  assumes "parse_l4 f = Some q" and "l4_bounds f = Some (l, n, pr, cko)"
  shows "l = l4_off q" "pr = f ! 23" "cko = csum_off q"
  using assms parse_l4_Some [OF assms(1)]
  by (auto simp: l4_bounds_def ETH_def Let_def split: if_splits proto.splits)

lemma segment_ports_out:
  assumes "l + n \<le> length f" "csum_off q = l + 2 * ci" "po = l + 2 * pi" "2 * ci + 1 < n" "2 * pi + 1 < n"
    and "\<not> no_csum f q"
  shows "words_of (segment (ports_out f q po olds news v) l n) =
    (words_of (segment f l n))[ci := checksum_incr (words_of (segment f l n) ! ci)
       (zip (olds @ [words_of (segment f l n) ! pi]) (news @ [v])), pi := v]"
  using assms rd16_segment [of l n f ci] rd16_segment [of l n f pi]
  by (simp add: ports_out_def csum_of_def)

lemma ports_out_below [simp]:
  "k < po \<Longrightarrow> k < csum_off q \<Longrightarrow> ports_out f q po olds news v ! k = f ! k"
  by (simp add: ports_out_def)

lemma osum_pseudo:
  assumes "dir = 26 \<or> dir = 30"
  shows "osum (pseudo_words f n pr @ ws) = osum (ip_words f dir @ (ip_words f (56 - dir) @ [ucast pr, of_nat n]) @ ws)"
  by (rule osum_mset) (use assms in \<open>auto simp: pseudo_words_def ip_words_def\<close>)

lemma napt_out_valid:
  assumes p: "parse_l4 f = Some q" and dir: "dir = 26 \<or> dir = 30"
    and valid: "l4_valid f = Some True" and inside: "l4_header_inside f"
    and csum: "\<not> no_csum f q" and id: "l4_proto q = IcmpEcho \<Longrightarrow> v \<noteq> 0"
  shows "l4_valid (napt_out dir f q ip v) = Some True"
proof -
  let ?g = "napt_out dir f q ip v"
  obtain l n pr cko where b: "l4_bounds f = Some (l, n, pr, cko)" and ln: "l + n \<le> length f"
    using l4_validD [OF valid] .
  note q = parse_l4_Some [OF p] and bq = l4_bounds_parse [OF p b]
  have in1: "csum_off q + 2 \<le> l + n" "6 \<le> n"
    using inside b bq(3) by (simp_all add: l4_header_inside_def)
  have bg: "l4_bounds ?g = Some (l, n, pr, cko)"
    using napt_out_l4_bounds [OF p dir] b by simp
  have l34: "34 \<le> l" using q(2) bq(1) by simp
  define ws where "ws = words_of (segment f l n)"
  define ci :: nat where "ci = (case l4_proto q of Tcp \<Rightarrow> 8 | Udp \<Rightarrow> 3 | IcmpEcho \<Rightarrow> 1)"
  define pi where "pi = (case l4_proto q of IcmpEcho \<Rightarrow> 2 | _ \<Rightarrow> (dir - 26) div 4)"
  have ci: "csum_off q = l + 2 * ci" "2 * ci + 1 < n" "ci < length ws" "ci \<noteq> pi"
    using q(5) in1 bq(1) ln dir
    by (auto simp: ci_def pi_def ws_def length_words_of split: proto.splits)
  have pi: "2 * pi + 1 < n" "pi < length ws"
    using in1 dir ln by (auto simp: pi_def ws_def length_words_of split: proto.splits)
  have fv: "osum ((if pr = 1 then [] else pseudo_words f n pr) @ ws) = 0xFFFF"
    using l4_valid_iff [OF q(1) b ln] valid by (simp add: ws_def)
  have goal: "l4_valid ?g = Some (osum ((if pr = 1 then [] else pseudo_words ?g n pr)
      @ words_of (segment ?g l n)) = 0xFFFF)"
    using q(1) ln by (intro l4_valid_iff [OF _ bg]) simp_all
  show ?thesis
  proof (cases "l4_proto q = IcmpEcho")
    case True
    then have pr: "pr = 1" using q(4) bq(2) by simp
    have "osum ([] @ [] @ ws[ci := checksum_incr (ws ! ci) (zip ([] @ [ws ! pi]) ([] @ [v])), pi := v]) = 0xFFFF"
      by (rule rewrite_sum) (use ci pi fv pr id True in simp_all)
    moreover have "words_of (segment ?g l n) =
        ws[ci := checksum_incr (ws ! ci) (zip ([] @ [ws ! pi]) ([] @ [v])), pi := v]"
      unfolding ws_def using True ci pi ln csum bq(1) l34 dir
      by (subst segment_ports_out [symmetric]) (auto simp: napt_out_def echo_out_def pi_def)
    ultimately show ?thesis unfolding goal pr by simp
  next
    case False
    then have pr: "pr \<noteq> 1" "ucast pr \<noteq> (0 :: u16)" using q(4) bq(2) by (cases "l4_proto q"; simp)+
    let ?fixed = "ip_words f (56 - dir) @ [ucast pr, of_nat n]"
    have g: "?g = set_ip (ports_out f q (l + 2 * pi) (ip_words f dir) (ip_pair ip) v) dir ip"
      using False bq(1) dir by (auto simp: napt_out_def pi_def split: proto.splits)
    have "osum (ip_words f dir @ ?fixed @ ws) = 0xFFFF"
      using fv pr(1) osum_pseudo [OF dir] by simp
    then have "osum (ip_pair ip @ ?fixed @
        ws[ci := checksum_incr (ws ! ci) (zip (ip_words f dir @ [ws ! pi]) (ip_pair ip @ [v])), pi := v]) = 0xFFFF"
      by (rule rewrite_sum [OF ci(3) pi(2) ci(4), rotated]) (use pr(2) in \<open>auto simp: ip_words_def ip_pair_def\<close>)
    moreover have "words_of (segment ?g l n) =
        ws[ci := checksum_incr (ws ! ci) (zip (ip_words f dir @ [ws ! pi]) (ip_pair ip @ [v])), pi := v]"
      unfolding g ws_def using ci pi ln csum l34 dir
      by (subst segment_ports_out [symmetric]) auto
    moreover have "ip_words ?g dir = ip_pair ip" "ip_words ?g (56 - dir) = ip_words f (56 - dir)"
      unfolding g using ln l34 dir ci(1) by (auto simp: ip_pair_def) (auto simp: ip_words_def)
    ultimately show ?thesis
      unfolding goal using pr(1) osum_pseudo [OF dir, of ?g n pr] by simp
  qed
qed

lemma napt_out_valid_src_dst:
  assumes "parse_l4 f = Some q" and "l4_valid f = Some True" and "l4_header_inside f"
    and "\<not> no_csum f q" and "l4_proto q = IcmpEcho \<Longrightarrow> v \<noteq> 0"
  shows "napt_rewrite_src f q ip v \<bind> l4_valid = Some True"
    and "napt_rewrite_dst f q ip v \<bind> l4_valid = Some True"
  using napt_out_valid [OF assms(1) _ assms(2-5), of _ ip] napt_rewrite_src_eq [OF assms(1)]
    napt_rewrite_dst_eq [OF assms(1)] by simp_all

section \<open>What a rewritten frame reads as\<close>

lemma rd_ip_set_ip: "i + 4 \<le> length b \<Longrightarrow> rd_ip (set_ip b i ip) i = Some ip"
  by (cases ip) (simp add: rd_ip_def nth_list_update)

lemma rd_ip_napt_out:
  assumes "parse_l4 f = Some q" and "dir = 26 \<or> dir = 30"
  shows "rd_ip (napt_out dir f q ip v) dir = Some ip"
    and "rd_ip (napt_out dir f q ip v) (56 - dir) = rd_ip f (56 - dir)"
proof -
  note p = parse_l4_Some [OF assms(1)]
  show "rd_ip (napt_out dir f q ip v) dir = Some ip"
    using p(1) assms(2) by (cases "l4_proto q") (auto simp: napt_out_def rd_ip_set_ip)
  have "napt_out dir f q ip v ! k = f ! k" if "56 - dir \<le> k" "k < 60 - dir" for k
    by (rule napt_out_other) (use p(2,5) assms(2) that in auto)
  then show "rd_ip (napt_out dir f q ip v) (56 - dir) = rd_ip f (56 - dir)"
    using assms(2) by (auto simp: rd_ip_def)
qed

lemma parse_l4_cong:
  assumes p: "parse_l4 f = Some q" and len: "length g = length f"
    and hdr: "g ! 12 = f ! 12" "g ! 13 = f ! 13" "g ! 14 = f ! 14" "g ! 23 = f ! 23"
    and icmp: "l4_proto q = IcmpEcho \<Longrightarrow> g ! l4_off q = f ! l4_off q"
    and flags: "l4_proto q = Tcp \<Longrightarrow> g ! (l4_off q + 13) = f ! (l4_off q + 13)"
  shows "parse_l4 g = Some (q\<lparr>
     l4_src_id := (case l4_proto q of IcmpEcho \<Rightarrow> be16 (g ! (l4_off q + 4)) (g ! (l4_off q + 5))
       | _ \<Rightarrow> be16 (g ! l4_off q) (g ! (l4_off q + 1))),
     l4_dst_id := (case l4_proto q of IcmpEcho \<Rightarrow> 0
       | _ \<Rightarrow> be16 (g ! (l4_off q + 2)) (g ! (l4_off q + 3)))\<rparr>)"
  using assms
  by (auto simp: parse_l4_def Let_def IPPROTO_TCP_def IPPROTO_UDP_def IPPROTO_ICMP_def split: if_splits)

text \<open>The parsed view of a frame after its source, or its destination, has been rewritten.\<close>

definition with_src_id :: "l4 \<Rightarrow> u16 \<Rightarrow> l4" where
  "with_src_id q v = q\<lparr>l4_src_id := v\<rparr>"

definition with_dst_id :: "l4 \<Rightarrow> u16 \<Rightarrow> l4" where
  "with_dst_id q v = (if l4_proto q = IcmpEcho then q\<lparr>l4_src_id := v\<rparr> else q\<lparr>l4_dst_id := v\<rparr>)"

lemma ports_out_nth:
  "po + 1 < length f \<Longrightarrow> k \<noteq> csum_off q \<Longrightarrow> k \<noteq> csum_off q + 1 \<Longrightarrow>
     ports_out f q po olds news v ! k = (if k = po then hi8 v else if k = po + 1 then lo8 v else f ! k)"
  by (simp add: ports_out_def put16_nth)

lemma parse_napt_out:
  assumes p: "parse_l4 f = Some q"
  shows "parse_l4 (napt_out 26 f q ip v) = Some (with_src_id q v)"
    and "parse_l4 (napt_out 30 f q ip v) = Some (with_dst_id q v)"
proof -
  note q = parse_l4_Some [OF p] and ids = parse_l4_ids [OF p]
  have icmp: "l4_proto q = IcmpEcho \<Longrightarrow> l4_dst_id q = 0"
    using p by (auto simp: parse_l4_def Let_def split: if_splits)
  have low: "napt_out dir f q ip v ! k = f ! k" if "k < 26" "dir = 26 \<or> dir = 30" for k dir
    by (rule napt_out_other) (use q(2,5) that in auto)
  have high: "napt_out dir f q ip v ! (l4_off q + k) =
      (case l4_proto q of IcmpEcho \<Rightarrow> if k = 4 then hi8 v else if k = 5 then lo8 v else f ! (l4_off q + k)
       | _ \<Rightarrow> if k = (dir - 26) div 2 then hi8 v else if k = (dir - 26) div 2 + 1 then lo8 v
             else f ! (l4_off q + k))"
    if "k < 6 \<or> l4_proto q = Tcp \<and> k = 13" "k \<noteq> 2 \<or> l4_proto q \<noteq> IcmpEcho"
      "k \<noteq> 3 \<or> l4_proto q \<noteq> IcmpEcho" "dir = 26 \<or> dir = 30" for k dir
    using that q(1,2,5,7)
    by (cases "l4_proto q") (auto simp: napt_out_def echo_out_def ports_out_nth)
  have id: "l4_src_id q = (case l4_proto q of IcmpEcho \<Rightarrow> be16 (f ! (l4_off q + 4)) (f ! (l4_off q + 5))
      | _ \<Rightarrow> be16 (f ! l4_off q) (f ! (l4_off q + 1)))"
    "l4_dst_id q = (case l4_proto q of IcmpEcho \<Rightarrow> 0
      | _ \<Rightarrow> be16 (f ! (l4_off q + 2)) (f ! (l4_off q + 3)))"
    using ids icmp by (simp_all split: proto.split)
  have eta: "q\<lparr>l4_src_id := a, l4_dst_id := l4_dst_id q\<rparr> = q\<lparr>l4_src_id := a\<rparr>"
    "q\<lparr>l4_src_id := l4_src_id q, l4_dst_id := a\<rparr> = q\<lparr>l4_dst_id := a\<rparr>" for a
    by simp_all
  have at: "napt_out dir f q ip v ! l4_off q = (case l4_proto q of IcmpEcho \<Rightarrow> f ! l4_off q
      | _ \<Rightarrow> if dir = 26 then hi8 v else f ! l4_off q)" if "dir = 26 \<or> dir = 30" for dir
    using high [of 0 dir] that by (cases "l4_proto q") auto
  have g: "parse_l4 (napt_out dir f q ip v) = Some (q\<lparr>
      l4_src_id := (case l4_proto q of IcmpEcho \<Rightarrow> v | _ \<Rightarrow> if dir = 26 then v else l4_src_id q),
      l4_dst_id := (case l4_proto q of IcmpEcho \<Rightarrow> l4_dst_id q | _ \<Rightarrow> if dir = 26 then l4_dst_id q else v)\<rparr>)"
    if dir: "dir = 26 \<or> dir = 30" for dir
  proof -
    let ?g = "napt_out dir f q ip v"
    have "parse_l4 ?g = Some (q\<lparr>
     l4_src_id := (case l4_proto q of IcmpEcho \<Rightarrow> be16 (?g ! (l4_off q + 4)) (?g ! (l4_off q + 5))
       | _ \<Rightarrow> be16 (?g ! l4_off q) (?g ! (l4_off q + 1))),
     l4_dst_id := (case l4_proto q of IcmpEcho \<Rightarrow> 0
       | _ \<Rightarrow> be16 (?g ! (l4_off q + 2)) (?g ! (l4_off q + 3)))\<rparr>)"
      by (rule parse_l4_cong [OF p]) (use dir high [of 13 dir] at [OF dir] in \<open>auto simp: low\<close>)
    moreover have "(case l4_proto q of IcmpEcho \<Rightarrow> be16 (?g ! (l4_off q + 4)) (?g ! (l4_off q + 5))
       | _ \<Rightarrow> be16 (?g ! l4_off q) (?g ! (l4_off q + 1)))
      = (case l4_proto q of IcmpEcho \<Rightarrow> v | _ \<Rightarrow> if dir = 26 then v else l4_src_id q)"
      using dir high [of 4 dir] high [of 5 dir] high [of 1 dir] at [OF dir] id(1)
      by (cases "l4_proto q") auto
    moreover have "(case l4_proto q of IcmpEcho \<Rightarrow> 0 | _ \<Rightarrow> be16 (?g ! (l4_off q + 2)) (?g ! (l4_off q + 3)))
      = (case l4_proto q of IcmpEcho \<Rightarrow> l4_dst_id q | _ \<Rightarrow> if dir = 26 then l4_dst_id q else v)"
      using dir high [of 2 dir] high [of 3 dir] id(2)
      by (cases "l4_proto q") auto
    ultimately show ?thesis by simp
  qed
  show "parse_l4 (napt_out 26 f q ip v) = Some (with_src_id q v)"
    unfolding g [OF disjI1 [OF refl]] by (cases "l4_proto q") (simp_all add: with_src_id_def eta)
  show "parse_l4 (napt_out 30 f q ip v) = Some (with_dst_id q v)"
    unfolding g [OF disjI2 [OF refl]] by (cases "l4_proto q") (simp_all add: with_dst_id_def eta)
qed

section \<open>Properties\<close>

text \<open>A UDP datagram and an ICMP echo request with valid checksums, for the witnesses.\<close>

definition udp_frame :: bytes where
  "udp_frame = [2, 0, 0, 0, 0, 1, 2, 0, 0, 0, 0, 9, 0x08, 0x00,
     0x45, 0, 0, 30, 0, 0, 0, 0, 64, 17, 0, 0, 192, 168, 4, 10, 8, 8, 8, 8,
     0xC7, 0x38, 0, 53, 0, 10, 0x62, 0xA8, 1, 2]"

text \<open>C6. The NAT rewrites keep the transport checksum valid, in the sense of the self-test's
  \<^verbatim>\<open>l4_valid\<close> (pseudo-header included for TCP and UDP), for every IHL, segment length, address and id:
  a frame that parses, whose checksum holds and is not UDP's "none", leaves both rewrites with a
  checksum that holds. Only the echo id 0 is left out.\<close>

theorem napt_keeps_checksum_valid:
  assumes "parse_l4 f = Some q" and "l4_valid f = Some True" and "l4_header_inside f"
    and "\<not> no_csum f q" and "l4_proto q = IcmpEcho \<longrightarrow> v \<noteq> 0"
  shows "napt_rewrite_src f q ip v \<bind> l4_valid = Some True \<and> napt_rewrite_dst f q ip v \<bind> l4_valid = Some True"
  using napt_out_valid_src_dst [OF assms(1-4) assms(5) [rule_format]] by (intro conjI)

theorem napt_keeps_checksum_valid_witness:
  "napt_rewrite_src udp_frame (the (parse_l4 udp_frame)) (Ipv4 192 168 37 129) 50000 \<bind> l4_valid = Some True
   \<and> napt_rewrite_dst udp_frame (the (parse_l4 udp_frame)) (Ipv4 192 168 37 129) 50000 \<bind> l4_valid = Some True"
proof (rule napt_keeps_checksum_valid)
  show "parse_l4 udp_frame = Some (the (parse_l4 udp_frame))" by code_simp
  show "l4_valid udp_frame = Some True" by code_simp
  show "l4_header_inside udp_frame" by code_simp
  show "\<not> no_csum udp_frame (the (parse_l4 udp_frame))" by code_simp
  show "l4_proto (the (parse_l4 udp_frame)) = IcmpEcho \<longrightarrow> (50000 :: u16) \<noteq> 0" by code_simp
qed

text \<open>A frame that parses is rewritten without a panic to a frame of the same length that parses to
  the same flow with the new id and carries the new address; the other address and everything in
  front of the addresses (link layer, IP length, TTL, protocol) stay as they were.\<close>

theorem napt_rewrite_reads_back:
  assumes "parse_l4 f = Some q"
  shows "(\<exists>g. napt_rewrite_src f q ip v = Some g \<and> length g = length f
      \<and> parse_l4 g = Some (with_src_id q v) \<and> rd_ip g 26 = Some ip \<and> rd_ip g 30 = rd_ip f 30
      \<and> take 26 g = take 26 f)
    \<and> (\<exists>g. napt_rewrite_dst f q ip v = Some g \<and> length g = length f
      \<and> parse_l4 g = Some (with_dst_id q v) \<and> rd_ip g 30 = Some ip \<and> rd_ip g 26 = rd_ip f 26
      \<and> take 26 g = take 26 f)"
proof -
  note q = parse_l4_Some [OF assms]
  have "take 26 (napt_out dir f q ip v) = take 26 f" if "dir = 26 \<or> dir = 30" for dir
  proof (rule nth_equalityI)
    fix k assume "k < length (take 26 (napt_out dir f q ip v))"
    then have "k < 26" by simp
    then have "napt_out dir f q ip v ! k = f ! k"
      by (intro napt_out_other) (use that q(2,5) in auto)
    with \<open>k < 26\<close> show "take 26 (napt_out dir f q ip v) ! k = take 26 f ! k" by simp
  qed simp
  then show ?thesis
    using rd_ip_napt_out [OF assms, of 26 ip v] rd_ip_napt_out [OF assms, of 30 ip v]
      parse_napt_out [OF assms, of ip v]
    by (auto simp: napt_rewrite_src_eq [OF assms] napt_rewrite_dst_eq [OF assms])
qed

theorem napt_rewrite_reads_back_witness:
  "\<exists>q g. parse_l4 udp_frame = Some q \<and> napt_rewrite_src udp_frame q (Ipv4 1 2 3 4) 5 = Some g
     \<and> parse_l4 g = Some (with_src_id q 5)"
proof -
  have "parse_l4 udp_frame = Some (the (parse_l4 udp_frame))" by code_simp
  from this napt_rewrite_reads_back [OF this, of "Ipv4 1 2 3 4" 5] show ?thesis by blast
qed

text \<open>The rewrites of the self-test, which find protocol and offsets by themselves, are the
  firmware's on every frame the firmware's parser accepts and that has a sane total length; so what
  the self-test measures it measures of the firmware's code.\<close>

theorem selftest_rewrites_agree:
  assumes "parse_l4 f = Some q" and "l4_bounds f \<noteq> None"
  shows "rewrite_src f ip v = napt_rewrite_src f q ip v \<and> rewrite_dst f ip v = napt_rewrite_dst f q ip v"
proof -
  obtain l n pr cko where b: "l4_bounds f = Some (l, n, pr, cko)"
    using assms(2) by (cases "l4_bounds f") auto
  note q = parse_l4_Some [OF assms(1)] and bq = l4_bounds_parse [OF assms(1) b]
  have ip: "rd16 f 26 = Some (be16 (f ! 26) (f ! 27))" "rd16 f 28 = Some (be16 (f ! 28) (f ! 29))"
    "rd16 f 30 = Some (be16 (f ! 30) (f ! 31))" "rd16 f 32 = Some (be16 (f ! 32) (f ! 33))"
    using q(1) by (simp_all add: rd16_def)
  have l4: "rd16 f (csum_off q) = Some (csum_of f q)"
    "rd16 f (l4_off q) = Some (be16 (f ! l4_off q) (f ! (l4_off q + 1)))"
    "rd16 f (l4_off q + 2) = Some (be16 (f ! (l4_off q + 2)) (f ! (l4_off q + 2 + 1)))"
    "rd16 f (l4_off q + 4) = Some (be16 (f ! (l4_off q + 4)) (f ! (l4_off q + 4 + 1)))"
    using q(6,7) by (simp_all add: rd16_def csum_of_def)
  show ?thesis
    using q(1,4,6,7) bq
    by (cases "l4_proto q")
      (simp_all add: rewrite_src_def rewrite_dst_def b ETH_def ip l4 [simplified] wr16_eq put_ip_eq
        napt_rewrite_src_eq [OF assms(1)] napt_rewrite_dst_eq [OF assms(1)] napt_out_def echo_out_def
        ports_out_def no_csum_def ip_words_def ip_pair_def split: prod.split)
qed

theorem selftest_rewrites_agree_witness:
  "rewrite_src udp_frame (Ipv4 1 2 3 4) 5 = napt_rewrite_src udp_frame (the (parse_l4 udp_frame)) (Ipv4 1 2 3 4) 5
   \<and> rewrite_dst udp_frame (Ipv4 1 2 3 4) 5 = napt_rewrite_dst udp_frame (the (parse_l4 udp_frame)) (Ipv4 1 2 3 4) 5"
proof (rule selftest_rewrites_agree)
  show "parse_l4 udp_frame = Some (the (parse_l4 udp_frame))" by code_simp
  show "l4_bounds udp_frame \<noteq> None" by code_simp
qed

text \<open>UDP reserves the checksum value 0 for "no checksum", but the incremental update can produce
  it: this datagram, whose checksum is valid and present, leaves the source rewrite with checksum 0
  and reads as one that has none.\<close>

theorem napt_udp_checksum_lost:
  "let q = the (parse_l4 udp_frame); g = the (napt_rewrite_src udp_frame q (Ipv4 35 81 4 10) 0xC738)
   in l4_valid udp_frame = Some True \<and> csum_of udp_frame q \<noteq> 0 \<and> l4_proto q = Udp \<and> csum_of g q = 0"
  unfolding Let_def by (intro conjI) code_simp+

text \<open>The parser never looks at the fragment offset and flags of the IP header: a later fragment,
  which starts in the middle of the payload, is parsed, tracked and rewritten as if it began with a
  transport header.\<close>

theorem parse_l4_ignores_fragment_offset:
  "parse_l4 (f[20 := a, 21 := b]) = parse_l4 f"
proof -
  define u where "u = unat (f ! 14 AND 0x0f)"
  show ?thesis
  proof (cases "u < 5")
    case True
    then show ?thesis by (simp add: parse_l4_def Let_def flip: u_def)
  next
    case False
    then have "14 + u * 4 \<noteq> 20" "14 + u * 4 \<noteq> 21" "Suc (14 + u * 4) \<noteq> 20" by arith+
    with False show ?thesis
      by (auto simp: parse_l4_def Let_def IPPROTO_TCP_def IPPROTO_UDP_def IPPROTO_ICMP_def
          simp flip: u_def)
  qed
qed

end
