(* ===== verification/Neighbor.thy ===== *)
theory Neighbor
  imports Prelude
begin

text \<open>
  The per-interface neighbour table of \<^verbatim>\<open>src/forward.rs\<close>: eight \<open>IPv4 \<rightarrow> MAC\<close> pairs, filled in order,
  then overwritten round robin. The arrays \<^verbatim>\<open>ip\<close> and \<^verbatim>\<open>mac\<close> are lists of eight elements; \<^verbatim>\<open>used\<close> and \<^verbatim>\<open>next\<close>
  are natural numbers below nine.
\<close>

section \<open>The code\<close>

definition NEIGH_CAP :: nat where "NEIGH_CAP = 8"

record neighbor_table =
  nt_ip :: "ipv4 list"
  nt_mac :: "mac list"
  nt_used :: nat
  nt_next :: nat

definition neigh_new :: neighbor_table where
  "neigh_new = \<lparr>nt_ip = replicate NEIGH_CAP UNSPECIFIED, nt_mac = replicate NEIGH_CAP (replicate 6 0),
     nt_used = 0, nt_next = 0\<rparr>"

definition neigh_insert :: "neighbor_table \<Rightarrow> ipv4 \<Rightarrow> mac \<Rightarrow> neighbor_table" where
  "neigh_insert t ip m =
     (case position (\<lambda>x. x = ip) (take (nt_used t) (nt_ip t)) of
        Some i \<Rightarrow> t\<lparr>nt_mac := (nt_mac t)[i := m]\<rparr>
      | None \<Rightarrow>
          (let (slot, t1) =
             (if nt_used t < NEIGH_CAP then (nt_used t, t\<lparr>nt_used := nt_used t + 1\<rparr>)
              else (nt_next t, t\<lparr>nt_next := (nt_next t + 1) mod NEIGH_CAP\<rparr>))
           in t1\<lparr>nt_ip := (nt_ip t1)[slot := ip], nt_mac := (nt_mac t1)[slot := m]\<rparr>))"

definition neigh_lookup :: "neighbor_table \<Rightarrow> ipv4 \<Rightarrow> mac option" where
  "neigh_lookup t ip =
     map_option (\<lambda>i. nt_mac t ! i) (position (\<lambda>x. x = ip) (take (nt_used t) (nt_ip t)))"

section \<open>Invariant\<close>

definition neigh_inv :: "neighbor_table \<Rightarrow> bool" where
  "neigh_inv t \<longleftrightarrow> length (nt_ip t) = NEIGH_CAP \<and> length (nt_mac t) = NEIGH_CAP
     \<and> nt_used t \<le> NEIGH_CAP \<and> nt_next t < NEIGH_CAP \<and> distinct (take (nt_used t) (nt_ip t))"

lemma neigh_inv_new: "neigh_inv neigh_new"
  by (simp add: neigh_inv_def neigh_new_def NEIGH_CAP_def)

lemma neigh_lookup_new [simp]: "neigh_lookup neigh_new ip = None"
  by (simp add: neigh_lookup_def neigh_new_def)

lemma lookup_Some_iff:
  assumes "neigh_inv t"
  shows "neigh_lookup t ip = Some m \<longleftrightarrow> (\<exists>i < nt_used t. nt_ip t ! i = ip \<and> nt_mac t ! i = m)"
proof
  assume "neigh_lookup t ip = Some m"
  then obtain i where "position (\<lambda>x. x = ip) (take (nt_used t) (nt_ip t)) = Some i" "nt_mac t ! i = m"
    by (auto simp: neigh_lookup_def)
  then show "\<exists>i < nt_used t. nt_ip t ! i = ip \<and> nt_mac t ! i = m"
    using position_SomeD [of "\<lambda>x. x = ip" "take (nt_used t) (nt_ip t)" i] by auto
next
  let ?p = "\<lambda>x. x = ip" and ?xs = "take (nt_used t) (nt_ip t)"
  assume "\<exists>i < nt_used t. nt_ip t ! i = ip \<and> nt_mac t ! i = m"
  then obtain i where "i < nt_used t" "nt_ip t ! i = ip" "nt_mac t ! i = m" by blast
  then have i: "i < length ?xs" "?xs ! i = ip" "nt_mac t ! i = m"
    using assms by (auto simp: neigh_inv_def)
  have "position ?p ?xs = Some i"
  proof (rule position_unique [where p = ?p, OF i(1) i(2)])
    fix j assume "j < length ?xs" "?xs ! j = ip"
    with i assms show "j = i"
      by (auto simp: neigh_inv_def nth_eq_iff_index_eq simp del: nth_take)
  qed
  with i(3) show "neigh_lookup t ip = Some m" by (simp add: neigh_lookup_def)
qed

text \<open>The slot an insertion writes, and the table it leaves.\<close>

lemma neigh_insert_slot:
  assumes inv: "neigh_inv t"
  obtains i where "i < nt_used (neigh_insert t ip m)" "nt_ip (neigh_insert t ip m) = (nt_ip t)[i := ip]"
    "nt_mac (neigh_insert t ip m) = (nt_mac t)[i := m]"
    "\<forall>j < nt_used t. j \<noteq> i \<longrightarrow> nt_ip t ! j \<noteq> ip"
    "nt_used (neigh_insert t ip m) = max (nt_used t) (Suc i)"
    "i \<le> nt_used t" "i < NEIGH_CAP" "nt_next (neigh_insert t ip m) < NEIGH_CAP"
    "nt_used t < NEIGH_CAP \<and> i < nt_used t \<longrightarrow> nt_ip t ! i = ip"
proof (cases "position (\<lambda>x. x = ip) (take (nt_used t) (nt_ip t))")
  case (Some i)
  let ?xs = "take (nt_used t) (nt_ip t)"
  have pos: "i < length ?xs" "?xs ! i = ip" and lt: "i < nt_used t" "i < NEIGH_CAP"
    using position_SomeD [OF Some] inv by (auto simp: neigh_inv_def)
  have ip: "nt_ip t ! i = ip" using pos(2) lt(1) by simp
  have eq: "\<forall>j < nt_used t. j \<noteq> i \<longrightarrow> nt_ip t ! j \<noteq> ip"
  proof (intro allI impI notI)
    fix j assume "j < nt_used t" "j \<noteq> i" "nt_ip t ! j = ip"
    then have "?xs ! j = ?xs ! i" "j < length ?xs" using pos inv by (auto simp: neigh_inv_def)
    moreover have "distinct ?xs" using inv by (simp add: neigh_inv_def)
    ultimately show False using nth_eq_iff_index_eq pos(1) \<open>j \<noteq> i\<close> by blast
  qed
  have t: "neigh_insert t ip m = t\<lparr>nt_mac := (nt_mac t)[i := m]\<rparr>"
    using Some by (simp add: neigh_insert_def)
  have "nt_ip t = (nt_ip t)[i := ip]" using list_update_id [of "nt_ip t" i] ip by simp
  then show thesis
    using lt ip eq inv by (intro that [of i]) (simp_all add: t neigh_inv_def)
next
  case None
  have no: "\<forall>j < nt_used t. nt_ip t ! j \<noteq> ip"
  proof (intro allI impI)
    fix j assume "j < nt_used t"
    then have "nt_ip t ! j \<in> set (take (nt_used t) (nt_ip t))"
      using inv by (auto simp: neigh_inv_def in_set_conv_nth intro!: exI [of _ j])
    with None show "nt_ip t ! j \<noteq> ip" by (simp add: position_None_iff)
  qed
  show thesis
  proof (cases "nt_used t < NEIGH_CAP")
    case True
    with None have "neigh_insert t ip m = t\<lparr>nt_used := nt_used t + 1, nt_ip := (nt_ip t)[nt_used t := ip],
        nt_mac := (nt_mac t)[nt_used t := m]\<rparr>"
      by (simp add: neigh_insert_def)
    with no inv True show thesis
      by (intro that [of "nt_used t"]) (simp_all add: neigh_inv_def)
  next
    case False
    with None have t: "neigh_insert t ip m = t\<lparr>nt_next := (nt_next t + 1) mod NEIGH_CAP,
        nt_ip := (nt_ip t)[nt_next t := ip], nt_mac := (nt_mac t)[nt_next t := m]\<rparr>"
      by (simp add: neigh_insert_def)
    have "nt_used t = NEIGH_CAP" "nt_next t < NEIGH_CAP" using inv False by (simp_all add: neigh_inv_def)
    then show thesis
      using no by (intro that [of "nt_next t"]) (simp_all add: t NEIGH_CAP_def)
  qed
qed

lemma neigh_inv_insert [inv_intros]:
  assumes inv: "neigh_inv t"
  shows "neigh_inv (neigh_insert t ip m)"
proof -
  let ?t = "neigh_insert t ip m"
  obtain i where i: "i < nt_used ?t" "nt_ip ?t = (nt_ip t)[i := ip]" "nt_mac ?t = (nt_mac t)[i := m]"
    and uniq: "\<forall>j < nt_used t. j \<noteq> i \<longrightarrow> nt_ip t ! j \<noteq> ip"
    and used: "nt_used ?t = max (nt_used t) (Suc i)" "i \<le> nt_used t" "i < NEIGH_CAP" "nt_next ?t < NEIGH_CAP"
    and "nt_used t < NEIGH_CAP \<and> i < nt_used t \<longrightarrow> nt_ip t ! i = ip"
    using neigh_insert_slot [OF inv, of ip m] .
  have "distinct (take (nt_used ?t) (nt_ip ?t))"
    unfolding distinct_conv_nth
  proof (intro allI impI)
    fix a b assume ab: "a < length (take (nt_used ?t) (nt_ip ?t))" "b < length (take (nt_used ?t) (nt_ip ?t))"
      and "a \<noteq> b"
    have old: "nt_ip t ! a \<noteq> nt_ip t ! b" if "a < nt_used t" "b < nt_used t"
      using inv that \<open>a \<noteq> b\<close> nth_eq_iff_index_eq [of "take (nt_used t) (nt_ip t)" a b]
      by (auto simp: neigh_inv_def)
    have lt: "a \<noteq> i \<Longrightarrow> a < nt_used t" "b \<noteq> i \<Longrightarrow> b < nt_used t"
      using ab used(1,2) by auto
    show "take (nt_used ?t) (nt_ip ?t) ! a \<noteq> take (nt_used ?t) (nt_ip ?t) ! b"
      using ab \<open>a \<noteq> b\<close> i(2) used(1,2) uniq old lt
      by (cases "a = i"; cases "b = i") (auto simp: nth_list_update)
  qed
  then show ?thesis
    using inv i(2,3) used by (simp add: neigh_inv_def)
qed

lemma lookup_insert_same:
  assumes inv: "neigh_inv t"
  shows "neigh_lookup (neigh_insert t ip m) ip = Some m"
proof -
  obtain i where i: "i < nt_used (neigh_insert t ip m)" "nt_ip (neigh_insert t ip m) = (nt_ip t)[i := ip]"
    "nt_mac (neigh_insert t ip m) = (nt_mac t)[i := m]" "i < NEIGH_CAP"
    using neigh_insert_slot [OF inv, of ip m] by metis
  show ?thesis
    unfolding lookup_Some_iff [OF neigh_inv_insert [OF inv]]
    by (intro exI [of _ i]) (use i inv in \<open>simp add: neigh_inv_def\<close>)
qed

lemma lookup_insert_other:
  assumes inv: "neigh_inv t" and ne: "ip' \<noteq> ip"
    and look: "neigh_lookup (neigh_insert t ip m) ip' = Some m'"
  shows "neigh_lookup t ip' = Some m'"
proof -
  let ?t = "neigh_insert t ip m"
  obtain i where i: "nt_ip ?t = (nt_ip t)[i := ip]" "nt_mac ?t = (nt_mac t)[i := m]" "i \<le> nt_used t"
    and used: "nt_used ?t = max (nt_used t) (Suc i)" "i < NEIGH_CAP"
    using neigh_insert_slot [OF inv, of ip m] by metis
  obtain j where j: "j < nt_used ?t" "nt_ip ?t ! j = ip'" "nt_mac ?t ! j = m'"
    using look lookup_Some_iff [OF neigh_inv_insert [OF inv]] by blast
  have "j \<noteq> i" using j(2) ne i(1) used(2) inv by (auto simp: neigh_inv_def)
  with j i used show ?thesis
    unfolding lookup_Some_iff [OF inv] by (intro exI [of _ j]) (auto simp: max_def split: if_splits)
qed

lemma lookup_insert_room:
  assumes inv: "neigh_inv t" and ne: "ip' \<noteq> ip" and room: "nt_used t < NEIGH_CAP"
  shows "neigh_lookup (neigh_insert t ip m) ip' = neigh_lookup t ip'"
proof -
  let ?t = "neigh_insert t ip m"
  obtain i where i: "nt_ip ?t = (nt_ip t)[i := ip]" "nt_mac ?t = (nt_mac t)[i := m]"
    and used: "nt_used ?t = max (nt_used t) (Suc i)"
    and keep: "nt_used t < NEIGH_CAP \<and> i < nt_used t \<longrightarrow> nt_ip t ! i = ip"
    using neigh_insert_slot [OF inv, of ip m] by metis
  have "neigh_lookup ?t ip' = Some m'" if look: "neigh_lookup t ip' = Some m'" for m'
  proof -
    obtain j where j: "j < nt_used t" "nt_ip t ! j = ip'" "nt_mac t ! j = m'"
      using look lookup_Some_iff [OF inv] by blast
    have "j \<noteq> i" using keep room j ne by blast
    with j i used show ?thesis
      unfolding lookup_Some_iff [OF neigh_inv_insert [OF inv]] by (intro exI [of _ j]) simp
  qed
  then show ?thesis
    using lookup_insert_other [OF inv ne, of m] by (metis not_None_eq)
qed

section \<open>The contract the forwarder relies on\<close>

locale mac_table =
  fixes inv :: "'t \<Rightarrow> bool" and t0 :: 't
    and ins :: "'t \<Rightarrow> ipv4 \<Rightarrow> mac \<Rightarrow> 't"
    and look :: "'t \<Rightarrow> ipv4 \<Rightarrow> mac option"
  assumes inv_t0: "inv t0" and look_t0: "look t0 ip = None"
    and inv_ins: "inv t \<Longrightarrow> inv (ins t ip m)"
    and look_same: "inv t \<Longrightarrow> look (ins t ip m) ip = Some m"
    and look_other: "inv t \<Longrightarrow> ip' \<noteq> ip \<Longrightarrow> look (ins t ip m) ip' = Some m' \<Longrightarrow> look t ip' = Some m'"
begin

definition learned :: "(ipv4 \<times> mac) list \<Rightarrow> 't" where
  "learned xs = foldl (\<lambda>t (ip, m). ins t ip m) t0 xs"

lemma learned_snoc: "learned (xs @ [(ip, m)]) = ins (learned xs) ip m"
  by (simp add: learned_def)

lemma inv_learned: "inv (learned xs)"
proof (induction xs rule: rev_induct)
  case (snoc x xs)
  then show ?case by (cases x) (simp add: learned_snoc inv_ins)
qed (simp add: learned_def inv_t0)

text \<open>An answer is the last address that was learned for the host.\<close>

lemma look_learned:
  "look (learned xs) ip = Some m \<Longrightarrow> \<exists>pre post. xs = pre @ (ip, m) # post \<and> ip \<notin> fst ` set post"
proof (induction xs rule: rev_induct)
  case Nil
  then show ?case by (simp add: learned_def look_t0)
next
  case (snoc x xs)
  obtain ip0 m0 where x: "x = (ip0, m0)" by (cases x)
  show ?case
  proof (cases "ip = ip0")
    case True
    with snoc.prems x look_same [OF inv_learned] have "m = m0" by (simp add: learned_snoc)
    with x True show ?thesis by fastforce
  next
    case False
    with snoc.prems x have "look (learned xs) ip = Some m"
      by (simp add: learned_snoc look_other [OF inv_learned])
    with snoc.IH obtain pre post where "xs = pre @ (ip, m) # post" "ip \<notin> fst ` set post" by blast
    with x False show ?thesis by (intro exI [of _ pre] exI [of _ "post @ [x]"]) auto
  qed
qed

end

interpretation nb: mac_table neigh_inv neigh_new neigh_insert neigh_lookup
  by (rule mac_table.intro)
    (auto intro: neigh_inv_new neigh_inv_insert lookup_insert_same lookup_insert_other)

definition neigh_learned :: "(ipv4 \<times> mac) list \<Rightarrow> neighbor_table" where
  "neigh_learned xs = foldl (\<lambda>t (ip, m). neigh_insert t ip m) neigh_new xs"

lemma nb_learned: "nb.learned = neigh_learned"
  by (intro ext) (simp add: nb.learned_def neigh_learned_def)

lemmas neigh_learned_inv = nb.inv_learned [unfolded nb_learned]

section \<open>Properties\<close>

text \<open>C26. Whatever has been learned before, a pair that was just learned is found, and every answer
  of the table is the last MAC address that was learned for that very host; while fewer than eight
  hosts are known, learning one forgets none.\<close>

theorem neighbor_table_correct:
  "neigh_lookup (neigh_insert (neigh_learned xs) ip m) ip = Some m
   \<and> (case neigh_lookup (neigh_learned xs) ip' of
        None \<Rightarrow> True
      | Some m' \<Rightarrow> \<exists>pre post. xs = pre @ (ip', m') # post \<and> ip' \<notin> fst ` set post)
   \<and> (if ip' = ip \<or> nt_used (neigh_learned xs) = NEIGH_CAP then True
      else neigh_lookup (neigh_insert (neigh_learned xs) ip m) ip' = neigh_lookup (neigh_learned xs) ip')"
proof -
  have "nt_used (neigh_learned xs) \<le> NEIGH_CAP"
    using neigh_learned_inv [of xs] by (simp add: neigh_inv_def)
  then show ?thesis
    using nb.look_learned [unfolded nb_learned, of xs ip'] lookup_insert_room [OF neigh_learned_inv, of ip' ip xs m]
    by (intro conjI) (auto simp: nb.look_same [OF neigh_learned_inv] split: option.split)
qed

end
