(* ===== verification/Forward.thy ===== *)
theory Forward
  imports Napt Neighbor Queue
begin

text \<open>
  \<^verbatim>\<open>src/forward.rs\<close>: classification of ingress frames, passive learning, NAPT, egress, and the
  \<^verbatim>\<open>ForwardingDevice\<close> that wraps an interface's phy. The statics the two tasks share (neighbour tables,
  conntrack, the two channels, the counters) are one record \<open>fwd\<close>; both tasks run on one core and touch
  it in critical sections, so every operation is one state transformer.

  What is not under \<^verbatim>\<open>src/\<close> is a parameter. The record \<open>wire\<close> holds what the code uses of smoltcp's
  \<^verbatim>\<open>wire\<close> module: \<^verbatim>\<open>Ipv4Cidr\<close> (an abstract type \<open>'c\<close> with \<^verbatim>\<open>contains_addr\<close> and \<^verbatim>\<open>address\<close>) and \<^verbatim>\<open>Ipv4Packet\<close>'s
  accessors over the bytes after the link header. The record \<open>phy\<close> holds the three uses of an inner
  \<^verbatim>\<open>Device\<close> of state \<open>'d\<close>: \<^verbatim>\<open>receive\<close> with the token consumed, \<^verbatim>\<open>transmit\<close> (whether a token is available),
  and \<^verbatim>\<open>consume\<close> with the buffer's final contents. A time is smoltcp's \<^verbatim>\<open>total_millis()\<close>, an integer.
  An outer option is a panic. The cycle counters (\<^verbatim>\<open>CycleSpan\<close>) are left out.
\<close>

section \<open>State\<close>

definition FRAME_CAP :: nat where "FRAME_CAP = 1600"
definition CHAN_DEPTH :: nat where "CHAN_DEPTH = 4"

datatype iface = Lan | Wan

datatype Class = Local | Transit | Drop

datatype fwd_channel = LAN_TO_WAN | WAN_TO_LAN

datatype drop_reason = FWD_DROP_QFULL | FWD_DROP_NONH | FWD_DROP_NAT | FWD_DROP_TXBUSY | FWD_DROP_OTHER

record fwd =
  lan_neigh :: neighbor_table
  wan_neigh :: neighbor_table
  wan_ct :: conntrack
  lan_to_wan :: "bytes list"
  wan_to_lan :: "bytes list"
  fwd_l2w :: u32
  fwd_w2l :: u32
  fwd_sent :: u32
  fwd_drop :: u32
  fwd_bytes_to_wan :: u32
  fwd_bytes_to_lan :: u32
  drop_qfull :: u32
  drop_nonh :: u32
  drop_nat :: u32
  drop_txbusy :: u32
  drop_other :: u32
  qhwm_l2w :: u32
  qhwm_w2l :: u32

definition fwd_new :: fwd where
  "fwd_new = \<lparr>lan_neigh = neigh_new, wan_neigh = neigh_new, wan_ct = ct_new,
     lan_to_wan = [], wan_to_lan = [], fwd_l2w = 0, fwd_w2l = 0, fwd_sent = 0, fwd_drop = 0,
     fwd_bytes_to_wan = 0, fwd_bytes_to_lan = 0, drop_qfull = 0, drop_nonh = 0, drop_nat = 0,
     drop_txbusy = 0, drop_other = 0, qhwm_l2w = 0, qhwm_w2l = 0\<rparr>"

fun count_drop :: "drop_reason \<Rightarrow> fwd \<Rightarrow> fwd" where
  "count_drop FWD_DROP_QFULL s = s\<lparr>fwd_drop := fwd_drop s + 1, drop_qfull := drop_qfull s + 1\<rparr>"
| "count_drop FWD_DROP_NONH s = s\<lparr>fwd_drop := fwd_drop s + 1, drop_nonh := drop_nonh s + 1\<rparr>"
| "count_drop FWD_DROP_NAT s = s\<lparr>fwd_drop := fwd_drop s + 1, drop_nat := drop_nat s + 1\<rparr>"
| "count_drop FWD_DROP_TXBUSY s = s\<lparr>fwd_drop := fwd_drop s + 1, drop_txbusy := drop_txbusy s + 1\<rparr>"
| "count_drop FWD_DROP_OTHER s = s\<lparr>fwd_drop := fwd_drop s + 1, drop_other := drop_other s + 1\<rparr>"

fun neigh :: "iface \<Rightarrow> fwd \<Rightarrow> neighbor_table" where
  "neigh Lan s = lan_neigh s"
| "neigh Wan s = wan_neigh s"

fun set_neigh :: "iface \<Rightarrow> neighbor_table \<Rightarrow> fwd \<Rightarrow> fwd" where
  "set_neigh Lan t s = s\<lparr>lan_neigh := t\<rparr>"
| "set_neigh Wan t s = s\<lparr>wan_neigh := t\<rparr>"

text \<open>\<^verbatim>\<open>embassy_sync::Channel\<close> of depth \<open>CHAN_DEPTH\<close>: \<^verbatim>\<open>try_send\<close> fails when full, \<^verbatim>\<open>try_receive\<close> pops the
  oldest.\<close>

fun chan :: "fwd_channel \<Rightarrow> fwd \<Rightarrow> bytes list" where
  "chan LAN_TO_WAN s = lan_to_wan s"
| "chan WAN_TO_LAN s = wan_to_lan s"

fun set_chan :: "fwd_channel \<Rightarrow> bytes list \<Rightarrow> fwd \<Rightarrow> fwd" where
  "set_chan LAN_TO_WAN q s = s\<lparr>lan_to_wan := q\<rparr>"
| "set_chan WAN_TO_LAN q s = s\<lparr>wan_to_lan := q\<rparr>"

definition try_send :: "fwd_channel \<Rightarrow> bytes \<Rightarrow> fwd \<Rightarrow> fwd option" where
  "try_send c f s = (if length (chan c s) < CHAN_DEPTH then Some (set_chan c (chan c s @ [f]) s) else None)"

fun try_receive :: "fwd_channel \<Rightarrow> fwd \<Rightarrow> (bytes \<times> fwd) option" where
  "try_receive c s = (case chan c s of [] \<Rightarrow> None | f # q \<Rightarrow> Some (f, set_chan c q s))"

section \<open>Parameters\<close>

record 'c wire =
  contains_addr :: "'c \<Rightarrow> ipv4 \<Rightarrow> bool"
  cidr_address :: "'c \<Rightarrow> ipv4"
  pkt_ok :: "bytes \<Rightarrow> bool"
  hop_limit :: "bytes \<Rightarrow> u8"
  set_hop_limit :: "bytes \<Rightarrow> u8 \<Rightarrow> bytes"
  fill_checksum :: "bytes \<Rightarrow> bytes"
  dst_addr :: "bytes \<Rightarrow> ipv4"

record 'd phy =
  phy_receive :: "'d \<Rightarrow> bytes option \<times> 'd"
  phy_transmit :: "'d \<Rightarrow> bool \<times> 'd"
  phy_consume :: "'d \<Rightarrow> bytes \<Rightarrow> 'd"

section \<open>Classification and learning\<close>

record 'c iface_cfg =
  iface :: iface
  our_mac :: mac
  our_ip :: ipv4
  subnet :: 'c
  gateway :: "ipv4 option"
  accept_dst :: "'c option"

definition ETHERTYPE_ARP :: u16 where "ETHERTYPE_ARP = 0x0806"

definition ARP_ETH_IPV4_PREFIX :: bytes where
  "ARP_ETH_IPV4_PREFIX = [0x00, 0x01, 0x08, 0x00, 0x06, 0x04]"

definition ip_at :: "bytes \<Rightarrow> nat \<Rightarrow> ipv4" where
  "ip_at f i = Ipv4 (f ! i) (f ! (i + 1)) (f ! (i + 2)) (f ! (i + 3))"

definition ethertype :: "bytes \<Rightarrow> u16" where
  "ethertype f = be16 (f ! 12) (f ! 13)"

definition ipv4_dst :: "bytes \<Rightarrow> ipv4 option" where
  "ipv4_dst frame =
     (if length frame < 14 + 20 \<or> ethertype frame \<noteq> ETHERTYPE_IPV4 then None else Some (ip_at frame 30))"

definition classify :: "'c wire \<Rightarrow> 'c iface_cfg \<Rightarrow> bytes \<Rightarrow> Class" where
  "classify W c frame =
     (if length frame < 14 \<or> our_ip c = UNSPECIFIED then Local
      else if take 6 frame \<noteq> our_mac c then Local
      else case ipv4_dst frame of
        None \<Rightarrow> Local
      | Some dst \<Rightarrow>
          if dst = our_ip c then Local
          else case accept_dst c of
            None \<Rightarrow> Transit
          | Some net \<Rightarrow> if contains_addr W net dst then Transit else Drop)"

definition learn_source :: "bytes \<Rightarrow> (ipv4 \<times> mac) option" where
  "learn_source frame =
     (if ethertype frame = ETHERTYPE_ARP \<and> 14 + 28 \<le> length frame \<and> take 6 (drop 14 frame) = ARP_ETH_IPV4_PREFIX
      then Some (ip_at frame 28, take 6 (drop 22 frame))
      else if ethertype frame = ETHERTYPE_IPV4 \<and> 14 + 20 \<le> length frame
      then Some (ip_at frame 26, take 6 (drop 6 frame))
      else None)"

definition learn :: "'c wire \<Rightarrow> 'c iface_cfg \<Rightarrow> bytes \<Rightarrow> fwd \<Rightarrow> fwd" where
  "learn W c frame s =
     (if length frame < 14 \<or> our_ip c = UNSPECIFIED then s
      else case learn_source frame of
        None \<Rightarrow> s
      | Some (sip, smac) \<Rightarrow>
          if \<not> contains_addr W (subnet c) sip then s
          else set_neigh (iface c) (neigh_insert (neigh (iface c) s) sip smac) s)"

definition nexthop :: "'c wire \<Rightarrow> ipv4 \<Rightarrow> 'c \<Rightarrow> ipv4 option \<Rightarrow> ipv4 option" where
  "nexthop W dst net gw = (if contains_addr W net dst then Some dst else gw)"

definition wan_neigh_known :: "ipv4 \<Rightarrow> fwd \<Rightarrow> bool" where
  "wan_neigh_known ip s \<longleftrightarrow> neigh_lookup (wan_neigh s) ip \<noteq> None"

definition build_arp_request :: "mac \<Rightarrow> ipv4 \<Rightarrow> ipv4 \<Rightarrow> bytes" where
  "build_arp_request m spa tpa =
     replicate 6 0xff @ m @ to_be16 ETHERTYPE_ARP @ ARP_ETH_IPV4_PREFIX @ to_be16 1 @ m @ octets spa
       @ replicate 6 0 @ octets tpa"

definition nat_reap :: "u64 \<Rightarrow> fwd \<Rightarrow> fwd" where
  "nat_reap now_ms s = s\<lparr>wan_ct := reap (wan_ct s) now_ms\<rparr>"

section \<open>The forwarding device\<close>

record ('c, 'd) forwarding_device =
  inner :: 'd
  cfg :: "'c iface_cfg"
  egress_ch :: fwd_channel
  nat_on :: bool

definition fd_new :: "'d \<Rightarrow> 'c iface_cfg \<Rightarrow> fwd_channel \<Rightarrow> ('c, 'd) forwarding_device" where
  "fd_new i c ch = \<lparr>inner = i, cfg = c, egress_ch = ch, nat_on = False\<rparr>"

definition fd_new_napt :: "'d \<Rightarrow> 'c iface_cfg \<Rightarrow> fwd_channel \<Rightarrow> ('c, 'd) forwarding_device" where
  "fd_new_napt i c ch = \<lparr>inner = i, cfg = c, egress_ch = ch, nat_on = True\<rparr>"

definition set_lease ::
  "'c wire \<Rightarrow> 'c \<Rightarrow> ipv4 option \<Rightarrow> ('c, 'd) forwarding_device \<Rightarrow> ('c, 'd) forwarding_device" where
  "set_lease W cidr gw d = d\<lparr>cfg := (cfg d)\<lparr>our_ip := cidr_address W cidr, subnet := cidr, gateway := gw\<rparr>\<rparr>"

definition arp_gateway :: "'d phy \<Rightarrow> ('c, 'd) forwarding_device \<Rightarrow> ('c, 'd) forwarding_device" where
  "arp_gateway P d =
     (case gateway (cfg d) of
        None \<Rightarrow> d
      | Some gw \<Rightarrow>
          if our_ip (cfg d) = UNSPECIFIED then d
          else
            (let arp = build_arp_request (our_mac (cfg d)) (our_ip (cfg d)) gw
             in case phy_transmit P (inner d) of
                  (True, i) \<Rightarrow> d\<lparr>inner := phy_consume P i arp\<rparr>
                | (False, i) \<Rightarrow> d\<lparr>inner := i\<rparr>))"

text \<open>\<^verbatim>\<open>total_millis().max(0) as u64\<close>.\<close>

definition millis :: "int \<Rightarrow> u64" where
  "millis t = of_int (max t 0)"

text \<open>The NAT step of \<^verbatim>\<open>egress\<close>: \<^term>\<open>Some (None, s)\<close> is the early return.\<close>

definition egress_nat ::
  "('c, 'd) forwarding_device \<Rightarrow> fwd \<Rightarrow> bytes \<Rightarrow> int \<Rightarrow> (bytes option \<times> fwd) option" where
  "egress_nat d s frame now =
     (if \<not> nat_on d then Some (Some frame, s)
      else case parse_l4 frame of
        None \<Rightarrow> Some (Some frame, s)
      | Some l4 \<Rightarrow> do {
          sip \<leftarrow> rd_ip frame 26;
          dip \<leftarrow> rd_ip frame 30;
          let did = (if l4_proto l4 = IcmpEcho then 0 else l4_dst_id l4);
          let t = \<lparr>t_proto = l4_proto l4, src_ip = sip, src_id = l4_src_id l4, dst_ip = dip, dst_id = did\<rparr>;
          case outbound (wan_ct s) t (tcp_flags l4) (millis now) of
            (Some i, ct) \<Rightarrow> do {
              frame \<leftarrow> napt_rewrite_src frame l4 (our_ip (cfg d)) i;
              Some (Some frame, s\<lparr>wan_ct := ct\<rparr>)
            }
          | (None, ct) \<Rightarrow> Some (None, count_drop FWD_DROP_NAT (s\<lparr>wan_ct := ct\<rparr>))
        })"

text \<open>The IP step: \<^term>\<open>Some None\<close> is malformed or expired; slicing \<^verbatim>\<open>frame[14..]\<close> may panic.\<close>

definition egress_l3 :: "'c wire \<Rightarrow> bytes \<Rightarrow> (bytes \<times> ipv4) option option" where
  "egress_l3 W frame =
     (if length frame < 14 then None
      else
        (let l2 = take 14 frame; ip = drop 14 frame
         in if \<not> pkt_ok W ip then Some None
            else
              (let ttl = hop_limit W ip
               in if ttl \<le> 1 then Some None
                  else
                    (let ip = fill_checksum W (set_hop_limit W ip (ttl - 1))
                     in Some (Some (l2 @ ip, dst_addr W ip))))))"

definition egress ::
  "'c wire \<Rightarrow> 'd phy \<Rightarrow> ('c, 'd) forwarding_device \<Rightarrow> fwd \<Rightarrow> bytes \<Rightarrow> int \<Rightarrow>
     (('c, 'd) forwarding_device \<times> fwd) option" where
  "egress W P d s frame now = do {
     (natted, s) \<leftarrow> egress_nat d s frame now;
     case natted of
       None \<Rightarrow> Some (d, s)
     | Some frame \<Rightarrow> do {
         l3 \<leftarrow> egress_l3 W frame;
         case l3 of
           None \<Rightarrow> Some (d, count_drop FWD_DROP_OTHER s)
         | Some (frame, dst) \<Rightarrow>
             (case nexthop W dst (subnet (cfg d)) (gateway (cfg d)) of
                None \<Rightarrow> Some (d, count_drop FWD_DROP_NONH s)
              | Some nh \<Rightarrow>
                  (case neigh_lookup (neigh (iface (cfg d)) s) nh of
                     None \<Rightarrow> Some (d, count_drop FWD_DROP_NONH s)
                   | Some dmac \<Rightarrow>
                       (let frame = dmac @ our_mac (cfg d) @ drop 12 frame;
                            len = of_nat (length frame)
                        in case phy_transmit P (inner d) of
                             (True, i) \<Rightarrow>
                               (let s = s\<lparr>fwd_sent := fwd_sent s + 1\<rparr>
                                in Some (d\<lparr>inner := phy_consume P i frame\<rparr>,
                                     case iface (cfg d) of
                                       Wan \<Rightarrow> s\<lparr>fwd_bytes_to_wan := fwd_bytes_to_wan s + len\<rparr>
                                     | Lan \<Rightarrow> s\<lparr>fwd_bytes_to_lan := fwd_bytes_to_lan s + len\<rparr>))
                           | (False, i) \<Rightarrow> Some (d\<lparr>inner := i\<rparr>, count_drop FWD_DROP_TXBUSY s))))
       }
   }"

definition classify_frame ::
  "'c wire \<Rightarrow> ('c, 'd) forwarding_device \<Rightarrow> fwd \<Rightarrow> bytes \<Rightarrow> int \<Rightarrow> (Class \<times> bytes \<times> fwd) option" where
  "classify_frame W d s frame ts =
     (let c = cfg d; fallback = (\<lambda>s. Some (classify W c frame, frame, s))
      in if \<not> (nat_on d \<and> our_ip c \<noteq> UNSPECIFIED \<and> 14 + 20 \<le> length frame \<and> take 6 frame = our_mac c
               \<and> ipv4_dst frame = Some (our_ip c))
         then fallback s
         else case parse_l4 frame of
           None \<Rightarrow> fallback s
         | Some l4 \<Rightarrow> do {
             rip \<leftarrow> rd_ip frame 26;
             let (rid, wid) =
               (case l4_proto l4 of IcmpEcho \<Rightarrow> (0, l4_src_id l4) | _ \<Rightarrow> (l4_src_id l4, l4_dst_id l4));
             case inbound (wan_ct s) (l4_proto l4) rip rid wid (tcp_flags l4) (millis ts) of
               (Some (lip, lid), ct) \<Rightarrow> do {
                 frame \<leftarrow> napt_rewrite_dst frame l4 lip lid;
                 Some (Transit, frame, s\<lparr>wan_ct := ct\<rparr>)
               }
             | (None, ct) \<Rightarrow> fallback (s\<lparr>wan_ct := ct\<rparr>)
           })"

text \<open>What \<^verbatim>\<open>receive\<close> does with a transit frame.\<close>

definition divert :: "('c, 'd) forwarding_device \<Rightarrow> bytes \<Rightarrow> fwd \<Rightarrow> fwd" where
  "divert d frame s =
     (case try_send (egress_ch d) frame s of
        Some s \<Rightarrow>
          (let depth = of_nat (length (chan (egress_ch d) s))
           in case iface (cfg d) of
                Lan \<Rightarrow> s\<lparr>fwd_l2w := fwd_l2w s + 1, qhwm_l2w := max (qhwm_l2w s) depth\<rparr>
              | Wan \<Rightarrow> s\<lparr>fwd_w2l := fwd_w2l s + 1, qhwm_w2l := max (qhwm_w2l s) depth\<rparr>)
      | None \<Rightarrow> count_drop FWD_DROP_QFULL s)"

text \<open>The result is the frame replayed to smoltcp, if any; the whole is \<^const>\<open>None\<close> if the loop panics
  or never ends.\<close>

partial_function (option) fd_receive ::
  "'c wire \<Rightarrow> 'd phy \<Rightarrow> ('c, 'd) forwarding_device \<Rightarrow> fwd \<Rightarrow> int \<Rightarrow>
     (bytes option \<times> ('c, 'd) forwarding_device \<times> fwd) option" where
  "fd_receive W P d s ts =
     (case phy_receive P (inner d) of
        (None, i) \<Rightarrow> Some (None, d\<lparr>inner := i\<rparr>, s)
      | (Some buf, i) \<Rightarrow>
          (let d = d\<lparr>inner := i\<rparr>; frame = take FRAME_CAP buf
           in Option.bind (classify_frame W d (learn W (cfg d) frame s) frame ts) (\<lambda>(cl, frame, s).
                case cl of
                  Local \<Rightarrow>
                    (case phy_transmit P (inner d) of
                       (True, i) \<Rightarrow> Some (Some frame, d\<lparr>inner := i\<rparr>, s)
                     | (False, i) \<Rightarrow> Some (None, d\<lparr>inner := i\<rparr>, s))
                | Transit \<Rightarrow> fd_receive W P d (divert d frame s) ts
                | Drop \<Rightarrow> fd_receive W P d (count_drop FWD_DROP_OTHER s) ts)))"

section \<open>The invariant of the shared state\<close>

text \<open>Channels within their depth and holding IPv4 frames of the buffer's size, tables well formed,
  learned addresses six bytes long, and \<^verbatim>\<open>FWD_DROP\<close> the sum of its breakdown.\<close>

definition queue_frame :: "bytes \<Rightarrow> bool" where
  "queue_frame f \<longleftrightarrow> 34 \<le> length f \<and> length f \<le> FRAME_CAP"

definition neigh_ok :: "neighbor_table \<Rightarrow> bool" where
  "neigh_ok t \<longleftrightarrow> neigh_inv t \<and> (\<forall>m \<in> set (nt_mac t). length m = 6)"

definition drop_sum :: "fwd \<Rightarrow> u32" where
  "drop_sum s = drop_qfull s + drop_nonh s + drop_nat s + drop_txbusy s + drop_other s"

definition fwd_inv :: "fwd \<Rightarrow> bool" where
  "fwd_inv s \<longleftrightarrow> neigh_ok (lan_neigh s) \<and> neigh_ok (wan_neigh s) \<and> ct_inv (wan_ct s)
     \<and> length (lan_to_wan s) \<le> CHAN_DEPTH \<and> length (wan_to_lan s) \<le> CHAN_DEPTH
     \<and> (\<forall>f \<in> set (lan_to_wan s) \<union> set (wan_to_lan s). queue_frame f)
     \<and> fwd_drop s = drop_sum s"

lemma neigh_ok_new: "neigh_ok neigh_new"
  using neigh_inv_new by (simp add: neigh_ok_def neigh_new_def)

lemma fwd_inv_new: "fwd_inv fwd_new"
  by (simp add: fwd_inv_def fwd_new_def neigh_ok_new ct_inv_new drop_sum_def)

lemma fwd_inv_ct: "fwd_inv s \<Longrightarrow> ct_inv (wan_ct s)"
  by (simp add: fwd_inv_def)

lemma fwd_inv_neigh: "fwd_inv s \<Longrightarrow> neigh_ok (neigh i s)"
  by (cases i) (simp_all add: fwd_inv_def)

lemma fwd_inv_set_ct [inv_intros]: "fwd_inv s \<Longrightarrow> ct_inv ct \<Longrightarrow> fwd_inv (s\<lparr>wan_ct := ct\<rparr>)"
  by (simp add: fwd_inv_def drop_sum_def)

lemma fwd_inv_count_drop [inv_intros]: "fwd_inv s \<Longrightarrow> fwd_inv (count_drop r s)"
  by (cases r) (simp_all add: fwd_inv_def drop_sum_def algebra_simps)

lemma fwd_inv_set_neigh [inv_intros]: "fwd_inv s \<Longrightarrow> neigh_ok t \<Longrightarrow> fwd_inv (set_neigh i t s)"
  by (cases i) (simp_all add: fwd_inv_def drop_sum_def)

lemma neigh_ok_insert:
  assumes ok: "neigh_ok t" and m: "length m = 6"
  shows "neigh_ok (neigh_insert t ip m)"
proof -
  have inv: "neigh_inv t" using ok by (simp add: neigh_ok_def)
  obtain i where i: "nt_mac (neigh_insert t ip m) = (nt_mac t)[i := m]"
    using neigh_insert_slot [OF inv, of ip m] by metis
  have "set (nt_mac (neigh_insert t ip m)) \<subseteq> insert m (set (nt_mac t))"
    unfolding i by (rule set_update_subset_insert)
  with ok m neigh_inv_insert [OF inv] show ?thesis by (auto simp: neigh_ok_def)
qed

lemma neigh_ok_lookup:
  assumes ok: "neigh_ok t" and look: "neigh_lookup t ip = Some m"
  shows "length m = 6"
proof -
  have inv: "neigh_inv t" using ok by (simp add: neigh_ok_def)
  obtain i where i: "i < nt_used t" "nt_mac t ! i = m" using look lookup_Some_iff [OF inv] by blast
  then have "i < length (nt_mac t)" using inv by (simp add: neigh_inv_def)
  then have "m \<in> set (nt_mac t)" using i(2) nth_mem by blast
  with ok show ?thesis by (simp add: neigh_ok_def)
qed

lemma learn_source_len:
  "learn_source f = Some (ip, m) \<Longrightarrow> length m = 6"
  by (auto simp: learn_source_def split: if_splits)

lemma fwd_inv_learn [inv_intros]: "fwd_inv s \<Longrightarrow> fwd_inv (learn W c f s)"
  by (auto simp: learn_def split: option.split
      intro!: fwd_inv_set_neigh neigh_ok_insert fwd_inv_neigh dest: learn_source_len)

lemma chan_set_chan [simp]: "chan c (set_chan c q s) = q"
  by (cases c) simp_all

lemma fwd_inv_set_chan:
  "fwd_inv s \<Longrightarrow> length q \<le> CHAN_DEPTH \<Longrightarrow> \<forall>f \<in> set q. queue_frame f \<Longrightarrow> fwd_inv (set_chan c q s)"
  by (cases c) (auto simp: fwd_inv_def drop_sum_def)

lemma fwd_inv_chan:
  "fwd_inv s \<Longrightarrow> length (chan c s) \<le> CHAN_DEPTH \<and> (\<forall>f \<in> set (chan c s). queue_frame f)"
  by (cases c) (auto simp: fwd_inv_def)

lemma fwd_inv_divert [inv_intros]:
  assumes "fwd_inv s" and "queue_frame f"
  shows "fwd_inv (divert d f s)"
proof (cases "length (chan (egress_ch d) s) < CHAN_DEPTH")
  case True
  let ?s = "set_chan (egress_ch d) (chan (egress_ch d) s @ [f]) s"
  have "fwd_inv ?s"
    using fwd_inv_set_chan [OF assms(1), of "chan (egress_ch d) s @ [f]"] fwd_inv_chan [OF assms(1)]
      assms(2) True by simp
  then show ?thesis
    using True by (simp add: divert_def try_send_def Let_def fwd_inv_def drop_sum_def split: iface.split)
next
  case False
  with assms(1) show ?thesis by (simp add: divert_def try_send_def fwd_inv_count_drop del: count_drop.simps)
qed

lemma fwd_inv_try_receive [inv_intros]:
  assumes "fwd_inv s" and "try_receive c s = Some (f, s')"
  shows "fwd_inv s'" "queue_frame f"
proof -
  obtain q where "chan c s = f # q" "s' = set_chan c q s"
    using assms(2) by (auto split: list.splits)
  then show "fwd_inv s'" "queue_frame f"
    using fwd_inv_chan [OF assms(1), of c] fwd_inv_set_chan [OF assms(1), of q c] by auto
qed

lemma fwd_inv_reap [inv_intros]: "fwd_inv s \<Longrightarrow> fwd_inv (nat_reap now s)"
  by (simp add: nat_reap_def fwd_inv_set_ct fwd_inv_ct ct_inv_reap)

section \<open>The NAT steps\<close>

definition out_tuple :: "bytes \<Rightarrow> l4 \<Rightarrow> tuple" where
  "out_tuple f q = \<lparr>t_proto = l4_proto q, src_ip = ip_at f 26, src_id = l4_src_id q, dst_ip = ip_at f 30,
     dst_id = (if l4_proto q = IcmpEcho then 0 else l4_dst_id q)\<rparr>"

lemma rd_ip_at: "i + 3 < length f \<Longrightarrow> rd_ip f i = Some (ip_at f i)"
  by (simp add: rd_ip_def ip_at_def)

lemma ip_at_rd_ip: "rd_ip f i = Some ip \<Longrightarrow> ip_at f i = ip"
  by (auto simp: rd_ip_def ip_at_def split: if_splits)

lemma egress_nat_off: "\<not> nat_on d \<or> parse_l4 f = None \<Longrightarrow> egress_nat d s f now = Some (Some f, s)"
  by (auto simp: egress_nat_def)

lemma egress_nat_on:
  assumes ct: "ct_inv (wan_ct s)" and on: "nat_on d" and p: "parse_l4 f = Some q"
  obtains i ct where "outbound (wan_ct s) (out_tuple f q) (tcp_flags q) (millis now) = (Some i, ct)"
    "egress_nat d s f now = Some (Some (napt_out 26 f q (our_ip (cfg d)) i), s\<lparr>wan_ct := ct\<rparr>)"
proof -
  obtain i ct where o: "outbound (wan_ct s) (out_tuple f q) (tcp_flags q) (millis now) = (Some i, ct)"
    using outbound_total [OF ct] .
  have "rd_ip f 26 = Some (ip_at f 26)" "rd_ip f 30 = Some (ip_at f 30)"
    using parse_l4_Some(1) [OF p] by (simp_all add: rd_ip_at)
  with o on p have "egress_nat d s f now = Some (Some (napt_out 26 f q (our_ip (cfg d)) i), s\<lparr>wan_ct := ct\<rparr>)"
    by (simp add: egress_nat_def out_tuple_def napt_rewrite_src_eq [OF p])
  with o show thesis by (rule that)
qed

text \<open>Either way the frame keeps its length, everything before the addresses, and its destination.\<close>

lemma egress_nat_frame:
  assumes ct: "ct_inv (wan_ct s)" and f: "34 \<le> length f"
  obtains g ct where "egress_nat d s f now = Some (Some g, s\<lparr>wan_ct := ct\<rparr>)" "ct_inv ct"
    "length g = length f" "\<forall>k < 26. g ! k = f ! k" "ip_at g 30 = ip_at f 30"
proof (cases "nat_on d \<and> parse_l4 f \<noteq> None")
  case False
  then have "egress_nat d s f now = Some (Some f, s\<lparr>wan_ct := wan_ct s\<rparr>)"
    using egress_nat_off [of d f s now] by auto
  with ct show thesis by (intro that) simp_all
next
  case True
  then obtain q where p: "parse_l4 f = Some q" and on: "nat_on d" by auto
  obtain i ct where o: "outbound (wan_ct s) (out_tuple f q) (tcp_flags q) (millis now) = (Some i, ct)"
    and e: "egress_nat d s f now = Some (Some (napt_out 26 f q (our_ip (cfg d)) i), s\<lparr>wan_ct := ct\<rparr>)"
    using egress_nat_on [OF assms(1) on p] .
  note q = parse_l4_Some [OF p]
  show thesis
  proof (rule that [OF e])
    show "ct_inv ct" using ct_inv_outbound [OF assms(1), of "out_tuple f q" "tcp_flags q" "millis now"] o by simp
    show "\<forall>k < 26. napt_out 26 f q (our_ip (cfg d)) i ! k = f ! k"
      using q(2,5) by (intro allI impI napt_out_other) auto
    show "ip_at (napt_out 26 f q (our_ip (cfg d)) i) 30 = ip_at f 30"
      using rd_ip_napt_out(2) [OF p, of 26] f by (intro ip_at_rd_ip) (simp add: rd_ip_at)
  qed simp
qed

section \<open>Egress\<close>

text \<open>
  What the code relies on of smoltcp's \<^verbatim>\<open>Ipv4Packet\<close>: a checked packet has a whole header, the
  accessors read and write the RFC 791 fields, and \<^verbatim>\<open>fill_checksum\<close> changes the checksum field only, so
  that the header's words sum to all ones.
\<close>

definition ihl_bytes :: "bytes \<Rightarrow> nat" where
  "ihl_bytes p = unat (p ! 0 AND 0x0f) * 4"

definition header_checksum_ok :: "bytes \<Rightarrow> bool" where
  "header_checksum_ok p \<longleftrightarrow> osum (words_of (take (ihl_bytes p) p)) = 0xFFFF"

definition ipv4_packet_laws :: "'c wire \<Rightarrow> bool" where
  "ipv4_packet_laws W \<longleftrightarrow> (\<forall>p. pkt_ok W p \<longrightarrow> 20 \<le> length p \<and> hop_limit W p = p ! 8
     \<and> (\<forall>t. set_hop_limit W p t = p[8 := t]
        \<and> (let q = fill_checksum W (p[8 := t])
           in length q = length p \<and> (\<forall>i. i \<noteq> 10 \<and> i \<noteq> 11 \<longrightarrow> q ! i = p[8 := t] ! i)
              \<and> header_checksum_ok q \<and> dst_addr W q = ip_at q 16)))"

lemma ipv4_packet_lawsD:
  assumes "ipv4_packet_laws W" and "pkt_ok W p"
  shows "20 \<le> length p" "hop_limit W p = p ! 8" "set_hop_limit W p t = p[8 := t]"
    "length (fill_checksum W (p[8 := t])) = length p"
    "i \<noteq> 10 \<Longrightarrow> i \<noteq> 11 \<Longrightarrow> fill_checksum W (p[8 := t]) ! i = p[8 := t] ! i"
    "header_checksum_ok (fill_checksum W (p[8 := t]))"
    "dst_addr W (fill_checksum W (p[8 := t])) = ip_at (fill_checksum W (p[8 := t])) 16"
  using assms by (simp_all add: ipv4_packet_laws_def Let_def)

lemma egress_l3_SomeD:
  assumes "egress_l3 W f = Some (Some (g, dst))"
  shows "pkt_ok W (drop 14 f) \<and> 1 < hop_limit W (drop 14 f)
    \<and> g = take 14 f @ fill_checksum W (set_hop_limit W (drop 14 f) (hop_limit W (drop 14 f) - 1))
    \<and> dst = dst_addr W (fill_checksum W (set_hop_limit W (drop 14 f) (hop_limit W (drop 14 f) - 1)))"
  using assms by (simp add: egress_l3_def Let_def not_le split: if_splits)

lemma egress_l3_cases:
  assumes "34 \<le> length f"
  obtains "egress_l3 W f = Some None" | g dst where "egress_l3 W f = Some (Some (g, dst))"
proof (cases "egress_l3 W f")
  case None
  with assms show thesis by (simp add: egress_l3_def Let_def split: if_splits)
next
  case (Some r)
  with that show thesis by (cases r) auto
qed

lemma egress_l3_frame:
  assumes laws: "ipv4_packet_laws W" and e: "egress_l3 W f = Some (Some (g, dst))" and f: "34 \<le> length f"
  shows "length g = length f" "\<And>k. k < length f \<Longrightarrow> k \<noteq> 22 \<Longrightarrow> k \<noteq> 24 \<Longrightarrow> k \<noteq> 25 \<Longrightarrow> g ! k = f ! k"
    "1 < f ! 22" "g ! 22 = f ! 22 - 1" "header_checksum_ok (drop 14 g)" "dst = ip_at f 30"
proof -
  let ?p = "drop 14 f"
  let ?q = "fill_checksum W (?p[8 := ?p ! 8 - 1])"
  note d0 = egress_l3_SomeD [OF e]
  then have ok: "pkt_ok W ?p" by blast
  note law = ipv4_packet_lawsD [OF laws ok]
  have ttl: "1 < ?p ! 8" and g': "g = take 14 f @ ?q" and dst: "dst = dst_addr W ?q"
    using d0 unfolding law(2,3) by blast+
  show "length g = length f" using g' law(4) [of "?p ! 8 - 1"] f by simp
  show "1 < f ! 22" using ttl f by simp
  have q: "g ! (14 + i) = ?q ! i" for i using g' f by (simp add: nth_append)
  show other: "g ! k = f ! k" if "k < length f" "k \<noteq> 22" "k \<noteq> 24" "k \<noteq> 25" for k
  proof (cases "k < 14")
    case True
    then show ?thesis using g' f by (simp add: nth_append)
  next
    case False
    then obtain i where "k = 14 + i" by (metis le_Suc_ex not_less)
    with that q [of i] law(5) [of i "?p ! 8 - 1"] f show ?thesis by simp
  qed
  show "g ! 22 = f ! 22 - 1" using q [of 8] f law(5) [of 8 "?p ! 8 - 1"] by simp
  have d: "drop 14 g = ?q" using g' f by simp
  show "header_checksum_ok (drop 14 g)" unfolding d by (rule law(6))
  have "dst = ip_at ?q 16" unfolding dst by (rule law(7))
  moreover have "?q ! i = f ! (14 + i)" if "16 \<le> i" for i
    using law(5) [of i "?p ! 8 - 1"] that f by simp
  ultimately show "dst = ip_at f 30"
    by (simp add: ip_at_def)
qed

text \<open>The outcomes of \<^verbatim>\<open>egress\<close>.\<close>

datatype outcome = Sent bytes | Dropped drop_reason

definition egress_outcome ::
  "'d phy \<Rightarrow> ('c, 'd) forwarding_device \<Rightarrow> fwd \<Rightarrow> outcome \<Rightarrow> ('c, 'd) forwarding_device \<times> fwd \<Rightarrow> bool" where
  "egress_outcome P d s r ds' =
     (case r of
        Sent g \<Rightarrow> fst (phy_transmit P (inner d))
          \<and> ds' = (d\<lparr>inner := phy_consume P (snd (phy_transmit P (inner d))) g\<rparr>,
              (case iface (cfg d) of
                 Wan \<Rightarrow> s\<lparr>fwd_sent := fwd_sent s + 1, fwd_bytes_to_wan := fwd_bytes_to_wan s + of_nat (length g)\<rparr>
               | Lan \<Rightarrow> s\<lparr>fwd_sent := fwd_sent s + 1, fwd_bytes_to_lan := fwd_bytes_to_lan s + of_nat (length g)\<rparr>))
      | Dropped why \<Rightarrow> snd ds' = count_drop why s
          \<and> fst ds' = (if why = FWD_DROP_TXBUSY then d\<lparr>inner := snd (phy_transmit P (inner d))\<rparr> else d))"

lemma egress_cases:
  assumes ct: "ct_inv (wan_ct s)" and f: "34 \<le> length f"
  obtains g ct r ds' where "egress_nat d s f now = Some (Some g, s\<lparr>wan_ct := ct\<rparr>)" "ct_inv ct"
    "egress W P d s f now = Some ds'" "egress_outcome P d (s\<lparr>wan_ct := ct\<rparr>) r ds'"
    "r \<noteq> Dropped FWD_DROP_NAT" "r \<noteq> Dropped FWD_DROP_QFULL"
    "\<forall>h. r = Sent h \<longrightarrow> (\<exists>g' dst nh m. egress_l3 W g = Some (Some (g', dst))
        \<and> nexthop W dst (subnet (cfg d)) (gateway (cfg d)) = Some nh
        \<and> neigh_lookup (neigh (iface (cfg d)) s) nh = Some m \<and> h = m @ our_mac (cfg d) @ drop 12 g')"
proof -
  obtain g ct where n: "egress_nat d s f now = Some (Some g, s\<lparr>wan_ct := ct\<rparr>)" and inv: "ct_inv ct"
    and len: "length g = length f"
    using egress_nat_frame [OF ct f, of d now] by metis
  let ?s = "s\<lparr>wan_ct := ct\<rparr>"
  have neigh: "neigh i ?s = neigh i s" for i by (cases i) simp_all
  have g34: "34 \<le> length g" using len f by simp
  show thesis
  proof (cases rule: egress_l3_cases [OF g34, of W])
    case 1
    then have "egress W P d s f now = Some (d, count_drop FWD_DROP_OTHER ?s)"
      by (simp add: egress_def n)
    then show thesis
      by (rule that [OF n inv, of _ "Dropped FWD_DROP_OTHER"]) (simp_all add: egress_outcome_def)
  next
    case (2 g' dst)
    note l3 = 2(1)
    show thesis
    proof (cases "nexthop W dst (subnet (cfg d)) (gateway (cfg d))")
      case None
      then have "egress W P d s f now = Some (d, count_drop FWD_DROP_NONH ?s)"
        using l3 by (simp add: egress_def n)
      then show thesis
        by (rule that [OF n inv, of _ "Dropped FWD_DROP_NONH"]) (simp_all add: egress_outcome_def)
    next
      case nh: (Some nh)
      show thesis
      proof (cases "neigh_lookup (neigh (iface (cfg d)) s) nh")
        case None
        then have "egress W P d s f now = Some (d, count_drop FWD_DROP_NONH ?s)"
          using l3 nh neigh by (simp add: egress_def n)
        then show thesis
          by (rule that [OF n inv, of _ "Dropped FWD_DROP_NONH"]) (simp_all add: egress_outcome_def)
      next
        case m: (Some m)
        let ?h = "m @ our_mac (cfg d) @ drop 12 g'"
        obtain ok i where tx: "phy_transmit P (inner d) = (ok, i)" by (cases "phy_transmit P (inner d)")
        show thesis
        proof (cases ok)
          case True
          let ?ds = "(d\<lparr>inner := phy_consume P i ?h\<rparr>,
              (case iface (cfg d) of
                 Wan \<Rightarrow> ?s\<lparr>fwd_sent := fwd_sent s + 1, fwd_bytes_to_wan := fwd_bytes_to_wan s + of_nat (length ?h)\<rparr>
               | Lan \<Rightarrow> ?s\<lparr>fwd_sent := fwd_sent s + 1, fwd_bytes_to_lan := fwd_bytes_to_lan s + of_nat (length ?h)\<rparr>))"
          have "egress W P d s f now = Some ?ds"
            using l3 nh m tx True neigh
            by (simp add: egress_def n Let_def split: iface.split)
          then show thesis
            by (rule that [OF n inv, of _ "Sent ?h"])
              (use tx True nh m l3 in \<open>simp_all add: egress_outcome_def split: iface.split\<close>)
        next
          case False
          then have "egress W P d s f now = Some (d\<lparr>inner := i\<rparr>, count_drop FWD_DROP_TXBUSY ?s)"
            using l3 nh m tx neigh by (simp add: egress_def n Let_def)
          then show thesis
            by (rule that [OF n inv, of _ "Dropped FWD_DROP_TXBUSY"]) (use tx in \<open>simp_all add: egress_outcome_def\<close>)
        qed
      qed
    qed
  qed
qed

lemma fwd_inv_egress [inv_intros]:
  assumes inv: "fwd_inv s" and f: "34 \<le> length f" and e: "egress W P d s f now = Some (d', s')"
  shows "fwd_inv s'"
proof -
  obtain g ct r ds' where ct: "ct_inv ct" and e': "egress W P d s f now = Some ds'"
    and o: "egress_outcome P d (s\<lparr>wan_ct := ct\<rparr>) r ds'"
    using egress_cases [OF fwd_inv_ct [OF inv] f, of d now W P] by metis
  have inv': "fwd_inv (s\<lparr>wan_ct := ct\<rparr>)" using inv ct by (rule fwd_inv_set_ct)
  show ?thesis
  proof (cases r)
    case (Sent g)
    with o e e' inv' show ?thesis
      by (cases "iface (cfg d)") (auto simp: egress_outcome_def fwd_inv_def drop_sum_def)
  next
    case (Dropped why)
    with o e e' have "s' = count_drop why (s\<lparr>wan_ct := ct\<rparr>)" by (auto simp: egress_outcome_def)
    with inv' show ?thesis by (simp only: fwd_inv_count_drop)
  qed
qed

section \<open>Classification of an ingress frame\<close>

text \<open>Whether a frame is a reply the NAPT side of \<^verbatim>\<open>classify_frame\<close> looks up, and what it looks up.\<close>

definition reply_candidate :: "('c, 'd) forwarding_device \<Rightarrow> bytes \<Rightarrow> bool" where
  "reply_candidate d f \<longleftrightarrow> nat_on d \<and> our_ip (cfg d) \<noteq> UNSPECIFIED \<and> 34 \<le> length f \<and> take 6 f = our_mac (cfg d)
     \<and> ipv4_dst f = Some (our_ip (cfg d)) \<and> parse_l4 f \<noteq> None"

definition reply_lookup :: "fwd \<Rightarrow> bytes \<Rightarrow> int \<Rightarrow> (ipv4 \<times> u16) option \<times> conntrack" where
  "reply_lookup s f ts =
     (let q = the (parse_l4 f)
      in inbound (wan_ct s) (l4_proto q) (ip_at f 26) (if l4_proto q = IcmpEcho then 0 else l4_src_id q)
           (if l4_proto q = IcmpEcho then l4_src_id q else l4_dst_id q) (tcp_flags q) (millis ts))"

lemma classify_frame_eq:
  "classify_frame W d s f ts =
     (if \<not> reply_candidate d f then Some (classify W (cfg d) f, f, s)
      else case reply_lookup s f ts of
        (Some (ip, v), ct) \<Rightarrow> Some (Transit, napt_out 30 f (the (parse_l4 f)) ip v, s\<lparr>wan_ct := ct\<rparr>)
      | (None, ct) \<Rightarrow> Some (classify W (cfg d) f, f, s\<lparr>wan_ct := ct\<rparr>))"
proof (cases "parse_l4 f")
  case None
  then show ?thesis by (simp add: classify_frame_def reply_candidate_def Let_def)
next
  case (Some q)
  have "rd_ip f 26 = Some (ip_at f 26)" using parse_l4_Some(1) [OF Some] by (simp add: rd_ip_at)
  with Some show ?thesis
    by (simp add: classify_frame_def reply_candidate_def reply_lookup_def Let_def
        napt_rewrite_dst_eq [OF Some] split: proto.split option.split prod.split)
qed

lemma inbound_miss: "inbound ct pr rip rid w fl now = (None, ct') \<Longrightarrow> ct' = ct"
  by (auto simp: inbound_def split: option.splits)

lemma classify_frame_total:
  obtains c g s' where "classify_frame W d s f ts = Some (c, g, s')" "length g = length f"
    "c \<noteq> Transit \<Longrightarrow> g = f"
proof (cases "classify_frame W d s f ts")
  case None
  then show thesis by (simp add: classify_frame_eq split: if_splits prod.splits option.splits)
next
  case (Some r)
  then obtain c g s' where r: "r = (c, g, s')" by (cases r)
  with Some show thesis
    by (intro that [of c g s'])
      (auto simp: classify_frame_eq split: if_splits prod.splits option.splits)
qed

lemma classify_Transit_len: "classify W c f = Transit \<Longrightarrow> 34 \<le> length f"
  by (auto simp: classify_def ipv4_dst_def split: if_splits option.splits)

lemma classify_frame_Transit_len:
  assumes "classify_frame W d s f ts = Some (Transit, g, s')"
  shows "34 \<le> length g \<and> length g = length f"
  using assms
  by (auto simp: classify_frame_eq reply_candidate_def split: if_splits prod.splits option.splits
      dest: classify_Transit_len [OF sym] classify_Transit_len)

lemma fwd_inv_classify_frame [inv_intros]:
  assumes inv: "fwd_inv s" and c: "classify_frame W d s f ts = Some (c, g, s')"
  shows "fwd_inv s'"
proof -
  have "ct_inv ct" if "reply_lookup s f ts = (r, ct)" for r ct
    using that ct_inv_inbound [OF fwd_inv_ct [OF inv]] unfolding reply_lookup_def Let_def
    by (metis snd_conv)
  with c inv show ?thesis
    by (auto simp: classify_frame_eq intro: fwd_inv_set_ct split: if_splits prod.splits option.splits)
qed

section \<open>Receive\<close>

text \<open>One iteration of the loop.\<close>

lemma fd_receive_empty:
  "phy_receive P (inner d) = (None, i) \<Longrightarrow> fd_receive W P d s ts = Some (None, d\<lparr>inner := i\<rparr>, s)"
  by (subst fd_receive.simps) simp

lemma fd_receive_frame:
  assumes "phy_receive P (inner d) = (Some buf, i)"
    and "classify_frame W (d\<lparr>inner := i\<rparr>) (learn W (cfg d) (take FRAME_CAP buf) s) (take FRAME_CAP buf) ts
      = Some (c, g, s')"
  shows "fd_receive W P d s ts =
    (case c of
       Local \<Rightarrow> Some (if fst (phy_transmit P i) then Some g else None, d\<lparr>inner := snd (phy_transmit P i)\<rparr>, s')
     | Transit \<Rightarrow> fd_receive W P (d\<lparr>inner := i\<rparr>) (divert d g s') ts
     | Drop \<Rightarrow> fd_receive W P (d\<lparr>inner := i\<rparr>) (count_drop FWD_DROP_OTHER s') ts)"
proof -
  have "divert (d\<lparr>inner := i\<rparr>) g s' = divert d g s'"
    by (cases "try_send (egress_ch d) g s'") (simp_all add: divert_def)
  then show ?thesis
    using assms by (subst fd_receive.simps) (simp add: Let_def split: Class.split prod.split bool.split)
qed

text \<open>
  An inner device that holds finitely many frames: \<open>m\<close> counts what \<^verbatim>\<open>receive\<close> can still hand out.
\<close>

definition drains :: "'d phy \<Rightarrow> ('d \<Rightarrow> nat) \<Rightarrow> bool" where
  "drains P m \<longleftrightarrow> (\<forall>i f i'. phy_receive P i = (Some f, i') \<longrightarrow> m i' < m i)"

text \<open>Frames that went into the channel of an interface, as its counter has them.\<close>

definition diverted :: "iface \<Rightarrow> fwd \<Rightarrow> u32" where
  "diverted i s = (case i of Lan \<Rightarrow> fwd_l2w s | Wan \<Rightarrow> fwd_w2l s)"

lemma diverted_divert:
  "diverted (iface (cfg d)) (divert d g s) + fwd_drop (divert d g s) = diverted (iface (cfg d)) s + fwd_drop s + 1"
proof (cases "length (chan (egress_ch d) s) < CHAN_DEPTH")
  case True
  then show ?thesis
    by (cases "egress_ch d"; cases "iface (cfg d)") (simp_all add: divert_def try_send_def Let_def diverted_def)
next
  case False
  then show ?thesis
    by (cases "iface (cfg d)") (simp_all add: divert_def try_send_def diverted_def)
qed

lemma diverted_learn [simp]:
  "diverted i (learn W c f s) = diverted i s" "fwd_drop (learn W c f s) = fwd_drop s"
proof -
  have "diverted i (set_neigh j t s) = diverted i s" "fwd_drop (set_neigh j t s) = fwd_drop s" for j t
    by (cases j; simp add: diverted_def split: iface.split)+
  then show "diverted i (learn W c f s) = diverted i s" "fwd_drop (learn W c f s) = fwd_drop s"
    by (simp_all add: learn_def split: option.split)
qed

lemma diverted_classify_frame:
  "classify_frame W d s f ts = Some (c, g, s') \<Longrightarrow> diverted i s' = diverted i s \<and> fwd_drop s' = fwd_drop s"
  by (cases i) (auto simp: classify_frame_eq diverted_def split: if_splits prod.splits option.splits)

lemma diverted_count_drop: "diverted i (count_drop r s) = diverted i s" "fwd_drop (count_drop r s) = fwd_drop s + 1"
  by (cases r; cases i; simp add: diverted_def)+

text \<open>The frames the loop takes from the phy, one after the other.\<close>

fun takes :: "'d phy \<Rightarrow> 'd \<Rightarrow> bytes list \<Rightarrow> 'd \<Rightarrow> bool" where
  "takes P i [] j \<longleftrightarrow> i = j"
| "takes P i (f # fs) j \<longleftrightarrow> (\<exists>k. phy_receive P i = (Some f, k) \<and> takes P k fs j)"

text \<open>How the loop ends after \<open>fs\<close> were taken: the phy is empty, or the last frame is local. \<open>k\<close> frames
  were diverted or dropped.\<close>

definition receive_ends ::
  "'c wire \<Rightarrow> 'd phy \<Rightarrow> ('c, 'd) forwarding_device \<Rightarrow> bytes list \<Rightarrow> 'd \<Rightarrow> bytes option \<Rightarrow> 'd \<Rightarrow> nat \<Rightarrow> bool" where
  "receive_ends W P d fs j r j' k \<longleftrightarrow>
     (r = None \<and> phy_receive P j = (None, j') \<and> k = length fs)
     \<or> (\<exists>fs' buf g. fs = fs' @ [buf] \<and> g = take FRAME_CAP buf \<and> classify W (cfg d) g = Local
          \<and> phy_transmit P j = (r \<noteq> None, j') \<and> (r = None \<or> r = Some g) \<and> k = length fs')"

lemma receive_ends_Cons:
  assumes "receive_ends W P (d\<lparr>inner := i\<rparr>) fs j r j' k"
  shows "receive_ends W P d (buf # fs) j r j' (Suc k)"
proof -
  consider "r = None" "phy_receive P j = (None, j')" "k = length fs"
    | fs' b g where "fs = fs' @ [b]" "g = take FRAME_CAP b" "classify W (cfg d) g = Local"
        "phy_transmit P j = (r \<noteq> None, j')" "r = None \<or> r = Some g" "k = length fs'"
    using assms by (auto simp: receive_ends_def)
  then show ?thesis
  proof cases
    case 1
    then show ?thesis by (simp add: receive_ends_def)
  next
    case (2 fs' b g)
    then show ?thesis
      unfolding receive_ends_def by (intro disjI2 exI [of _ "buf # fs'"] exI [of _ b] exI [of _ g]) simp
  qed
qed

lemma fd_receive_correct:
  assumes drain: "drains P m" and inv: "fwd_inv s"
  shows "\<exists>r j' s' fs j k. fd_receive W P d s ts = Some (r, d\<lparr>inner := j'\<rparr>, s') \<and> fwd_inv s'
    \<and> takes P (inner d) fs j \<and> receive_ends W P d fs j r j' k
    \<and> diverted (iface (cfg d)) s' + fwd_drop s' = diverted (iface (cfg d)) s + fwd_drop s + of_nat k"
  using inv
proof (induction "m (inner d)" arbitrary: d s rule: less_induct)
  case less
  show ?case
  proof (cases "phy_receive P (inner d)")
    case (Pair fo i)
    show ?thesis
    proof (cases fo)
      case None
      then show ?thesis
        using Pair less.prems by (intro exI [of _ None] exI [of _ i] exI [of _ s] exI [of _ "[]"]
            exI [of _ "inner d"] exI [of _ 0]) (simp add: fd_receive_empty receive_ends_def)
    next
      case (Some buf)
      let ?f = "take FRAME_CAP buf" and ?s1 = "learn W (cfg d) (take FRAME_CAP buf) s"
      let ?d = "d\<lparr>inner := i\<rparr>"
      obtain c g s2 where cf: "classify_frame W ?d ?s1 ?f ts = Some (c, g, s2)"
        and len: "length g = length ?f" and same: "c \<noteq> Transit \<Longrightarrow> g = ?f"
        using classify_frame_total [of W ?d ?s1 ?f ts] by metis
      have step: "fd_receive W P d s ts = (case c of
         Local \<Rightarrow> Some (if fst (phy_transmit P i) then Some g else None, d\<lparr>inner := snd (phy_transmit P i)\<rparr>, s2)
       | Transit \<Rightarrow> fd_receive W P ?d (divert d g s2) ts
       | Drop \<Rightarrow> fd_receive W P ?d (count_drop FWD_DROP_OTHER s2) ts)"
        using fd_receive_frame [of P d buf i W s ts c g s2] Pair Some cf by simp
      have inv2: "fwd_inv s2"
        using fwd_inv_classify_frame [OF fwd_inv_learn [OF less.prems] cf] .
      have cnt: "diverted j s2 + fwd_drop s2 = diverted j s + fwd_drop s" for j
        using diverted_classify_frame [OF cf] by simp
      have lt: "m (inner ?d) < m (inner d)"
        using drain Pair Some by (simp add: drains_def)
      have again: ?thesis
        if go: "fd_receive W P d s ts = fd_receive W P ?d s3 ts" and inv3: "fwd_inv s3"
          and cnt3: "diverted (iface (cfg d)) s3 + fwd_drop s3 = diverted (iface (cfg d)) s + fwd_drop s + 1" for s3
      proof -
        obtain r j' s' fs j k where ih: "fd_receive W P ?d s3 ts = Some (r, ?d\<lparr>inner := j'\<rparr>, s')" "fwd_inv s'"
          "takes P i fs j" "receive_ends W P ?d fs j r j' k"
          "diverted (iface (cfg d)) s' + fwd_drop s' = diverted (iface (cfg d)) s3 + fwd_drop s3 + of_nat k"
          using less.hyps [OF lt inv3] by auto
        have "receive_ends W P d (buf # fs) j r j' (Suc k)"
          by (rule receive_ends_Cons [OF ih(4)])
        moreover have "takes P (inner d) (buf # fs) j" using ih(3) Pair Some by simp
        ultimately show ?thesis
          using ih(1,2,5) cnt3 go
          by (intro exI [of _ r] exI [of _ j'] exI [of _ s'] exI [of _ "buf # fs"] exI [of _ j] exI [of _ "Suc k"])
            (simp add: algebra_simps)
      qed
      show ?thesis
      proof (cases c)
        case Local
        have "classify W (cfg d) ?f = Local"
          using cf Local
          by (auto simp: classify_frame_eq split: if_splits prod.splits option.splits)
        then have "receive_ends W P d [buf] i (if fst (phy_transmit P i) then Some g else None)
            (snd (phy_transmit P i)) 0"
          using same Local by (auto simp: receive_ends_def prod_eq_iff)
        then show ?thesis
          using step Local inv2 cnt Pair Some
          by (intro exI [of _ "if fst (phy_transmit P i) then Some g else None"]
              exI [of _ "snd (phy_transmit P i)"] exI [of _ s2] exI [of _ "[buf]"] exI [of _ i] exI [of _ 0]) simp
      next
        case Transit
        then have "queue_frame g"
          using cf classify_frame_Transit_len [of W ?d ?s1 ?f ts g s2] len by (simp add: queue_frame_def)
        show ?thesis
        proof (rule again)
          show "fd_receive W P d s ts = fd_receive W P ?d (divert d g s2) ts" using step Transit by simp
          show "fwd_inv (divert d g s2)" by (rule fwd_inv_divert [OF inv2 \<open>queue_frame g\<close>])
          show "diverted (iface (cfg d)) (divert d g s2) + fwd_drop (divert d g s2)
            = diverted (iface (cfg d)) s + fwd_drop s + 1"
            using diverted_divert [of d g s2] cnt by simp
        qed
      next
        case Drop
        show ?thesis
        proof (rule again)
          show "fd_receive W P d s ts = fd_receive W P ?d (count_drop FWD_DROP_OTHER s2) ts"
            using step Drop by simp
          show "fwd_inv (count_drop FWD_DROP_OTHER s2)" by (rule fwd_inv_count_drop [OF inv2])
          show "diverted (iface (cfg d)) (count_drop FWD_DROP_OTHER s2) + fwd_drop (count_drop FWD_DROP_OTHER s2)
            = diverted (iface (cfg d)) s + fwd_drop s + 1"
            using cnt by (simp only: diverted_count_drop) (simp add: algebra_simps)
        qed
      qed
    qed
  qed
qed

section \<open>An RFC 791 instance of the parameters\<close>

text \<open>A concrete \<open>wire\<close> and a phy that is a list of frames received and a list of frames sent; the
  witnesses use them, and the laws above are shown to be consistent.\<close>

fun ipv4_word :: "ipv4 \<Rightarrow> u32" where
  "ipv4_word (Ipv4 a b c d) = le32 d c b a"

definition rfc_fill :: "bytes \<Rightarrow> bytes" where
  "rfc_fill p = put16 p 10 (NOT (osum (words_of (take (ihl_bytes p) (put16 p 10 0)))))"

definition rfc_wire :: "(ipv4 \<times> nat) wire" where
  "rfc_wire = \<lparr>contains_addr = (\<lambda>(net, n) ip. drop_bit (32 - n) (ipv4_word net) = drop_bit (32 - n) (ipv4_word ip)),
     cidr_address = fst, pkt_ok = (\<lambda>p. 20 \<le> length p \<and> 20 \<le> ihl_bytes p \<and> ihl_bytes p \<le> length p),
     hop_limit = (\<lambda>p. p ! 8), set_hop_limit = (\<lambda>p t. p[8 := t]), fill_checksum = rfc_fill,
     dst_addr = (\<lambda>p. ip_at p 16)\<rparr>"

definition list_phy :: "(bytes list \<times> bytes list) phy" where
  "list_phy = \<lparr>phy_receive = (\<lambda>(rx, tx). case rx of [] \<Rightarrow> (None, ([], tx)) | f # rx \<Rightarrow> (Some f, (rx, tx))),
     phy_transmit = (\<lambda>i. (True, i)), phy_consume = (\<lambda>(rx, tx) f. (rx, tx @ [f]))\<rparr>"

lemma drains_list_phy: "drains list_phy (\<lambda>i. length (fst i))"
  by (auto simp: drains_def list_phy_def split: list.splits prod.splits)

lemma osum_update:
  assumes "k < length ws"
  shows "osum (ws[k := w]) = add1c w (osum (ws[k := 0]))"
proof -
  have "mset (ws[k := w]) = mset (w # (mset_rest))" if "mset ws = {#ws ! k#} + mset mset_rest" for mset_rest w
    using mset_update [OF assms, of w] that by simp
  moreover obtain rest where "mset ws = {#ws ! k#} + mset rest"
    using assms by (metis add_mset_add_single ex_mset mset_add nth_mem_mset union_commute)
  ultimately have "mset (ws[k := w]) = mset (w # rest)" "mset (ws[k := 0]) = mset (0 # rest)" by blast+
  then have "osum (ws[k := w]) = osum (w # rest)" "osum (ws[k := 0]) = osum (0 # rest)"
    by (intro osum_mset; simp)+
  then show ?thesis by simp
qed

lemma rfc_fill_ok:
  assumes "20 \<le> ihl_bytes p" and "ihl_bytes p \<le> length p"
  shows "length (rfc_fill p) = length p" "i \<noteq> 10 \<Longrightarrow> i \<noteq> 11 \<Longrightarrow> rfc_fill p ! i = p ! i"
    "header_checksum_ok (rfc_fill p)"
proof -
  show "length (rfc_fill p) = length p" by (simp add: rfc_fill_def)
  show "i \<noteq> 10 \<Longrightarrow> i \<noteq> 11 \<Longrightarrow> rfc_fill p ! i = p ! i" for i by (simp add: rfc_fill_def)
  then have ihl: "ihl_bytes (rfc_fill p) = ihl_bytes p" by (simp add: ihl_bytes_def)
  let ?n = "ihl_bytes p" and ?ws = "words_of (take (ihl_bytes p) p)"
  have upd: "words_of (take ?n (put16 p 10 v)) = ?ws[5 := v]" for v
  proof -
    have "take ?n (put16 p 10 v) = put16 (take ?n p) (2 * 5) v"
      by (simp add: put16_def take_update_swap)
    then show ?thesis using assms words_of_put16 [of 5 "take ?n p" v] by simp
  qed
  have "5 < length ?ws" using assms by (simp add: length_words_of)
  then have "osum (?ws[5 := NOT (osum (?ws[5 := 0]))]) = 0xFFFF"
    using osum_update [of 5 ?ws "NOT (osum (?ws[5 := 0]))"] add1c_NOT add1c_commute by metis
  then show "header_checksum_ok (rfc_fill p)"
    unfolding header_checksum_ok_def ihl by (simp add: rfc_fill_def upd)
qed

lemma rfc_wire_laws: "ipv4_packet_laws rfc_wire"
proof -
  have "length (rfc_fill (p[8 := t])) = length p \<and> (\<forall>i. i \<noteq> 10 \<and> i \<noteq> 11 \<longrightarrow> rfc_fill (p[8 := t]) ! i = p[8 := t] ! i)
      \<and> header_checksum_ok (rfc_fill (p[8 := t]))" if "20 \<le> ihl_bytes p" "ihl_bytes p \<le> length p" for p t
  proof -
    have ihl: "ihl_bytes (p[8 := t]) = ihl_bytes p" by (simp add: ihl_bytes_def)
    have "20 \<le> ihl_bytes (p[8 := t])" "ihl_bytes (p[8 := t]) \<le> length (p[8 := t])"
      using that unfolding ihl by simp_all
    from rfc_fill_ok [OF this] show ?thesis by auto
  qed
  then show ?thesis
    by (simp add: ipv4_packet_laws_def rfc_wire_def Let_def)
qed

text \<open>A forwarding channel refuses a frame when it is full; the caller counts it.\<close>

definition channel_get :: "fwd_channel \<Rightarrow> fwd \<Rightarrow> bytes option \<times> fwd" where
  "channel_get c s = (case try_receive c s of None \<Rightarrow> (None, s) | Some (f, s) \<Rightarrow> (Some f, s))"

lemma divert_channel:
  "chan (egress_ch d) (divert d f s)
     = (if length (chan (egress_ch d) s) < CHAN_DEPTH then chan (egress_ch d) s @ [f] else chan (egress_ch d) s)"
  "fwd_drop (divert d f s) = (if length (chan (egress_ch d) s) < CHAN_DEPTH then fwd_drop s else fwd_drop s + 1)"
  by (cases "egress_ch d"; cases "iface (cfg d)"; simp add: divert_def try_send_def Let_def)+

lemma set_chan_drop [simp]: "fwd_drop (set_chan c q s) = fwd_drop s"
  by (cases c) simp_all

interpretation channel: frame_queue "\<lambda>s. length (chan (egress_ch d) s) \<le> CHAN_DEPTH" "divert d" "channel_get (egress_ch d)"
  "chan (egress_ch d)" fwd_drop CHAN_DEPTH for d
  by unfold_locales (auto simp: divert_channel channel_get_def simp del: count_drop.simps split: list.splits)

section \<open>Properties\<close>

text \<open>The router's WAN side with a lease, the gateway known, for the witnesses.\<close>

definition wan_mac :: mac where
  "wan_mac = [0x12, 0x34, 0x56, 0x78, 0x9A, 0xBC]"

definition wan_dev :: "bytes list \<Rightarrow> (ipv4 \<times> nat, bytes list \<times> bytes list) forwarding_device" where
  "wan_dev rx = fd_new_napt (rx, []) \<lparr>iface = Wan, our_mac = wan_mac, our_ip = Ipv4 192 168 37 129,
     subnet = (Ipv4 192 168 37 129, 24), gateway = Some (Ipv4 192 168 37 1),
     accept_dst = Some (Ipv4 192 168 4 1, 24)\<rparr> WAN_TO_LAN"

definition fwd_gw :: fwd where
  "fwd_gw = fwd_new\<lparr>wan_neigh := neigh_insert neigh_new (Ipv4 192 168 37 1) [2, 0, 0, 0, 0, 7]\<rparr>"

lemma fwd_inv_gw: "fwd_inv fwd_gw"
proof -
  have "fwd_gw = set_neigh Wan (neigh_insert neigh_new (Ipv4 192 168 37 1) [2, 0, 0, 0, 0, 7]) fwd_new"
    by (simp add: fwd_gw_def)
  then show ?thesis
    using fwd_inv_set_neigh [OF fwd_inv_new neigh_ok_insert [OF neigh_ok_new],
        of "[2, 0, 0, 0, 0, 7]" Wan "Ipv4 192 168 37 1"] by simp
qed



lemma egress_sent:
  assumes laws: "ipv4_packet_laws W" and inv: "fwd_inv s" and f: "queue_frame f"
    and mac: "length (our_mac (cfg d)) = 6"
    and e: "egress W P d s f now = Some (d', s')" and sent: "fwd_drop s' = fwd_drop s"
  shows "\<exists>g nh m. d' = d\<lparr>inner := phy_consume P (snd (phy_transmit P (inner d))) g\<rparr> \<and> fst (phy_transmit P (inner d))
    \<and> length g = length f \<and> take 6 g = m \<and> take 6 (drop 6 g) = our_mac (cfg d)
    \<and> nexthop W (ip_at f 30) (subnet (cfg d)) (gateway (cfg d)) = Some nh
    \<and> neigh_lookup (neigh (iface (cfg d)) s) nh = Some m
    \<and> 1 < f ! 22 \<and> g ! 22 = f ! 22 - 1 \<and> header_checksum_ok (drop 14 g) \<and> ip_at g 30 = ip_at f 30"
proof -
  have f34: "34 \<le> length f" using f by (simp add: queue_frame_def)
  note ct = fwd_inv_ct [OF inv]
  obtain f1 ct1 where n: "egress_nat d s f now = Some (Some f1, s\<lparr>wan_ct := ct1\<rparr>)"
    and f1: "length f1 = length f" "\<forall>k < 26. f1 ! k = f ! k" "ip_at f1 30 = ip_at f 30"
    using egress_nat_frame [OF ct f34, of d now] by metis
  obtain f1' ct' r ds' where n': "egress_nat d s f now = Some (Some f1', s\<lparr>wan_ct := ct'\<rparr>)"
    and "ct_inv ct'" and e': "egress W P d s f now = Some ds'"
    and o': "egress_outcome P d (s\<lparr>wan_ct := ct'\<rparr>) r ds'"
    and "r \<noteq> Dropped FWD_DROP_NAT" "r \<noteq> Dropped FWD_DROP_QFULL"
    and how: "\<forall>h. r = Sent h \<longrightarrow> (\<exists>g' dst nh m. egress_l3 W f1' = Some (Some (g', dst))
        \<and> nexthop W dst (subnet (cfg d)) (gateway (cfg d)) = Some nh
        \<and> neigh_lookup (neigh (iface (cfg d)) s) nh = Some m \<and> h = m @ our_mac (cfg d) @ drop 12 g')"
    using egress_cases [OF ct f34, of d now W P] .
  have o: "egress_outcome P d (s\<lparr>wan_ct := ct'\<rparr>) r (d', s')" using o' e e' by simp
  have f1': "f1' = f1" using n n' by simp
  obtain h where r: "r = Sent h"
  proof (cases r)
    case (Dropped why)
    with o have "s' = count_drop why (s\<lparr>wan_ct := ct'\<rparr>)" by (simp add: egress_outcome_def)
    then have "fwd_drop s' = fwd_drop s + 1" by (cases why) simp_all
    with sent show thesis by simp
  qed
  with how f1' obtain g' dst nh m where l3: "egress_l3 W f1 = Some (Some (g', dst))"
    and nh: "nexthop W dst (subnet (cfg d)) (gateway (cfg d)) = Some nh"
    and m: "neigh_lookup (neigh (iface (cfg d)) s) nh = Some m" and h: "h = m @ our_mac (cfg d) @ drop 12 g'"
    by blast
  have f134: "34 \<le> length f1" using f1(1) f34 by simp
  note g' = egress_l3_frame [OF laws l3 f134]
  have ok: "neigh_ok (neigh (iface (cfg d)) s)" by (rule fwd_inv_neigh [OF inv])
  have lm: "length m = 6" by (rule neigh_ok_lookup [OF ok m])
  have hk: "h ! k = g' ! k" if "12 \<le> k" for k
  proof -
    have k: "k = 12 + (k - 12)" using that by simp
    define j where "j = k - 12"
    note k = k [folded j_def]
    have "h ! k = drop 12 g' ! j"
      unfolding h k using lm mac nth_append_length_plus [of "m @ our_mac (cfg d)" "drop 12 g'" j] by simp
    also have "\<dots> = g' ! k" unfolding k using g'(1) f134 by (intro nth_drop) simp
    finally show ?thesis .
  qed
  have d14: "drop 14 h = drop 14 g'" using lm mac by (simp add: h)
  have "h ! 22 = f ! 22 - 1" "1 < f ! 22" using hk [of 22] g'(3,4) f1(2) by simp_all
  moreover have "header_checksum_ok (drop 14 h)" unfolding d14 by (rule g'(5))
  moreover have "ip_at h 30 = ip_at f 30"
    using hk [of 30] hk [of 31] hk [of 32] hk [of 33] g'(2) [of 30] g'(2) [of 31] g'(2) [of 32] g'(2) [of 33]
      f134 f1(3) by (simp add: ip_at_def)
  moreover have "dst = ip_at f 30" using g'(6) f1(3) by simp
  moreover have "length h = length f" using lm mac g'(1) f1(1) f34 by (simp add: h)
  moreover have "take 6 h = m" "take 6 (drop 6 h) = our_mac (cfg d)" using lm mac by (simp_all add: h)
  ultimately show ?thesis
    using o r nh m by (intro exI [of _ h] exI [of _ nh] exI [of _ m]) (simp add: egress_outcome_def)
qed



text \<open>C9. \<^verbatim>\<open>receive\<close> returns whenever the phy can hand out only finitely many frames, without a panic, and
  accounts for everything: of the frames it takes, all but a last local one are diverted or dropped,
  and the two counters move by exactly that number; a returned frame is the last one taken, is
  classified \<open>Local\<close>, and is returned whole up to \<open>FRAME_CAP\<close>; the invariant holds afterwards.\<close>

theorem receive_accounts:
  assumes "drains P m" and "fwd_inv s"
  shows "\<exists>r j' s' fs j k. fd_receive W P d s ts = Some (r, d\<lparr>inner := j'\<rparr>, s') \<and> fwd_inv s'
    \<and> takes P (inner d) fs j \<and> receive_ends W P d fs j r j' k
    \<and> diverted (iface (cfg d)) s' + fwd_drop s' = diverted (iface (cfg d)) s + fwd_drop s + of_nat k"
  by (rule fd_receive_correct [OF assms])

theorem receive_accounts_witness:
  "\<exists>r j' s' fs j k. fd_receive rfc_wire list_phy (wan_dev [udp_frame, udp_frame]) fwd_gw 7
      = Some (r, (wan_dev [udp_frame, udp_frame])\<lparr>inner := j'\<rparr>, s') \<and> fwd_inv s'
    \<and> takes list_phy (inner (wan_dev [udp_frame, udp_frame])) fs j
    \<and> receive_ends rfc_wire list_phy (wan_dev [udp_frame, udp_frame]) fs j r j' k
    \<and> diverted (iface (cfg (wan_dev [udp_frame, udp_frame]))) s' + fwd_drop s'
        = diverted (iface (cfg (wan_dev [udp_frame, udp_frame]))) fwd_gw + fwd_drop fwd_gw + of_nat k"
  by (rule receive_accounts [OF drains_list_phy fwd_inv_gw])

text \<open>\<open>r\<close> answers \<open>g\<close> at the transport layer: same protocol, addresses and ports exchanged, or the same
  echo identifier.\<close>

definition answers :: "bytes \<Rightarrow> bytes \<Rightarrow> bool" where
  "answers r g =
     (case (parse_l4 r, parse_l4 g) of
        (Some b, Some a) \<Rightarrow> l4_proto b = l4_proto a \<and> ip_at r 26 = ip_at g 30 \<and> ip_at r 30 = ip_at g 26
          \<and> l4_src_id b = (if l4_proto a = IcmpEcho then l4_src_id a else l4_dst_id a)
          \<and> l4_dst_id b = (if l4_proto a = IcmpEcho then 0 else l4_src_id a)
      | _ \<Rightarrow> False)"

lemma ipv4_dst_parse: "parse_l4 r = Some b \<Longrightarrow> ipv4_dst r = Some (ip_at r 30)"
  using parse_l4_Some(1,8) [of r b] by (auto simp: ipv4_dst_def ethertype_def ETHERTYPE_IPV4_def)

text \<open>C1. NAPT end to end, on frames: a frame of a LAN client leaves the NAT step of \<^verbatim>\<open>egress\<close> with the
  router's address as its source; a frame that answers it, arriving for the router on the WAN within
  ten seconds, is diverted to the LAN with the client's own address and id as its destination and
  the peer's address untouched.\<close>

theorem nat_frame_round_trip:
  assumes inv: "fwd_inv s" and on: "nat_on d" and ip: "our_ip (cfg d) \<noteq> UNSPECIFIED"
    and out: "egress_nat d s f now = Some (Some g, s')" and p: "parse_l4 f = Some q"
    and ans: "answers r g" and mac: "take 6 r = our_mac (cfg d)"
    and fresh: "sat_sub (millis now') (millis now) < 10000"
  shows "ip_at g 26 = our_ip (cfg d) \<and> (\<exists>h s''. classify_frame W d s' r now' = Some (Transit, h, s'')
    \<and> ip_at h 30 = ip_at f 26 \<and> ip_at h 26 = ip_at f 30
    \<and> map_option (\<lambda>l. if l4_proto l = IcmpEcho then l4_src_id l else l4_dst_id l) (parse_l4 h) = Some (l4_src_id q))"
proof -
  note ct = fwd_inv_ct [OF inv]
  obtain i ct' where o: "outbound (wan_ct s) (out_tuple f q) (tcp_flags q) (millis now) = (Some i, ct')"
    and e: "egress_nat d s f now = Some (Some (napt_out 26 f q (our_ip (cfg d)) i), s\<lparr>wan_ct := ct'\<rparr>)"
    using egress_nat_on [OF ct on p] .
  have g: "g = napt_out 26 f q (our_ip (cfg d)) i" and s': "s' = s\<lparr>wan_ct := ct'\<rparr>" using out e by simp_all
  have pg: "parse_l4 g = Some (with_src_id q i)" unfolding g by (rule parse_napt_out(1) [OF p])
  have f34: "34 \<le> length f" using parse_l4_Some(1) [OF p] .
  have gs: "ip_at g 26 = our_ip (cfg d)" "ip_at g 30 = ip_at f 30"
    using rd_ip_napt_out [OF p, of 26 "our_ip (cfg d)" i] f34 by (auto simp: g rd_ip_at intro: ip_at_rd_ip)
  obtain b where pr: "parse_l4 r = Some b"
    using ans by (auto simp: answers_def split: option.splits)
  have b: "l4_proto b = l4_proto q" "ip_at r 26 = ip_at f 30" "ip_at r 30 = our_ip (cfg d)"
    "l4_src_id b = (if l4_proto q = IcmpEcho then i else l4_dst_id q)"
    "l4_dst_id b = (if l4_proto q = IcmpEcho then 0 else i)"
    using ans pr pg gs by (auto simp: answers_def with_src_id_def)
  have r34: "34 \<le> length r" using parse_l4_Some(1) [OF pr] .
  have cand: "reply_candidate d r"
    using on ip r34 mac pr b(3) ipv4_dst_parse [OF pr] by (simp add: reply_candidate_def)
  have "fst (inbound ct' (l4_proto q) (ip_at f 30) (dst_id (out_tuple f q)) i (tcp_flags b) (millis now'))
      = Some (ip_at f 26, l4_src_id q)"
    using outbound_reply [OF ct o fresh, of "tcp_flags b"] by (simp add: out_tuple_def)
  then have look: "fst (reply_lookup s' r now') = Some (ip_at f 26, l4_src_id q)"
    using b by (cases "l4_proto q = IcmpEcho") (simp_all add: reply_lookup_def pr s' out_tuple_def)
  obtain ct2 where l2: "reply_lookup s' r now' = (Some (ip_at f 26, l4_src_id q), ct2)"
    using look by (cases "reply_lookup s' r now'") simp
  let ?h = "napt_out 30 r b (ip_at f 26) (l4_src_id q)"
  have "classify_frame W d s' r now' = Some (Transit, ?h, s'\<lparr>wan_ct := ct2\<rparr>)"
    using cand l2 pr by (simp add: classify_frame_eq)
  moreover have "ip_at ?h 30 = ip_at f 26" "ip_at ?h 26 = ip_at f 30"
    using rd_ip_napt_out [OF pr, of 30 "ip_at f 26" "l4_src_id q"] r34 b(2)
    by (auto simp: rd_ip_at intro: ip_at_rd_ip)
  moreover have "parse_l4 ?h = Some (with_dst_id b (l4_src_id q))" by (rule parse_napt_out(2) [OF pr])
  ultimately show ?thesis
    using gs(1) by (auto simp: with_dst_id_def)
qed

text \<open>The answer to the witness's frame: a DNS reply to the id it was given.\<close>

definition udp_reply :: bytes where
  "udp_reply = wan_mac @ [2, 0, 0, 0, 0, 7, 0x08, 0x00,
     0x45, 0, 0, 30, 0, 0, 0, 0, 64, 17, 0, 0, 8, 8, 8, 8, 192, 168, 37, 129,
     0, 53, 0xC0, 0, 0, 10, 0, 0, 3, 4]"

theorem nat_frame_round_trip_witness:
  "\<exists>h s''. classify_frame rfc_wire (wan_dev []) (snd (the (egress_nat (wan_dev []) fwd_gw udp_frame 7))) udp_reply 500
     = Some (Transit, h, s'') \<and> ip_at h 30 = Ipv4 192 168 4 10 \<and> ip_at h 26 = Ipv4 8 8 8 8"
proof -
  let ?e = "egress_nat (wan_dev []) fwd_gw udp_frame 7"
  have p: "parse_l4 udp_frame = Some (the (parse_l4 udp_frame))" by code_simp
  have e: "?e = Some (Some (the (fst (the ?e))), snd (the ?e))"
  proof (rule egress_nat_frame [OF fwd_inv_ct [OF fwd_inv_gw], of udp_frame "wan_dev []" 7])
    show "34 \<le> length udp_frame" by (simp add: udp_frame_def)
  qed simp
  have "ip_at (the (fst (the ?e))) 26 = our_ip (cfg (wan_dev []))
    \<and> (\<exists>h s''. classify_frame rfc_wire (wan_dev []) (snd (the ?e)) udp_reply 500 = Some (Transit, h, s'')
    \<and> ip_at h 30 = ip_at udp_frame 26 \<and> ip_at h 26 = ip_at udp_frame 30
    \<and> map_option (\<lambda>l. if l4_proto l = IcmpEcho then l4_src_id l else l4_dst_id l) (parse_l4 h)
        = Some (l4_src_id (the (parse_l4 udp_frame))))"
  proof (rule nat_frame_round_trip [OF fwd_inv_gw _ _ e p])
    show "nat_on (wan_dev [])" by code_simp
    show "our_ip (cfg (wan_dev [])) \<noteq> UNSPECIFIED" by code_simp
    show "answers udp_reply (the (fst (the ?e)))" by code_simp
    show "take 6 udp_reply = our_mac (cfg (wan_dev []))" by code_simp
    show "sat_sub (millis 500) (millis 7) < 10000" by code_simp
  qed
  moreover have "ip_at udp_frame 26 = Ipv4 192 168 4 10" "ip_at udp_frame 30 = Ipv4 8 8 8 8"
    by code_simp+
  ultimately show ?thesis by metis
qed



text \<open>Until an interface has an address nothing is diverted, learned or asked: every frame goes to the
  stack unchanged and the gateway is not ARPed.\<close>

theorem no_forwarding_before_lease:
  "let d0 = d\<lparr>cfg := (cfg d)\<lparr>our_ip := UNSPECIFIED\<rparr>\<rparr>
   in classify_frame W d0 s f ts = Some (Local, f, s) \<and> learn W (cfg d0) f s = s \<and> arp_gateway P d0 = d0"
  by (simp add: Let_def classify_frame_eq reply_candidate_def classify_def learn_def arp_gateway_def
      split: option.split)

end
