(* ===== verification/Dhcp.thy ===== *)
theory Dhcp
  imports Forward
begin

text \<open>
  The LAN DHCP server, \<^verbatim>\<open>src/dhcp_server.rs\<close>: a fixed pool of 32 addresses, one slot per client MAC. The codec
  and the UDP socket are smoltcp's and are parameters: \<^verbatim>\<open>DhcpPacket::new_checked\<close> with \<^verbatim>\<open>DhcpRepr::parse\<close>, \<^verbatim>\<open>buffer_len\<close> with
  \<^verbatim>\<open>emit\<close>, and the socket's operations over a state of any type.
\<close>

section \<open>Leases\<close>

definition SERVER_IP :: ipv4 where "SERVER_IP = Ipv4 192 168 4 1"
definition SUBNET_MASK :: ipv4 where "SUBNET_MASK = Ipv4 255 255 255 0"
definition POOL_BASE :: u8 where "POOL_BASE = 10"
definition POOL_LEN :: nat where "POOL_LEN = 32"
definition LEASE_SECS :: u32 where "LEASE_SECS = 3600"
definition OPT_DNS_SERVER :: u8 where "OPT_DNS_SERVER = 6"

text \<open>The server, with the statics \<^verbatim>\<open>DHCP_TX\<close> and \<^verbatim>\<open>LAN_DNS_OFFER\<close>.\<close>

record dhcp_server =
  leases :: "mac option list"
  dhcp_tx :: u32
  lan_dns_offer :: u32

definition dhcp_new :: dhcp_server where
  "dhcp_new = \<lparr>leases = replicate POOL_LEN None, dhcp_tx = 0, lan_dns_offer = 0x08080808\<rparr>"

definition ip_for :: "nat \<Rightarrow> ipv4" where
  "ip_for i = Ipv4 192 168 4 (POOL_BASE + of_nat i)"

definition active_leases :: "dhcp_server \<Rightarrow> (ipv4 \<times> mac) list" where
  "active_leases d = List.map_filter (\<lambda>(i, slot). map_option (\<lambda>mac. (ip_for i, mac)) slot) (enumerate 0 (leases d))"

definition allocate :: "dhcp_server \<Rightarrow> mac \<Rightarrow> ipv4 option \<times> dhcp_server" where
  "allocate d mac = (case position (\<lambda>s. s = Some mac) (leases d) of
     Some i \<Rightarrow> (Some (ip_for i), d)
   | None \<Rightarrow>
       (case position (\<lambda>s. s = None) (leases d) of
          None \<Rightarrow> (None, d)
        | Some i \<Rightarrow> (Some (ip_for i), d\<lparr>leases := (leases d)[i := Some mac]\<rparr>)))"

section \<open>Replies\<close>

datatype message_type = Discover | Offer | Request | Decline | Ack | Nak | Release | Inform | Unknown u8

text \<open>The fields of \<^verbatim>\<open>smoltcp::wire::DhcpRepr\<close> that the server reads and writes.\<close>

record dhcp_repr =
  message_type :: message_type
  transaction_id :: u32
  secs :: u16
  client_hardware_address :: mac
  client_ip :: ipv4
  your_ip :: ipv4
  server_ip :: ipv4
  router :: "ipv4 option"
  subnet_mask :: "ipv4 option"
  relay_agent_ip :: ipv4
  broadcast :: bool
  requested_ip :: "ipv4 option"
  server_identifier :: "ipv4 option"
  lease_duration :: "u32 option"
  additional_options :: "(u8 \<times> bytes) list"

record dhcp_codec =
  parse_dhcp :: "bytes \<Rightarrow> dhcp_repr option"
  buffer_len :: "dhcp_repr \<Rightarrow> nat"
  emit_dhcp :: "dhcp_repr \<Rightarrow> bytes option"

definition to_be32 :: "u32 \<Rightarrow> bytes" where
  "to_be32 w = rev (to_le32 w)"

definition make_reply :: "dhcp_repr \<Rightarrow> message_type \<Rightarrow> ipv4 \<Rightarrow> u32 \<Rightarrow> dhcp_repr" where
  "make_reply req reply_type ip dns =
     \<lparr>message_type = reply_type, transaction_id = transaction_id req, secs = 0,
      client_hardware_address = client_hardware_address req, client_ip = UNSPECIFIED, your_ip = ip,
      server_ip = UNSPECIFIED, router = Some SERVER_IP, subnet_mask = Some SUBNET_MASK,
      relay_agent_ip = UNSPECIFIED, broadcast = True, requested_ip = None,
      server_identifier = Some SERVER_IP, lease_duration = Some LEASE_SECS,
      additional_options = [(OPT_DNS_SERVER, to_be32 dns)]\<rparr>"

definition build_reply :: "dhcp_codec \<Rightarrow> dhcp_server \<Rightarrow> bytes \<Rightarrow> bytes option \<times> dhcp_server" where
  "build_reply codec d req_bytes =
     (case parse_dhcp codec req_bytes of
        None \<Rightarrow> (None, d)
      | Some req \<Rightarrow>
          (case (case message_type req of Discover \<Rightarrow> Some Offer | Request \<Rightarrow> Some Ack | _ \<Rightarrow> None) of
             None \<Rightarrow> (None, d)
           | Some reply_type \<Rightarrow>
               (case allocate d (client_hardware_address req) of
                  (None, d) \<Rightarrow> (None, d)
                | (Some ip, d) \<Rightarrow>
                    (let reply = make_reply req reply_type ip (lan_dns_offer d)
                     in if 1024 < buffer_len codec reply then (None, d) else (emit_dhcp codec reply, d)))))"

record 's udp_socket =
  is_open :: "'s \<Rightarrow> bool"
  bind_port :: "'s \<Rightarrow> u16 \<Rightarrow> 's"
  recv_slice :: "'s \<Rightarrow> bytes option \<times> 's"
  send_slice :: "'s \<Rightarrow> bytes \<Rightarrow> ipv4 \<Rightarrow> u16 \<Rightarrow> bool \<times> 's"

definition DHCP_SERVER_PORT :: u16 where "DHCP_SERVER_PORT = 67"
definition DHCP_CLIENT_PORT :: u16 where "DHCP_CLIENT_PORT = 68"

primrec poll_loop :: "dhcp_codec \<Rightarrow> 's udp_socket \<Rightarrow> nat \<Rightarrow> dhcp_server \<times> 's \<Rightarrow> dhcp_server \<times> 's" where
  "poll_loop codec ops 0 ds = ds"
| "poll_loop codec ops (Suc n) ds = (case ds of (d, s) \<Rightarrow>
     (case recv_slice ops s of
        (None, s) \<Rightarrow> (d, s)
      | (Some req, s) \<Rightarrow>
          (case build_reply codec d req of
             (None, d) \<Rightarrow> poll_loop codec ops n (d, s)
           | (Some reply, d) \<Rightarrow>
               (case send_slice ops s reply (Ipv4 255 255 255 255) DHCP_CLIENT_PORT of
                  (ok, s) \<Rightarrow> poll_loop codec ops n (if ok then d\<lparr>dhcp_tx := dhcp_tx d + 1\<rparr> else d, s)))))"

definition dhcp_poll :: "dhcp_codec \<Rightarrow> 's udp_socket \<Rightarrow> dhcp_server \<Rightarrow> 's \<Rightarrow> dhcp_server \<times> 's" where
  "dhcp_poll codec ops d s =
     (let s = (if is_open ops s then s else bind_port ops s DHCP_SERVER_PORT)
      in poll_loop codec ops 4 (d, s))"

section \<open>The pool\<close>

text \<open>A client holds at most one slot.\<close>

definition leases_ok :: "dhcp_server \<Rightarrow> bool" where
  "leases_ok d \<longleftrightarrow> length (leases d) = POOL_LEN
     \<and> (\<forall>i j m. i < POOL_LEN \<and> j < POOL_LEN \<and> leases d ! i = Some m \<and> leases d ! j = Some m \<longrightarrow> i = j)"

definition holds :: "dhcp_server \<Rightarrow> mac \<Rightarrow> ipv4 \<Rightarrow> bool" where
  "holds d m ip \<longleftrightarrow> (\<exists>i < POOL_LEN. leases d ! i = Some m \<and> ip = ip_for i)"

lemma ip_for_inj: "i < POOL_LEN \<Longrightarrow> j < POOL_LEN \<Longrightarrow> ip_for i = ip_for j \<longleftrightarrow> i = j"
proof -
  assume "i < POOL_LEN" "j < POOL_LEN"
  then have "unat (of_nat i :: u8) = i" "unat (of_nat j :: u8) = j"
    by (simp_all add: POOL_LEN_def unat_of_nat)
  then have "(of_nat i :: u8) = of_nat j \<longleftrightarrow> i = j" by (metis word_unat_eq_iff)
  then show ?thesis by (simp add: ip_for_def)
qed

lemma ip_for_range: "i < POOL_LEN \<Longrightarrow> \<exists>o4. ip_for i = Ipv4 192 168 4 o4 \<and> 10 \<le> unat o4 \<and> unat o4 \<le> 41"
proof -
  assume i: "i < POOL_LEN"
  then have "unat (POOL_BASE + of_nat i :: u8) = 10 + i"
    by (simp add: POOL_LEN_def POOL_BASE_def unat_word_ariths unat_of_nat)
  with i show ?thesis by (simp add: ip_for_def POOL_LEN_def)
qed

lemma dhcp_new_ok: "leases_ok dhcp_new"
  by (auto simp: leases_ok_def dhcp_new_def)

lemma allocate_cases:
  assumes "leases_ok d"
  obtains (known) i where "i < POOL_LEN" and "leases d ! i = Some m" and "allocate d m = (Some (ip_for i), d)"
  | (fresh) i where "i < POOL_LEN" and "leases d ! i = None" and "\<forall>j < POOL_LEN. leases d ! j \<noteq> Some m"
      and "allocate d m = (Some (ip_for i), d\<lparr>leases := (leases d)[i := Some m]\<rparr>)"
  | (full) "\<forall>j < POOL_LEN. leases d ! j \<noteq> None \<and> leases d ! j \<noteq> Some m" and "allocate d m = (None, d)"
proof (cases "position (\<lambda>s. s = Some m) (leases d)")
  case (Some i)
  with position_SomeD [OF Some] assms show ?thesis by (intro known) (auto simp: allocate_def leases_ok_def)
next
  case None
  then have absent: "\<forall>j < POOL_LEN. leases d ! j \<noteq> Some m"
    using assms by (auto simp: position_None_iff leases_ok_def) 
  show ?thesis
  proof (cases "position (\<lambda>s. s = None) (leases d)")
    case (Some i)
    with position_SomeD [OF Some] assms None absent show ?thesis
      by (intro fresh) (auto simp: allocate_def leases_ok_def)
  next
    case none: None
    then have "\<forall>j < POOL_LEN. leases d ! j \<noteq> None"
      using assms by (auto simp: position_None_iff leases_ok_def) 
    with absent None none show ?thesis by (intro full) (auto simp: allocate_def)
  qed
qed

lemma holds_functional: "leases_ok d \<Longrightarrow> holds d m ip \<Longrightarrow> holds d m ip' \<Longrightarrow> ip = ip'"
  by (auto simp: holds_def leases_ok_def)

lemma holds_exclusive: "holds d m ip \<Longrightarrow> holds d m' ip \<Longrightarrow> m = m'"
  by (auto simp: holds_def ip_for_inj)

lemma holds_update:
  assumes "leases_ok d" and "i < POOL_LEN" and "leases d ! i = None"
  shows "holds (d\<lparr>leases := (leases d)[i := Some m]\<rparr>) m' ip \<longleftrightarrow> holds d m' ip \<or> (m' = m \<and> ip = ip_for i)"
proof -
  have "length (leases d) = POOL_LEN" using assms(1) by (simp add: leases_ok_def)
  then have u: "leases (d\<lparr>leases := (leases d)[i := Some m]\<rparr>) ! j = (if j = i then Some m else leases d ! j)" for j
    using assms(2) by simp
  show ?thesis unfolding holds_def u using assms(2,3) by (metis option.distinct(1) option.inject)
qed

lemma allocate_ok:
  assumes "leases_ok d" and "allocate d m = (r, d')"
  shows "leases_ok d'" and "\<forall>ip. r = Some ip \<longrightarrow> holds d' m ip" and "\<forall>m' ip. holds d m' ip \<longrightarrow> holds d' m' ip"
    and "\<forall>m' ip. m' \<noteq> m \<longrightarrow> holds d' m' ip = holds d m' ip"
    and "r = None \<longleftrightarrow> (\<forall>j < POOL_LEN. leases d ! j \<noteq> None \<and> leases d ! j \<noteq> Some m)"
    and "dhcp_tx d' = dhcp_tx d" and "lan_dns_offer d' = lan_dns_offer d"
proof -
  have "leases_ok d' \<and> (\<forall>ip. r = Some ip \<longrightarrow> holds d' m ip) \<and> (\<forall>m' ip. holds d m' ip \<longrightarrow> holds d' m' ip)
    \<and> (\<forall>m' ip. m' \<noteq> m \<longrightarrow> holds d' m' ip = holds d m' ip)
    \<and> (r = None \<longleftrightarrow> (\<forall>j < POOL_LEN. leases d ! j \<noteq> None \<and> leases d ! j \<noteq> Some m))
    \<and> dhcp_tx d' = dhcp_tx d \<and> lan_dns_offer d' = lan_dns_offer d"
  proof (rule allocate_cases [OF assms(1), of m])
    fix i assume i: "i < POOL_LEN" "leases d ! i = Some m" "allocate d m = (Some (ip_for i), d)"
    with assms show ?thesis by (auto simp: holds_def)
  next
    fix i assume i: "i < POOL_LEN" "leases d ! i = None" "\<forall>j < POOL_LEN. leases d ! j \<noteq> Some m"
      "allocate d m = (Some (ip_for i), d\<lparr>leases := (leases d)[i := Some m]\<rparr>)"
    have d': "d' = d\<lparr>leases := (leases d)[i := Some m]\<rparr>" "r = Some (ip_for i)" using assms(2) i(4) by simp_all
    have "leases_ok d'"
      using assms(1) i(1,3) by (auto simp: leases_ok_def d' nth_list_update split: if_splits)
    then show ?thesis using i holds_update [OF assms(1) i(1,2)] by (auto simp: d')
  next
    assume "\<forall>j < POOL_LEN. leases d ! j \<noteq> None \<and> leases d ! j \<noteq> Some m" "allocate d m = (None, d)"
    with assms show ?thesis by auto
  qed
  then show "leases_ok d'" and "\<forall>ip. r = Some ip \<longrightarrow> holds d' m ip" and "\<forall>m' ip. holds d m' ip \<longrightarrow> holds d' m' ip"
    and "\<forall>m' ip. m' \<noteq> m \<longrightarrow> holds d' m' ip = holds d m' ip"
    and "r = None \<longleftrightarrow> (\<forall>j < POOL_LEN. leases d ! j \<noteq> None \<and> leases d ! j \<noteq> Some m)"
    and "dhcp_tx d' = dhcp_tx d" and "lan_dns_offer d' = lan_dns_offer d" by blast+
qed

lemma allocate_again:
  assumes "leases_ok d" and "holds d m ip"
  shows "allocate d m = (Some ip, d)"
proof (rule allocate_cases [OF assms(1), of m])
  fix i assume i: "i < POOL_LEN" "leases d ! i = Some m" "allocate d m = (Some (ip_for i), d)"
  then have "holds d m (ip_for i)" by (auto simp: holds_def)
  with i holds_functional [OF assms(1) this assms(2)] show ?thesis by simp
qed (use assms(2) in \<open>auto simp: holds_def\<close>)

lemma build_reply_cases:
  assumes "build_reply codec d req_bytes = (r, d')"
  obtains (silent) "r = None" and "d' = d"
  | (full) req where "r = None" and "parse_dhcp codec req_bytes = Some req"
      and "allocate d (client_hardware_address req) = (None, d')"
  | (leased) req t ip where "parse_dhcp codec req_bytes = Some req"
      and "message_type req = Discover \<and> t = Offer \<or> message_type req = Request \<and> t = Ack"
      and "allocate d (client_hardware_address req) = (Some ip, d')"
      and "r = (if 1024 < buffer_len codec (make_reply req t ip (lan_dns_offer d')) then None
        else emit_dhcp codec (make_reply req t ip (lan_dns_offer d')))"
proof (cases "parse_dhcp codec req_bytes")
  case None
  with assms show ?thesis by (intro silent) (simp_all add: build_reply_def)
next
  case (Some req)
  obtain q d2 where a: "allocate d (client_hardware_address req) = (q, d2)" by force
  show ?thesis
  proof (cases "message_type req = Discover \<or> message_type req = Request")
    case False
    with assms Some show ?thesis
      by (intro silent) (auto simp: build_reply_def split: message_type.splits)
  next
    case True
    define t where "t = (if message_type req = Discover then Offer else Ack)"
    have t: "(case message_type req of Discover \<Rightarrow> Some Offer | Request \<Rightarrow> Some Ack | _ \<Rightarrow> None) = Some t"
      using True by (auto simp: t_def)
    show ?thesis
    proof (cases q)
      case None
      with assms Some a t show ?thesis by (intro full [of req]) (simp_all add: build_reply_def)
    next
      case (Some ip)
      with assms \<open>parse_dhcp codec req_bytes = Some req\<close> a t True show ?thesis
        by (intro leased [of req t ip]) (auto simp: build_reply_def Let_def t_def split: if_splits)
    qed
  qed
qed

lemma build_reply_ok:
  assumes "leases_ok d" and "build_reply codec d req_bytes = (r, d')"
  shows "leases_ok d'" and "\<forall>m ip. holds d m ip \<longrightarrow> holds d' m ip" and "dhcp_tx d' = dhcp_tx d"
proof -
  have "leases_ok d' \<and> (\<forall>m ip. holds d m ip \<longrightarrow> holds d' m ip) \<and> dhcp_tx d' = dhcp_tx d"
    using assms(2)
  proof (cases rule: build_reply_cases)
    case silent
    with assms(1) show ?thesis by simp
  next
    case (full req)
    show ?thesis using allocate_ok [OF assms(1) full(3)] by blast
  next
    case (leased req t ip)
    show ?thesis using allocate_ok [OF assms(1) leased(3)] by blast
  qed
  then show "leases_ok d'" and "\<forall>m ip. holds d m ip \<longrightarrow> holds d' m ip" and "dhcp_tx d' = dhcp_tx d" by blast+
qed

lemma leases_fields [simp]:
  "leases_ok (d\<lparr>dhcp_tx := n\<rparr>) = leases_ok d" "leases_ok (d\<lparr>lan_dns_offer := w\<rparr>) = leases_ok d"
  "holds (d\<lparr>dhcp_tx := n\<rparr>) = holds d" "holds (d\<lparr>lan_dns_offer := w\<rparr>) = holds d"
  by (simp_all add: leases_ok_def fun_eq_iff holds_def)

lemma poll_loop_leases:
  "leases_ok d \<Longrightarrow> poll_loop codec ops n (d, s) = (d', s') \<Longrightarrow>
     leases_ok d' \<and> (\<forall>m ip. holds d m ip \<longrightarrow> holds d' m ip)"
proof (induction n arbitrary: d s)
  case (Suc n)
  obtain q s1 where rq: "recv_slice ops s = (q, s1)" by force
  show ?case
  proof (cases q)
    case None
    with Suc.prems rq show ?thesis by simp
  next
    case (Some req)
    obtain r d1 where b: "build_reply codec d req = (r, d1)" by force
    note ok = build_reply_ok [OF Suc.prems(1) b]
    obtain d2 s2 where step: "poll_loop codec ops n (d2, s2) = (d', s')" "leases_ok d2" "holds d2 = holds d1"
      using Suc.prems(2) rq Some b ok(1) by (auto split: option.splits prod.splits if_splits)
    with Suc.IH [OF step(2,1)] ok(2) show ?thesis by auto
  qed
qed simp

lemma dhcp_poll_leases:
  "leases_ok d \<Longrightarrow> dhcp_poll codec ops d s = (d', s') \<Longrightarrow> leases_ok d' \<and> (\<forall>m ip. holds d m ip \<longrightarrow> holds d' m ip)"
  unfolding dhcp_poll_def Let_def by (rule poll_loop_leases)

lemma poll_loop_ok:
  "leases_ok d \<Longrightarrow> poll_loop codec ops n (d, s) = (d', s') \<Longrightarrow> unat (dhcp_tx d) + n < 2 ^ 32 \<Longrightarrow>
     leases_ok d' \<and> (\<forall>m ip. holds d m ip \<longrightarrow> holds d' m ip)
     \<and> unat (dhcp_tx d) \<le> unat (dhcp_tx d') \<and> unat (dhcp_tx d') \<le> unat (dhcp_tx d) + n"
proof (induction n arbitrary: d s)
  case (Suc n)
  obtain q s1 where rq: "recv_slice ops s = (q, s1)" by force
  show ?case
  proof (cases q)
    case None
    with Suc.prems rq show ?thesis by simp
  next
    case (Some req)
    obtain r d1 where b: "build_reply codec d req = (r, d1)" by force
    note ok = build_reply_ok [OF Suc.prems(1) b]
    show ?thesis
    proof (cases r)
      case None
      with Suc.IH [OF ok(1), of s1] Suc.prems rq Some b ok show ?thesis by auto
    next
      case (Some reply)
      obtain sent s2 where se: "send_slice ops s1 reply (Ipv4 255 255 255 255) DHCP_CLIENT_PORT = (sent, s2)" by force
      define d2 where "d2 = (if sent then d1\<lparr>dhcp_tx := dhcp_tx d1 + 1\<rparr> else d1)"
      have d2: "leases_ok d2" "holds d2 = holds d1" using ok(1) by (simp_all add: d2_def)
      have tx: "unat (dhcp_tx d2) = unat (dhcp_tx d) + (if sent then 1 else 0)"
        using ok(3) Suc.prems(3) by (simp add: d2_def unat_word_ariths)
      have step: "poll_loop codec ops n (d2, s2) = (d', s')"
        using Suc.prems(2) rq \<open>q = Some req\<close> b Some se by (simp add: d2_def)
      have "unat (dhcp_tx d2) + n < 2 ^ 32" using tx Suc.prems(3) by simp
      from Suc.IH [OF d2(1) step this] d2(2) ok(2) tx show ?thesis by (auto split: if_splits)
    qed
  qed
qed simp

section \<open>Properties\<close>

text \<open>C27. The address pool: a client that asks gets an address of 192.168.4.10 to .41 that no other client holds, keeps it when it asks
  again, and nobody else's lease changes. Only when all 32 slots are
  taken by others is there no address, and no slot is ever given back.\<close>

theorem dhcp_allocation:
  assumes "leases_ok d"
  shows "\<exists>r d'. allocate d m = (r, d') \<and> leases_ok d'
    \<and> (r = None \<longleftrightarrow> (\<forall>j < POOL_LEN. leases d ! j \<noteq> None \<and> leases d ! j \<noteq> Some m))
    \<and> (\<forall>ip. r = Some ip \<longrightarrow> (\<exists>o4. ip = Ipv4 192 168 4 o4 \<and> 10 \<le> unat o4 \<and> unat o4 \<le> 41)
        \<and> holds d' m ip \<and> (\<forall>m'. holds d' m' ip \<longrightarrow> m' = m) \<and> allocate d' m = (Some ip, d'))
    \<and> (\<forall>m' ip. m' \<noteq> m \<longrightarrow> holds d' m' ip = holds d m' ip)"
proof -
  obtain r d' where a: "allocate d m = (r, d')" by force
  note ok = allocate_ok [OF assms a]
  have "(\<exists>o4. ip = Ipv4 192 168 4 o4 \<and> 10 \<le> unat o4 \<and> unat o4 \<le> 41)
        \<and> holds d' m ip \<and> (\<forall>m'. holds d' m' ip \<longrightarrow> m' = m) \<and> allocate d' m = (Some ip, d')"
    if r: "r = Some ip" for ip
  proof -
    have h: "holds d' m ip" using ok(2) r by blast
    then obtain i where "i < POOL_LEN" "ip = ip_for i" by (auto simp: holds_def)
    then show ?thesis
      using ip_for_range [of i] h holds_exclusive [of d' _ ip m] allocate_again [OF ok(1) h] by blast
  qed
  with a ok(1,4,5) show ?thesis by blast
qed

lemma fresh_pool: "leases dhcp_new = None # replicate 31 None"
  by (simp only: dhcp_new_def POOL_LEN_def dhcp_server.simps replicate_Suc [symmetric]) simp

lemma no_lease: "position (\<lambda>s. s = Some m) (replicate n None) = None"
  by (simp add: position_None_iff)

lemma first_lease:
  "allocate dhcp_new m = (Some (Ipv4 192 168 4 10), dhcp_new\<lparr>leases := Some m # replicate 31 None\<rparr>)"
  by (simp add: allocate_def fresh_pool no_lease ip_for_def POOL_BASE_def)

theorem dhcp_allocation_witness:
  "\<exists>d'. allocate dhcp_new [2, 0, 0, 0, 0, 9] = (Some (Ipv4 192 168 4 10), d') \<and> leases_ok d'
    \<and> allocate d' [2, 0, 0, 0, 0, 9] = (Some (Ipv4 192 168 4 10), d')"
  using dhcp_allocation [OF dhcp_new_ok, of "[2, 0, 0, 0, 0, 9]"] unfolding first_lease by blast

text \<open>C28. The server's poll, over any codec and any socket: no lease is ever lost or doubled, and a poll answers at most
  four requests. What goes out is an OFFER for a DISCOVER or an ACK for a REQUEST, built for an address
  the asking client then holds, with its transaction id; any other message changes nothing.\<close>

theorem dhcp_poll_sound:
  assumes "leases_ok d" and "unat (dhcp_tx d) + 4 < 2 ^ 32"
  shows "(case dhcp_poll codec ops d s of (d', s') \<Rightarrow>
        leases_ok d' \<and> (\<forall>m ip. holds d m ip \<longrightarrow> holds d' m ip) \<and> unat (dhcp_tx d') \<le> unat (dhcp_tx d) + 4)
    \<and> (case build_reply codec d req_bytes of (r, d') \<Rightarrow>
        (\<forall>reply. r = Some reply \<longrightarrow> (\<exists>req t ip. parse_dhcp codec req_bytes = Some req
          \<and> (message_type req = Discover \<and> t = Offer \<or> message_type req = Request \<and> t = Ack)
          \<and> holds d' (client_hardware_address req) ip
          \<and> emit_dhcp codec (make_reply req t ip (lan_dns_offer d)) = Some reply))
        \<and> (d' \<noteq> d \<longrightarrow> (\<exists>req. parse_dhcp codec req_bytes = Some req \<and> message_type req \<in> {Discover, Request})))"
proof
  obtain d' s' where p: "dhcp_poll codec ops d s = (d', s')" by force
  then show "case dhcp_poll codec ops d s of (d', s') \<Rightarrow>
        leases_ok d' \<and> (\<forall>m ip. holds d m ip \<longrightarrow> holds d' m ip) \<and> unat (dhcp_tx d') \<le> unat (dhcp_tx d) + 4"
    using poll_loop_ok [OF assms(1) _ assms(2), of codec ops] by (auto simp: dhcp_poll_def Let_def)
  obtain r d1 where b: "build_reply codec d req_bytes = (r, d1)" by force
  show "case build_reply codec d req_bytes of (r, d') \<Rightarrow>
        (\<forall>reply. r = Some reply \<longrightarrow> (\<exists>req t ip. parse_dhcp codec req_bytes = Some req
          \<and> (message_type req = Discover \<and> t = Offer \<or> message_type req = Request \<and> t = Ack)
          \<and> holds d' (client_hardware_address req) ip
          \<and> emit_dhcp codec (make_reply req t ip (lan_dns_offer d)) = Some reply))
        \<and> (d' \<noteq> d \<longrightarrow> (\<exists>req. parse_dhcp codec req_bytes = Some req \<and> message_type req \<in> {Discover, Request}))"
    using b
  proof (cases rule: build_reply_cases)
    case silent
    with b show ?thesis by simp
  next
    case (full req)
    have "d1 = d"
      by (rule allocate_cases [OF assms(1), of "client_hardware_address req"]) (use full(3) in auto)
    with b full show ?thesis by simp
  next
    case (leased req t ip)
    note ok = allocate_ok [OF assms(1) leased(3)]
    from leased b ok(2,7) show ?thesis by (auto split: if_splits)
  qed
qed

text \<open>A codec that reads a one-byte message kind and a socket with an empty queue, for the witness.\<close>

definition blank_repr :: dhcp_repr where
  "blank_repr = \<lparr>message_type = Discover, transaction_id = 7, secs = 0, client_hardware_address = [2, 0, 0, 0, 0, 5],
     client_ip = UNSPECIFIED, your_ip = UNSPECIFIED, server_ip = UNSPECIFIED, router = None, subnet_mask = None,
     relay_agent_ip = UNSPECIFIED, broadcast = False, requested_ip = None, server_identifier = None,
     lease_duration = None, additional_options = []\<rparr>"

definition tiny_codec :: dhcp_codec where
  "tiny_codec = \<lparr>parse_dhcp = (\<lambda>bs. if bs = [1] then Some blank_repr else None), buffer_len = (\<lambda>r. 4),
     emit_dhcp = (\<lambda>r. Some (octets (your_ip r)))\<rparr>"

definition queue_socket :: "bytes list udp_socket" where
  "queue_socket = \<lparr>is_open = (\<lambda>q. True), bind_port = (\<lambda>q p. q),
     recv_slice = (\<lambda>q. case q of [] \<Rightarrow> (None, []) | x # xs \<Rightarrow> (Some x, xs)), send_slice = (\<lambda>q b ip p. (True, q))\<rparr>"

theorem dhcp_poll_sound_witness:
  "leases_ok (fst (dhcp_poll tiny_codec queue_socket dhcp_new [[1], [2], [1]]))
   \<and> fst (build_reply tiny_codec dhcp_new [1]) = Some [192, 168, 4, 10]"
proof
  have "unat (dhcp_tx dhcp_new) + 4 < 2 ^ 32" by (simp add: dhcp_new_def)
  from dhcp_poll_sound [OF dhcp_new_ok this, where codec = tiny_codec and ops = queue_socket and s = "[[1], [2], [1]]" and req_bytes = "[]"]
  show "leases_ok (fst (dhcp_poll tiny_codec queue_socket dhcp_new [[1], [2], [1]]))"
    by (auto split: prod.splits)
  show "fst (build_reply tiny_codec dhcp_new [1]) = Some [192, 168, 4, 10]"
    by (simp add: build_reply_def tiny_codec_def blank_repr_def first_lease make_reply_def Let_def)
qed

end
