(* ===== verification/Status.thy ===== *)
theory Status
  imports Fmt Wan EthMac Dhcp
begin

text \<open>
  What the firmware reports: the cycle accounting of \<^verbatim>\<open>src/cycles.rs\<close>, the \<^verbatim>\<open>[Wan]\<close> body of \<^verbatim>\<open>src/wan.rs\<close>, the 1 Hz lines
  of \<^verbatim>\<open>usb_task\<close> and the body of the status page (\<^verbatim>\<open>src/wireless.rs\<close>), and the lines of \<^verbatim>\<open>log_status\<close> (\<^verbatim>\<open>src/main.rs\<close>).
  \<^verbatim>\<open>usize\<close> values are printed as the 32-bit words they are on the target. The statics these functions read are
  the record \<open>lan_stats\<close> beside the records of the other components. smoltcp's \<^verbatim>\<open>Display\<close> of a \<^verbatim>\<open>Ipv4Cidr\<close> is the parameter
  \<open>show_cidr\<close>.
\<close>

section \<open>The firmware's address\<close>

definition OUR_MAC :: mac where "OUR_MAC = [0x12, 0x34, 0x56, 0x78, 0x9A, 0xBC]"

section \<open>Cycle accounting\<close>

definition SYS_CLK_HZ :: u32 where "SYS_CLK_HZ = 240000000"

definition permille_over :: "u32 \<Rightarrow> u64 \<Rightarrow> u32" where
  "permille_over busy_delta elapsed_us =
     (if elapsed_us = 0 then 0
      else ucast ((ucast busy_delta * 1000 * 1000000) div (elapsed_us * ucast SYS_CLK_HZ) :: u64))"

text \<open>A span reads \<^verbatim>\<open>mcycle\<close> when it is made and adds the difference when it is dropped.\<close>

definition cycle_span :: "u32 \<Rightarrow> u32 \<Rightarrow> u32 \<Rightarrow> u32" where
  "cycle_span acc start now = acc + (now - start)"

section \<open>Statics\<close>

record lan_stats =
  cyw43_new_done :: u32
  cyw43_init_done :: u32
  cyw43_led_done :: u32
  cyw43_ap_done :: u32
  cyw43_net_up :: u32
  cyw43_rx_frames :: u32
  cyw43_tx_busy :: u32
  lan_bulk_tx_bytes :: u32
  lan_sink_rx_bytes :: u32
  core1_busy :: u32
  fwd_busy :: u32
  cyw43_spi_busy :: u32
  lan_net_busy :: u32
  cpu1_permille :: u32
  cpu0_permille :: u32
  spi0_permille :: u32
  net0_permille :: u32
  wan_core1_ok :: u32

section \<open>\<^verbatim>\<open>[Wan]\<close>\<close>

definition write_status ::
  "('c \<Rightarrow> arg list) \<Rightarrow> nat \<Rightarrow> ('c, 'h) wan_state \<Rightarrow> string \<Rightarrow> string" where
  "write_status show_cidr cap wan buf =
     (let buf = (case addr wan of
            Some c \<Rightarrow> write_fmt cap ([Lit ''ip=''] @ show_cidr c @ [Lit '' '']) buf
          | None \<Rightarrow> write_fmt cap [Lit ''ip=none ''] buf);
          buf = (case gw wan of
            Some g \<Rightarrow> write_fmt cap [Lit ''gw='', Ip g, Lit '' ''] buf
          | None \<Rightarrow> write_fmt cap [Lit ''gw=none ''] buf);
          buf = (case dns0 wan of
            Some d \<Rightarrow> write_fmt cap [Lit ''dns='', Ip d, Lit '' ''] buf
          | None \<Rightarrow> write_fmt cap [Lit ''dns=none ''] buf);
          buf = write_fmt cap [Lit ''ping='', D32 (ping_ok wan), Lit ''/'', D32 (ping_sent wan), Lit '' ''] buf
      in case resolved wan of
           Some a \<Rightarrow> write_fmt cap [Str DNS_NAME, Lit ''='', Ip a] buf
         | None \<Rightarrow> write_fmt cap [Str DNS_NAME, Lit ''=?''] buf)"

section \<open>The 1 Hz lines of \<^verbatim>\<open>usb_task\<close>\<close>

definition cyw43_args :: "lan_stats \<Rightarrow> u32 \<Rightarrow> u32 \<Rightarrow> arg list" where
  "cyw43_args ls replies n =
     [Lit ''[Cyw43] new='', D32 (cyw43_new_done ls), Lit '' init='', D32 (cyw43_init_done ls),
      Lit '' led='', D32 (cyw43_led_done ls), Lit '' ap='', D32 (cyw43_ap_done ls),
      Lit '' net='', D32 (cyw43_net_up ls), Lit '' rx='', D32 (cyw43_rx_frames ls),
      Lit '' dhcp='', D32 replies, Lit '' hb='', D32 (n div 1000), Lit CRLF]"

definition cyw43_line :: "lan_stats \<Rightarrow> u32 \<Rightarrow> u32 \<Rightarrow> string" where
  "cyw43_line ls replies n = write_fmt 96 (cyw43_args ls replies n) []"

definition permille_args :: "u32 \<Rightarrow> arg list" where
  "permille_args p = [D32 (p div 10), Lit ''.'', D32 (p mod 10)]"

definition lan_line :: "lan_stats \<Rightarrow> u32 \<Rightarrow> u32 \<Rightarrow> u32 \<Rightarrow> u32 \<Rightarrow> string" where
  "lan_line ls tx_kbs rx_kbs spi0 net0 =
     (let buf = write_fmt 160
          [Lit ''[Lan] tx='', D32 tx_kbs, Lit ''KB/s rx='', D32 rx_kbs, Lit ''KB/s txbusy='', D32 (cyw43_tx_busy ls),
           Lit '' rxframes='', D32 (cyw43_rx_frames ls)] [];
          buf = write_fmt 160
          ([Lit '' spi0=''] @ permille_args spi0 @ [Lit ''% net0=''] @ permille_args net0 @ [Lit ''%'']) buf
      in write_fmt 160 [Lit CRLF] buf)"

definition wan_line :: "('c \<Rightarrow> arg list) \<Rightarrow> lan_stats \<Rightarrow> ('c, 'h) wan_state option \<Rightarrow> string" where
  "wan_line show_cidr ls snap =
     (let buf = write_fmt 160 [Lit ''[Wan] core1='', Str (if wan_core1_ok ls \<noteq> 0 then ''ok'' else ''FAIL''), Lit '' ''] [];
          buf = (case snap of
            Some w \<Rightarrow> write_status show_cidr 160 w buf
          | None \<Rightarrow> write_fmt 160 [Lit ''(no lease yet)''] buf)
      in write_fmt 160 [Lit CRLF] buf)"

definition fwd_args :: "fwd \<Rightarrow> arg list" where
  "fwd_args s =
     [Lit ''[Fwd] l2w='', D32 (fwd_l2w s), Lit '' w2l='', D32 (fwd_w2l s), Lit '' sent='', D32 (fwd_sent s),
      Lit '' drop='', D32 (fwd_drop s), Lit CRLF]"

definition fwd_line :: "fwd \<Rightarrow> string" where
  "fwd_line s = write_fmt 96 (fwd_args s) []"

definition nat_args :: "conntrack \<Rightarrow> arg list" where
  "nat_args ct =
     [Lit ''[Nat] ct='', D32 (of_nat (live_count ct)), Lit ''/'', D32 (of_nat CT_CAP), Lit '' out='', D32 (nat_out ct),
      Lit '' in='', D32 (nat_in ct), Lit '' new='', D32 (nat_new ct), Lit '' evict='', D32 (nat_evict ct),
      Lit '' drop='', D32 (nat_drop ct), Lit CRLF]"

definition nat_line :: "conntrack \<Rightarrow> string" where
  "nat_line ct = write_fmt 96 (nat_args ct) []"

definition perf_args :: "fwd \<Rightarrow> u32 \<Rightarrow> u32 \<Rightarrow> u32 \<Rightarrow> u32 \<Rightarrow> u32 \<Rightarrow> nat \<Rightarrow> arg list" where
  "perf_args s up_kbs dn_kbs pps cpu1 cpu0 ct_hwm =
     ([Lit ''[Perf] up='', D32 up_kbs, Lit ''KB/s dn='', D32 dn_kbs, Lit ''KB/s pps='', D32 pps, Lit '' cpu1='']
      @ permille_args cpu1 @ [Lit ''% cpu0=''] @ permille_args cpu0
      @ [Lit ''% qmax='', D32 (qhwm_l2w s), Lit ''/'', D32 (qhwm_w2l s), Lit '' cthwm='', D32 (of_nat ct_hwm), Lit ''/'',
         D32 (of_nat CT_CAP), Lit '' drop[qf='', D32 (drop_qfull s), Lit '' nh='', D32 (drop_nonh s),
         Lit '' nat='', D32 (drop_nat s), Lit '' txb='', D32 (drop_txbusy s), Lit '' oth='', D32 (drop_other s),
         Lit '']'', Lit CRLF])"

definition perf_line :: "fwd \<Rightarrow> u32 \<Rightarrow> u32 \<Rightarrow> u32 \<Rightarrow> u32 \<Rightarrow> u32 \<Rightarrow> nat \<Rightarrow> string" where
  "perf_line s up_kbs dn_kbs pps cpu1 cpu0 ct_hwm = write_fmt 256 (perf_args s up_kbs dn_kbs pps cpu1 cpu0 ct_hwm) []"

text \<open>The previous counters that \<^verbatim>\<open>usb_task\<close> keeps for its rates.\<close>

record usb_state =
  us_n :: u32
  last_emit_us :: u64
  prev_lan_tx :: u32
  prev_lan_rx :: u32
  prev_spi :: u32
  prev_net :: u32
  prev_to_wan :: u32
  prev_to_lan :: u32
  prev_sent :: u32
  ct_hwm :: nat
  prev_c1 :: u32
  prev_fwd :: u32

definition kb_rate :: "u32 \<Rightarrow> u32 \<Rightarrow> u64 \<Rightarrow> u32" where
  "kb_rate now prev elapsed_us = ucast (ucast (now - prev) * 1000000 div elapsed_us div 1024 :: u64)"

text \<open>One pass of the loop after the USB poll: nothing, or at every 1000th pass the six lines.\<close>

definition usb_tick ::
  "('c \<Rightarrow> arg list) \<Rightarrow> u64 \<Rightarrow> u32 \<Rightarrow> fwd \<Rightarrow> ('c, 'h) wan_state option \<Rightarrow> lan_stats \<Rightarrow> usb_state
     \<Rightarrow> string list \<times> lan_stats \<times> usb_state" where
  "usb_tick show_cidr now_us replies s snap ls u =
     (let u = u\<lparr>us_n := us_n u + 1\<rparr>
      in if us_n u mod 1000 \<noteq> 0 then ([], ls, u)
         else
           (let elapsed_us = max (now_us - last_emit_us u) 1;
                u = u\<lparr>last_emit_us := now_us\<rparr>;
                tx_kbs = kb_rate (lan_bulk_tx_bytes ls) (prev_lan_tx u) elapsed_us;
                rx_kbs = kb_rate (lan_sink_rx_bytes ls) (prev_lan_rx u) elapsed_us;
                u = u\<lparr>prev_lan_tx := lan_bulk_tx_bytes ls, prev_lan_rx := lan_sink_rx_bytes ls\<rparr>;
                spi0 = permille_over (cyw43_spi_busy ls - prev_spi u) elapsed_us;
                net0 = permille_over (lan_net_busy ls - prev_net u) elapsed_us;
                u = u\<lparr>prev_spi := cyw43_spi_busy ls, prev_net := lan_net_busy ls\<rparr>;
                ls = ls\<lparr>spi0_permille := spi0, net0_permille := net0\<rparr>;
                up_kbs = kb_rate (fwd_bytes_to_wan s) (prev_to_wan u) elapsed_us;
                dn_kbs = kb_rate (fwd_bytes_to_lan s) (prev_to_lan u) elapsed_us;
                pps = ucast (ucast (fwd_sent s - prev_sent u) * 1000000 div elapsed_us :: u64);
                u = u\<lparr>prev_to_wan := fwd_bytes_to_wan s, prev_to_lan := fwd_bytes_to_lan s, prev_sent := fwd_sent s\<rparr>;
                ct = live_count (wan_ct s);
                u = (if ct_hwm u < ct then u\<lparr>ct_hwm := ct\<rparr> else u);
                cpu1 = permille_over (core1_busy ls - prev_c1 u) elapsed_us;
                cpu0 = permille_over (fwd_busy ls - prev_fwd u) elapsed_us;
                u = u\<lparr>prev_c1 := core1_busy ls, prev_fwd := fwd_busy ls\<rparr>;
                ls = ls\<lparr>cpu1_permille := cpu1, cpu0_permille := cpu0\<rparr>
            in ([cyw43_line ls replies (us_n u), lan_line ls tx_kbs rx_kbs spi0 net0, wan_line show_cidr ls snap,
                 fwd_line s, nat_line (wan_ct s), perf_line s up_kbs dn_kbs pps cpu1 cpu0 (ct_hwm u)], ls, u)))"

section \<open>The status page\<close>

definition AP_SSID :: string where "AP_SSID = ''pico-10bt-router''"

definition STATUS_BODY_CAP :: nat where "STATUS_BODY_CAP = 256 + POOL_LEN * 40 + 768"

definition page_head_args :: "lan_stats \<Rightarrow> dhcp_server \<Rightarrow> u64 \<Rightarrow> arg list" where
  "page_head_args ls d uptime_s =
     (let w = lan_dns_offer d;
          dns = Ipv4 (ucast (drop_bit 24 w)) (ucast (drop_bit 16 w)) (ucast (drop_bit 8 w)) (ucast w)
      in [Lit ''Pico RP2350 Wireless Router (Rust)'', Lit CRLF, Lit ''AP SSID:     '', Str AP_SSID, Lit CRLF,
          Lit ''LAN gateway: 192.168.4.1/24'', Lit CRLF, Lit ''DNS offered: '', Ip dns, Lit CRLF,
          Lit ''uptime:      '', D64 uptime_s, Lit ''s'', Lit CRLF, Lit ''DHCP replies:'', D32 (dhcp_tx d), Lit CRLF,
          Lit ''LAN rx:      '', D32 (cyw43_rx_frames ls), Lit CRLF])"

definition client_args :: "ipv4 \<times> mac \<Rightarrow> arg list" where
  "client_args = (\<lambda>(ip, m). [Lit ''  '', Ip ip, Lit ''  '', Str (mac_str m), Lit CRLF])"

definition lan_perf_args :: "lan_stats \<Rightarrow> arg list" where
  "lan_perf_args ls =
     [Lit ''LAN perf:    tx='', D32 (lan_bulk_tx_bytes ls), Lit ''B rx='', D32 (lan_sink_rx_bytes ls),
      Lit ''B txbusy='', D32 (cyw43_tx_busy ls), Lit CRLF]"

definition nat_page_args :: "fwd \<Rightarrow> arg list" where
  "nat_page_args s = (let ct = wan_ct s in
     [Lit CRLF, Lit ''NAT:         ct='', D32 (of_nat (live_count ct)), Lit ''/'', D32 (of_nat CT_CAP),
      Lit '' out='', D32 (nat_out ct), Lit '' in='', D32 (nat_in ct), Lit '' drop='', D32 (nat_drop ct), Lit CRLF,
      Lit ''Forward:     sent='', D32 (fwd_sent s), Lit '' drop='', D32 (fwd_drop s), Lit '' (qf='', D32 (drop_qfull s),
      Lit '' nh='', D32 (drop_nonh s), Lit '' nat='', D32 (drop_nat s), Lit '' txb='', D32 (drop_txbusy s),
      Lit '' oth='', D32 (drop_other s), Lit '')'', Lit CRLF,
      Lit ''Bytes:       up='', D32 (fwd_bytes_to_wan s), Lit '' dn='', D32 (fwd_bytes_to_lan s), Lit CRLF,
      Lit ''Queue hwm:   l2w='', D32 (qhwm_l2w s), Lit '' w2l='', D32 (qhwm_w2l s), Lit '' (cap '',
      D32 (of_nat CHAN_DEPTH), Lit '')'', Lit CRLF])"

definition cpu_args :: "lan_stats \<Rightarrow> arg list" where
  "cpu_args ls = [Lit ''CPU:         core1(rx-decode)=''] @ permille_args (cpu1_permille ls)
     @ [Lit ''% core0(forward)=''] @ permille_args (cpu0_permille ls) @ [Lit ''%'', Lit CRLF]"

definition lan_cpu_args :: "lan_stats \<Rightarrow> arg list" where
  "lan_cpu_args ls = [Lit ''LAN cpu0:    spi0(gspi)=''] @ permille_args (spi0_permille ls)
     @ [Lit ''% net0(stack)=''] @ permille_args (net0_permille ls) @ [Lit ''%'', Lit CRLF]"

definition status_body ::
  "('c \<Rightarrow> arg list) \<Rightarrow> lan_stats \<Rightarrow> fwd \<Rightarrow> ('c, 'h) wan_state option \<Rightarrow> dhcp_server \<Rightarrow> u64 \<Rightarrow> string" where
  "status_body show_cidr ls s snap d uptime_s =
     (let cap = STATUS_BODY_CAP;
          body = write_fmt cap (page_head_args ls d uptime_s) [];
          body = write_fmt cap [Lit ''Clients:'', Lit CRLF] body;
          body = fold (\<lambda>c. write_fmt cap (client_args c)) (active_leases d) body;
          body = (if length (active_leases d) = 0 then write_fmt cap [Lit ''  (none)'', Lit CRLF] body else body);
          body = write_fmt cap (lan_perf_args ls) body;
          body = write_fmt cap [Lit ''WAN:         ''] body;
          body = (case snap of Some w \<Rightarrow> write_status show_cidr cap w body
                             | None \<Rightarrow> write_fmt cap [Lit ''(no lease)''] body);
          body = write_fmt cap (nat_page_args s) body;
          body = write_fmt cap (cpu_args ls) body
      in write_fmt cap (lan_cpu_args ls) body)"

text \<open>The head that announces the length of the body.\<close>

definition status_head :: "nat \<Rightarrow> string" where
  "status_head n = write_fmt 128
     [Lit ''HTTP/1.0 200 OK'', Lit CRLF, Lit ''Content-Type: text/plain'', Lit CRLF,
      Lit ''Content-Length: '', D32 (of_nat n), Lit CRLF, Lit ''Connection: close'', Lit CRLF, Lit CRLF] []"

section \<open>\<^verbatim>\<open>log_status\<close>\<close>

fun chunks :: "nat \<Rightarrow> 'a list \<Rightarrow> 'a list list" where
  "chunks n xs = (if n = 0 \<or> xs = [] then [] else take n xs # chunks n (drop n xs))"

declare chunks.simps [simp del]

definition hex_row :: "string \<Rightarrow> nat \<Rightarrow> bytes \<Rightarrow> string" where
  "hex_row label row chunk =
     (let line = write_fmt 160 [Lit ''  '', Str label, X04 (of_nat (row * 16)), Lit '':''] [];
          line = fold (\<lambda>b. write_fmt 160 [Lit '' '', X02 b]) chunk line
      in write_fmt 160 [Lit NL] line)"

definition hex_dump :: "string \<Rightarrow> bytes \<Rightarrow> string list" where
  "hex_dump label data = map (\<lambda>(row, chunk). hex_row label row chunk) (enumerate 0 (chunks 16 data))"

definition log_lines :: "eth_rx_stats \<Rightarrow> u32 \<Rightarrow> u32 \<Rightarrow> u32 \<Rightarrow> bool \<Rightarrow> u32 \<Rightarrow> string list" where
  "log_lines rx log_tick nlps_sent udp_sent core1_launch_ok core1_ticks =
     (let last_dst_mac = (if 6 \<le> last_frame_snapshot_len rx then take 6 (last_frame_snapshot rx) else replicate 6 0)
      in [write_fmt 160 [Lit ''[R2b] t='', D32 log_tick, Lit '' nlps='', D32 nlps_sent, Lit '' udp_sent='',
            D32 udp_sent, Lit NL] [],
          write_fmt 160 [Lit ''[Core1] launch='', Str (if core1_launch_ok then ''ok'' else ''FAIL''), Lit '' ticks='',
            D32 core1_ticks, Lit NL] [],
          write_fmt 160 [Lit ''[Rx] dec='', D32 (frames_decoded rx), Lit '' ok='', D32 (fcs_ok rx), Lit '' fail='',
            D32 (fcs_fail rx), Lit '' filt='', D32 (frames_filtered rx), Lit '' dst='', Str (mac_str last_dst_mac),
            Lit NL] []])"

text \<open>The \<^verbatim>\<open>diag\<close> dump of the last decoded frame; indexing its first twelve bytes panics when there are fewer.\<close>

definition last_frame_lines :: "eth_rx_stats \<Rightarrow> string list option" where
  "last_frame_lines rx =
     (if 0 < last_frame_snapshot_len rx then
        (let f = take (last_frame_snapshot_len rx) (last_frame_snapshot rx);
             etype = (if 14 \<le> length f then be16 (f ! 12) (f ! 13) else 0)
         in if length f < 12 then None
            else Some ([write_fmt 160 [Lit ''[Rx] frame '', D32 (of_nat (last_frame_len rx)), Lit '' bytes, FCS '',
                 Str (if last_frame_was_ok rx then ''OK'' else ''FAIL''), Lit '' - dst '', Str (mac_str (take 6 f)),
                 Lit '' src '', Str (mac_str (take 6 (drop 6 f))), Lit '' type='', X04 etype, Lit NL] []]
               @ hex_dump [] (take (min (length f) 64) f)))
      else Some [])"

text \<open>With the \<^verbatim>\<open>diag\<close> feature: all lines, and what is reset by reading it.\<close>

definition log_status ::
  "eth_mac \<Rightarrow> rx_state \<Rightarrow> u32 \<Rightarrow> u32 \<Rightarrow> u32 \<Rightarrow> bool \<Rightarrow> u32 \<Rightarrow> (string list \<times> eth_mac \<times> rx_state) option" where
  "log_status mac st log_tick nlps_sent udp_sent core1_launch_ok core1_ticks =
     (let (rx, st) = snapshot_rx_stats st;
          s = mac_stats mac;
          stitch = write_fmt 160 [Lit ''[Stitch] dec='', D32 (stitch_dec st), Lit '' fail='', D32 (stitch_fail st),
            Lit '' rxstall='', D32 (rxstall_halves st), Lit '' img_drop='', D32 (img_drop st), Lit NL] [];
          st = st\<lparr>stitch_dec := 0, stitch_fail := 0, rxstall_halves := 0, img_drop := 0\<rparr>;
          macline = write_fmt 160 [Lit ''[Mac] iface_rx='', D32 (rx_handed_out s), Lit '' tx_arp='', D32 (tx_arp s),
            Lit '' tx_icmp='', D32 (tx_icmp s), Lit '' tx_udp='', D32 (tx_udp s), Lit '' tx_other='', D32 (tx_other s),
            Lit '' inbox_drop='', D32 (inbox_dropped rx), Lit '' inbox_hwm='', D8 (inbox_high_water rx),
            Lit '' carry_cap='', D32 (stat_carry_capped rx), Lit '' last_tx_len='', D16 (last_tx_len s), Lit NL] [];
          tx_n = min (unat (last_tx_len s)) (length (last_tx s));
          mac = mac\<lparr>mac_stats := s\<lparr>rx_handed_out := 0, tx_handed_out := 0, tx_consumed := 0, tx_arp := 0,
            tx_icmp := 0, tx_udp := 0, tx_other := 0\<rparr>\<rparr>
      in map_option (\<lambda>frame_lines.
           (log_lines rx log_tick nlps_sent udp_sent core1_launch_ok core1_ticks
              @ [stitch, macline] @ hex_dump ''tx '' (take tx_n (last_tx s)) @ frame_lines, mac, st))
         (last_frame_lines rx))"

section \<open>Nothing is cut\<close>

text \<open>\<open>text_of\<close> is the same text without any buffer. The flags of the bring-up are only ever set to 1.\<close>

definition flags_ok :: "lan_stats \<Rightarrow> bool" where
  "flags_ok ls \<longleftrightarrow> (\<forall>w \<in> {cyw43_new_done ls, cyw43_init_done ls, cyw43_led_done ls, cyw43_ap_done ls, cyw43_net_up ls}. w \<le> 1)"

definition short_cidr :: "('c \<Rightarrow> arg list) \<Rightarrow> bool" where
  "short_cidr show_cidr \<longleftrightarrow> (\<forall>c. sum_list (map width (show_cidr c)) \<le> 19)"

definition wan_status_args :: "('c \<Rightarrow> arg list) \<Rightarrow> ('c, 'h) wan_state \<Rightarrow> arg list" where
  "wan_status_args show_cidr wan =
     (case addr wan of Some c \<Rightarrow> [Lit ''ip=''] @ show_cidr c @ [Lit '' ''] | None \<Rightarrow> [Lit ''ip=none ''])
   @ (case gw wan of Some g \<Rightarrow> [Lit ''gw='', Ip g, Lit '' ''] | None \<Rightarrow> [Lit ''gw=none ''])
   @ (case dns0 wan of Some d \<Rightarrow> [Lit ''dns='', Ip d, Lit '' ''] | None \<Rightarrow> [Lit ''dns=none ''])
   @ [Lit ''ping='', D32 (ping_ok wan), Lit ''/'', D32 (ping_sent wan), Lit '' '']
   @ (case resolved wan of Some a \<Rightarrow> [Str DNS_NAME, Lit ''='', Ip a] | None \<Rightarrow> [Str DNS_NAME, Lit ''=?''])"

lemma wan_status_width:
  assumes "short_cidr show_cidr"
  shows "sum_list (map width (wan_status_args show_cidr wan)) \<le> 116"
proof -
  have "sum_list (map width (show_cidr (the (addr wan)))) \<le> 19" using assms by (simp add: short_cidr_def)
  then show ?thesis
    by (auto simp: wan_status_args_def DNS_NAME_def split: option.split)
qed

lemma write_status_whole:
  assumes c: "short_cidr show_cidr" and room: "sum_list (map width pre) + 116 \<le> cap"
  shows "write_status show_cidr cap wan (text_of pre) = text_of (pre @ wan_status_args show_cidr wan)"
proof -
  define A where "A = (case addr wan of Some c \<Rightarrow> [Lit ''ip=''] @ show_cidr c @ [Lit '' ''] | None \<Rightarrow> [Lit ''ip=none ''])"
  define B where "B = (case gw wan of Some g \<Rightarrow> [Lit ''gw='', Ip g, Lit '' ''] | None \<Rightarrow> [Lit ''gw=none ''])"
  define C where "C = (case dns0 wan of Some d \<Rightarrow> [Lit ''dns='', Ip d, Lit '' ''] | None \<Rightarrow> [Lit ''dns=none ''])"
  define D where "D = [Lit ''ping='', D32 (ping_ok wan), Lit ''/'', D32 (ping_sent wan), Lit '' '']"
  define E where "E = (case resolved wan of Some a \<Rightarrow> [Str DNS_NAME, Lit ''='', Ip a] | None \<Rightarrow> [Str DNS_NAME, Lit ''=?''])"
  have "write_status show_cidr cap wan (text_of pre) = fold (write_fmt cap) [A, B, C, D, E] (text_of pre)"
    by (simp add: write_status_def A_def B_def C_def D_def E_def split: option.split)
  moreover have "concat [A, B, C, D, E] = wan_status_args show_cidr wan"
    by (simp add: wan_status_args_def A_def B_def C_def D_def E_def)
  ultimately show ?thesis
    using write_fmt_seq [of pre "[A, B, C, D, E]" cap] wan_status_width [OF c, of wan] room by simp
qed

lemma length_dec32: "length (dec (unat (w :: u32))) \<le> 10"
  using length_dec [of "unat w" 10] unat_u32_lt [of w] by simp

lemma length_dec_flag: "(w :: u32) \<le> 1 \<Longrightarrow> length (dec (unat w)) = 1"
  using dec.simps [of "unat w"] by (simp add: word_le_nat_alt)

lemma div_u32: "unat (n div 1000 :: u32) = unat n div 1000"
  by (simp add: unat_div)

lemma cyw43_line_whole:
  assumes "flags_ok ls"
  shows "cyw43_line ls replies n = text_of (cyw43_args ls replies n)"
proof -
  have "length (dec (unat (n div 1000))) \<le> 7"
    using length_dec [of "unat n div 1000" 7] unat_u32_lt [of n] by (simp add: div_u32 less_mult_imp_div_less)
  then have "length (text_of (cyw43_args ls replies n)) \<le> 96"
    using assms length_dec32 [of "cyw43_rx_frames ls"] length_dec32 [of replies]
    by (simp add: cyw43_args_def flags_ok_def length_dec_flag)
  then show ?thesis using write_fmt_whole [of "[]"] by (simp add: cyw43_line_def)
qed

lemma live_count_cap: "ct_inv ct \<Longrightarrow> live_count ct \<le> CT_CAP"
  using live_count_eq [of ct] ct_invD(1) [of ct] length_filter_le [of used "slots ct"] by (simp add: n_used_def)

lemma nat_line_whole:
  assumes "ct_inv ct"
  shows "nat_line ct = text_of (nat_args ct)"
proof -
  have "live_count ct \<le> 64" using live_count_cap [OF assms] by (simp add: CT_CAP_def)
  then have "length (dec (unat (of_nat (live_count ct) :: u32))) \<le> 2" "length (dec (unat (of_nat CT_CAP :: u32))) \<le> 2"
    by (auto simp: CT_CAP_def unsigned_of_nat take_bit_nat_eq_self intro!: length_dec)
  then have "length (text_of (nat_args ct)) \<le> 96"
    using length_dec32 [of "nat_out ct"] length_dec32 [of "nat_in ct"] length_dec32 [of "nat_new ct"]
      length_dec32 [of "nat_evict ct"] length_dec32 [of "nat_drop ct"]
    by (simp add: nat_args_def)
  then show ?thesis using write_fmt_whole [of "[]"] by (simp add: nat_line_def)
qed

lemma fwd_line_whole: "fwd_line s = text_of (fwd_args s)"
  unfolding fwd_line_def by (rule write_fmt_fits_empty) (simp add: fwd_args_def)

lemma perf_line_whole: "perf_line s up dn pps cpu1 cpu0 hwm = text_of (perf_args s up dn pps cpu1 cpu0 hwm)"
  unfolding perf_line_def by (rule write_fmt_fits_empty) (simp add: perf_args_def permille_args_def)

definition lan_args :: "lan_stats \<Rightarrow> u32 \<Rightarrow> u32 \<Rightarrow> u32 \<Rightarrow> u32 \<Rightarrow> arg list" where
  "lan_args ls tx_kbs rx_kbs spi0 net0 =
     [Lit ''[Lan] tx='', D32 tx_kbs, Lit ''KB/s rx='', D32 rx_kbs, Lit ''KB/s txbusy='', D32 (cyw43_tx_busy ls),
      Lit '' rxframes='', D32 (cyw43_rx_frames ls)]
     @ ([Lit '' spi0=''] @ permille_args spi0 @ [Lit ''% net0=''] @ permille_args net0 @ [Lit ''%'']) @ [Lit CRLF]"

lemma lan_line_whole: "lan_line ls tx rx spi0 net0 = text_of (lan_args ls tx rx spi0 net0)"
proof -
  define A where "A = [Lit ''[Lan] tx='', D32 tx, Lit ''KB/s rx='', D32 rx, Lit ''KB/s txbusy='', D32 (cyw43_tx_busy ls),
      Lit '' rxframes='', D32 (cyw43_rx_frames ls)]"
  define B where "B = [Lit '' spi0=''] @ permille_args spi0 @ [Lit ''% net0=''] @ permille_args net0 @ [Lit ''%'']"
  have "lan_line ls tx rx spi0 net0 = fold (write_fmt 160) [A, B, [Lit CRLF]] (text_of [])"
    by (simp add: lan_line_def A_def B_def)
  also have "\<dots> = text_of ([] @ concat [A, B, [Lit CRLF]])"
    by (rule write_fmt_seq) (simp add: A_def B_def permille_args_def)
  also have "\<dots> = text_of (lan_args ls tx rx spi0 net0)"
    by (simp only: lan_args_def A_def B_def concat.simps append_assoc append_Nil append_Nil2)
  finally show ?thesis .
qed

definition wan_args :: "('c \<Rightarrow> arg list) \<Rightarrow> lan_stats \<Rightarrow> ('c, 'h) wan_state option \<Rightarrow> arg list" where
  "wan_args show_cidr ls snap =
     [Lit ''[Wan] core1='', Str (if wan_core1_ok ls \<noteq> 0 then ''ok'' else ''FAIL''), Lit '' '']
     @ (case snap of Some w \<Rightarrow> wan_status_args show_cidr w | None \<Rightarrow> [Lit ''(no lease yet)'']) @ [Lit CRLF]"

lemma wan_line_whole:
  assumes c: "short_cidr show_cidr"
  shows "wan_line show_cidr ls snap = text_of (wan_args show_cidr ls snap)"
proof -
  define A where "A = [Lit ''[Wan] core1='', Str (if wan_core1_ok ls \<noteq> 0 then ''ok'' else ''FAIL''), Lit '' '']"
  define B where "B = (case snap of Some w \<Rightarrow> wan_status_args show_cidr w | None \<Rightarrow> [Lit ''(no lease yet)''])"
  have A: "sum_list (map width A) \<le> 17" by (simp add: A_def)
  have B: "sum_list (map width B) \<le> 116" by (auto simp: B_def wan_status_width [OF c] split: option.split)
  have start: "write_fmt 160 A [] = text_of A"
    using A by (intro write_fmt_fits_empty) simp
  have mid: "(case snap of Some w \<Rightarrow> write_status show_cidr 160 w (text_of A)
      | None \<Rightarrow> write_fmt 160 [Lit ''(no lease yet)''] (text_of A)) = text_of (A @ B)"
    using A B write_status_whole [OF c, of A 160] write_fmt_fits [of A B 160]
    by (simp add: B_def split: option.splits)
  then have "wan_line show_cidr ls snap = write_fmt 160 [Lit CRLF] (text_of (A @ B))"
    by (simp only: wan_line_def Let_def A_def [symmetric] start)
  also have "\<dots> = text_of ((A @ B) @ [Lit CRLF])"
    using A B by (intro write_fmt_fits) simp
  also have "\<dots> = text_of (wan_args show_cidr ls snap)"
    by (simp add: wan_args_def A_def B_def)
  finally show ?thesis .
qed

section \<open>The status page is whole\<close>

definition page_args ::
  "('c \<Rightarrow> arg list) \<Rightarrow> lan_stats \<Rightarrow> fwd \<Rightarrow> ('c, 'h) wan_state option \<Rightarrow> dhcp_server \<Rightarrow> u64 \<Rightarrow> arg list" where
  "page_args show_cidr ls s snap d uptime_s =
     page_head_args ls d uptime_s @ [Lit ''Clients:'', Lit CRLF] @ concat (map client_args (active_leases d))
     @ (if active_leases d = [] then [Lit ''  (none)'', Lit CRLF] else []) @ lan_perf_args ls @ [Lit ''WAN:         '']
     @ (case snap of Some w \<Rightarrow> wan_status_args show_cidr w | None \<Rightarrow> [Lit ''(no lease)''])
     @ nat_page_args s @ cpu_args ls @ lan_cpu_args ls"

lemma length_active_leases: "length (active_leases d) \<le> length (leases d)"
  by (simp add: active_leases_def map_filter_def length_filter_le [THEN order_trans])

lemma width_clients: "sum_list (map width (concat (map client_args cs))) \<le> 38 * length cs"
proof (induction cs)
  case (Cons c cs)
  then show ?case using length_mac_str [of "snd c"] by (simp add: client_args_def case_prod_unfold)
qed simp

lemma fold_write_append:
  "fold (write_fmt cap) (xs @ ys) buf = fold (write_fmt cap) ys (fold (write_fmt cap) xs buf)"
  by simp

lemma status_body_whole:
  assumes c: "short_cidr show_cidr" and d: "leases_ok d"
  shows "status_body show_cidr ls s snap d uptime_s = text_of (page_args show_cidr ls s snap d uptime_s)"
proof -
  let ?cap = STATUS_BODY_CAP and ?w = "\<lambda>xs. sum_list (map width xs)"
  define none where "none = (if active_leases d = [] then [Lit ''  (none)'', Lit CRLF] else [])"
  define P where "P = [page_head_args ls d uptime_s, [Lit ''Clients:'', Lit CRLF]] @ map client_args (active_leases d)
    @ [none, lan_perf_args ls, [Lit ''WAN:         '']]"
  define M where "M = (case snap of Some w \<Rightarrow> wan_status_args show_cidr w | None \<Rightarrow> [Lit ''(no lease)''])"
  define Q where "Q = [nat_page_args s, cpu_args ls, lan_cpu_args ls]"
  have cap: "?cap = 2304" by (simp add: STATUS_BODY_CAP_def POOL_LEN_def)
  have "length (active_leases d) \<le> 32"
    using length_active_leases [of d] d by (simp add: leases_ok_def POOL_LEN_def)
  then have clients: "?w (concat (map client_args (active_leases d))) \<le> 1216"
    using width_clients [of "active_leases d"] by simp
  have P: "?w (concat P) \<le> 1216 + 400"
    using clients by (simp add: P_def none_def page_head_args_def lan_perf_args_def AP_SSID_def Let_def)
  have M: "?w M \<le> 116" by (auto simp: M_def wan_status_width [OF c] split: option.split)
  have Q: "?w (concat Q) \<le> 500"
    by (simp add: Q_def nat_page_args_def cpu_args_def lan_cpu_args_def permille_args_def Let_def)
  have nn: "write_fmt ?cap none buf = (if length (active_leases d) = 0
      then write_fmt ?cap [Lit ''  (none)'', Lit CRLF] buf else buf)" for buf
    by (simp add: none_def write_fmt_def)
  have pre: "fold (write_fmt ?cap) P (text_of []) = text_of (concat P)"
    using P cap by (subst write_fmt_seq) simp_all
  have mid: "(case snap of Some w \<Rightarrow> write_status show_cidr ?cap w (text_of (concat P))
      | None \<Rightarrow> write_fmt ?cap [Lit ''(no lease)''] (text_of (concat P))) = text_of (concat P @ M)"
    using P M cap write_status_whole [OF c, of "concat P" ?cap] write_fmt_fits [of "concat P" M ?cap]
    by (simp add: M_def split: option.splits)
  have "status_body show_cidr ls s snap d uptime_s = fold (write_fmt ?cap) Q (text_of (concat P @ M))"
    using pre unfolding mid [symmetric]
    by (simp add: status_body_def Let_def P_def Q_def nn fold_map o_def del: text_of_simps(2,3) cong: option.case_cong)
  also have "\<dots> = text_of ((concat P @ M) @ concat Q)"
    using P M Q cap by (intro write_fmt_seq) simp
  also have "\<dots> = text_of (page_args show_cidr ls s snap d uptime_s)"
    by (simp add: page_args_def P_def M_def Q_def none_def)
  finally show ?thesis .
qed

lemma status_head_whole:
  "n < 2 ^ 32 \<Longrightarrow> status_head n = text_of
     [Lit ''HTTP/1.0 200 OK'', Lit CRLF, Lit ''Content-Type: text/plain'', Lit CRLF,
      Lit ''Content-Length: '', Lit (dec n), Lit CRLF, Lit ''Connection: close'', Lit CRLF, Lit CRLF]"
  unfolding status_head_def by (subst write_fmt_fits_empty) (simp_all add: unsigned_of_nat take_bit_nat_eq_self)

section \<open>Utilisation\<close>

text \<open>A core cannot be busy for more cycles than the window has, and the arithmetic does not overflow for windows of up
  to 19 hours; then the share is at most 1000 per mille.\<close>

lemma permille_bounded:
  assumes busy: "unat busy \<le> unat elapsed_us * 240" and win: "unat elapsed_us < 2 ^ 36"
  shows "unat (permille_over busy elapsed_us) \<le> 1000"
proof (cases "elapsed_us = 0")
  case False
  let ?n = "ucast busy * 1000 * 1000000 :: u64" and ?d = "elapsed_us * ucast SYS_CLK_HZ :: u64"
  have b: "unat busy < 2 ^ 32" using unat_u32_lt [of busy] by simp
  have n: "unat ?n = unat busy * 1000000000"
    using b by (simp add: unat_word_ariths unat_ucast_up)
  have d: "unat ?d = unat elapsed_us * 240000000"
    using win by (simp add: unat_word_ariths unat_ucast_up SYS_CLK_HZ_def)
  have pos: "0 < unat elapsed_us" using False by (simp add: unat_gt_0)
  have "unat (?n div ?d) = unat busy * 1000000000 div (unat elapsed_us * 240000000)"
    by (simp only: unat_div n d)
  also have "\<dots> \<le> unat elapsed_us * 240 * 1000000000 div (unat elapsed_us * 240000000)"
    using busy by (intro div_le_mono mult_le_mono1)
  also have "\<dots> = 1000" using pos by (simp add: mult.assoc div_mult_self1_is_m)
  finally have q: "unat (?n div ?d) \<le> 1000" .
  then have "unat (ucast (?n div ?d) :: u32) = unat (?n div ?d)"
    by (simp add: unsigned_ucast_eq take_bit_nat_eq_self)
  with q False show ?thesis by (simp add: permille_over_def)
qed (simp add: permille_over_def)

lemma write_status_le: "length buf \<le> cap \<Longrightarrow> length (write_status show_cidr cap wan buf) \<le> cap"
  by (simp add: write_status_def Let_def write_fmt_le split: option.split)

lemma fold_write_le: "length buf \<le> cap \<Longrightarrow> length (fold (\<lambda>c. write_fmt cap (f c)) cs buf) \<le> cap"
  by (induction cs arbitrary: buf) (simp_all add: write_fmt_le)

lemma status_body_le: "length (status_body show_cidr ls s snap d uptime_s) \<le> STATUS_BODY_CAP"
  unfolding status_body_def Let_def
  by (intro write_fmt_le) (simp add: write_fmt_le write_status_le fold_write_le split: option.split)

section \<open>Properties\<close>

text \<open>With the \<^verbatim>\<open>diag\<close> feature a runt shorter than two addresses, once it is the last frame seen, makes the
  next status report panic.\<close>

lemma runt_frame_panics:
  assumes "0 < last_frame_snapshot_len (stats st)" and "last_frame_snapshot_len (stats st) < 12"
  shows "log_status mac st t nlps udp ok ticks = None"
  using assms by (simp add: log_status_def snapshot_rx_stats_def last_frame_lines_def Let_def min_def)


definition show_prefix :: "ipv4 \<times> nat \<Rightarrow> arg list" where
  "show_prefix = (\<lambda>(a, n). [Ip a, Lit ''/'', D8 (of_nat (min n 32))])"

definition quiet :: lan_stats where
  "quiet = \<lparr>cyw43_new_done = 1, cyw43_init_done = 1, cyw43_led_done = 1, cyw43_ap_done = 1, cyw43_net_up = 1,
     cyw43_rx_frames = 0, cyw43_tx_busy = 0, lan_bulk_tx_bytes = 0, lan_sink_rx_bytes = 0, core1_busy = 0,
     fwd_busy = 0, cyw43_spi_busy = 0, lan_net_busy = 0, cpu1_permille = 0, cpu0_permille = 0, spi0_permille = 0,
     net0_permille = 0, wan_core1_ok = 1\<rparr>"


end
