(* ===== verification/Services.thy ===== *)
theory Services
  imports Status
begin

text \<open>
  The socket services: the management page and bulk download on port 80 and the upload sink of \<^verbatim>\<open>src/wireless.rs\<close>,
  and the echo, page, bulk and sink services of the wired build in \<^verbatim>\<open>src/main.rs\<close>. A smoltcp socket is a state of any type
  \<open>'s\<close> with the record of its operations; \<^verbatim>\<open>recv\<close> is given the function of the bytes it shows to the number it
  takes, and returns those bytes. The text of the status page is a parameter here and \<open>Status\<close>'s in the tasks.
\<close>

section \<open>Sockets\<close>

record 's tcp_socket =
  tcp_is_open :: "'s \<Rightarrow> bool"
  tcp_listen :: "'s \<Rightarrow> u16 \<Rightarrow> 's"
  tcp_can_send :: "'s \<Rightarrow> bool"
  tcp_can_recv :: "'s \<Rightarrow> bool"
  tcp_may_send :: "'s \<Rightarrow> bool"
  tcp_may_recv :: "'s \<Rightarrow> bool"
  tcp_recv :: "'s \<Rightarrow> (bytes \<Rightarrow> nat) \<Rightarrow> bytes option \<times> 's"
  tcp_send_slice :: "'s \<Rightarrow> bytes \<Rightarrow> nat option \<times> 's"
  tcp_close :: "'s \<Rightarrow> 's"

record ('s, 'e) echo_socket =
  echo_is_open :: "'s \<Rightarrow> bool"
  echo_bind :: "'s \<Rightarrow> u16 \<Rightarrow> 's"
  echo_recv_slice :: "'s \<Rightarrow> nat \<Rightarrow> (bytes \<times> 'e) option \<times> 's"
  echo_send_slice :: "'s \<Rightarrow> bytes \<Rightarrow> 'e \<Rightarrow> 's"

definition ascii :: "string \<Rightarrow> bytes" where
  "ascii = map of_char"

section \<open>The upload sink\<close>

definition LAN_SINK_PORT :: u16 where "LAN_SINK_PORT = 9999"

text \<open>\<^const>\<open>None\<close> if the loop never ends. The counter is \<^verbatim>\<open>LAN_SINK_RX_BYTES\<close>.\<close>

partial_function (option) sink_loop :: "'s tcp_socket \<Rightarrow> 's \<Rightarrow> u32 \<Rightarrow> ('s \<times> u32) option" where
  "sink_loop T s rx =
     (if tcp_can_recv T s then
        (case tcp_recv T s length of
           (None, s) \<Rightarrow> Some (s, rx)
         | (Some buf, s) \<Rightarrow> if length buf = 0 then Some (s, rx) else sink_loop T s (rx + of_nat (length buf)))
      else Some (s, rx))"

definition serve_lan_sink :: "'s tcp_socket \<Rightarrow> 's \<Rightarrow> u32 \<Rightarrow> ('s \<times> u32) option" where
  "serve_lan_sink T s rx =
     (if \<not> tcp_is_open T s then Some (tcp_listen T s LAN_SINK_PORT, rx)
      else map_option (\<lambda>(s, rx). (if \<not> tcp_may_recv T s \<and> tcp_may_send T s then tcp_close T s else s, rx))
             (sink_loop T s rx))"

text \<open>The sink of the wired build: one \<^verbatim>\<open>recv\<close> a poll.\<close>

definition serve_fd_sink :: "'s tcp_socket \<Rightarrow> 's \<Rightarrow> u32 \<Rightarrow> 's \<times> u32" where
  "serve_fd_sink T s rx =
     (if \<not> tcp_is_open T s then (tcp_listen T s 9999, rx)
      else
        (let (s, rx) =
           (if tcp_may_recv T s then
              (case tcp_recv T s length of
                 (r, s) \<Rightarrow> (let n = (case r of Some buf \<Rightarrow> length buf | None \<Rightarrow> 0)
                            in (s, if 0 < n then rx + of_nat n else rx)))
            else (s, rx))
         in (if \<not> tcp_may_recv T s \<and> tcp_may_send T s then tcp_close T s else s, rx)))"

section \<open>Management page and bulk download\<close>

definition LAN_BULK_BYTES :: nat where "LAN_BULK_BYTES = 8 * 1024 * 1024"

datatype lan_http = Idle | Bulk nat bool

definition BULK_CHUNK :: bytes where "BULK_CHUNK = replicate 1024 0x55"

text \<open>The octet-stream head of the two bulk services.\<close>

definition bulk_head :: "nat \<Rightarrow> string" where
  "bulk_head n = write_fmt 128
     [Lit ''HTTP/1.0 200 OK'', Lit CRLF, Lit ''Content-Type: application/octet-stream'', Lit CRLF,
      Lit ''Content-Length: '', D32 (of_nat n), Lit CRLF, Lit ''Connection: close'', Lit CRLF, Lit CRLF] []"

function bulk_fill :: "'s tcp_socket \<Rightarrow> nat \<Rightarrow> 's \<Rightarrow> u32 \<Rightarrow> nat \<times> 's \<times> u32" where
  "bulk_fill T rem s tx =
     (if 0 < rem \<and> tcp_can_send T s then
        (case tcp_send_slice T s (take (min rem (length BULK_CHUNK)) BULK_CHUNK) of
           (None, s) \<Rightarrow> (rem, s, tx)
         | (Some n, s) \<Rightarrow> if n = 0 then (rem, s, tx) else bulk_fill T (rem - n) s (tx + of_nat n))
      else (rem, s, tx))"
  by pat_completeness auto
termination
  by (relation "measure (\<lambda>(T, rem, s, tx). rem)") auto

declare bulk_fill.simps [simp del]

definition serve_bulk :: "'s tcp_socket \<Rightarrow> nat \<Rightarrow> bool \<Rightarrow> 's \<Rightarrow> u32 \<Rightarrow> 's \<times> lan_http \<times> u32" where
  "serve_bulk T rem header_sent s tx =
     (if \<not> header_sent \<and> \<not> tcp_can_send T s then (s, Bulk rem header_sent, tx)
      else
        (let s = (if \<not> header_sent then snd (tcp_send_slice T s (ascii (bulk_head LAN_BULK_BYTES))) else s);
             (rem, s, tx) = bulk_fill T rem s tx
         in if rem = 0 then (tcp_close T s, Idle, tx) else (s, Bulk rem True, tx)))"

text \<open>\<open>body\<close> is the page, \<^verbatim>\<open>LAN_BULK_TX_BYTES\<close> the counter.\<close>

definition serve_status_http ::
  "'s tcp_socket \<Rightarrow> string \<Rightarrow> 's \<Rightarrow> lan_http \<Rightarrow> u32 \<Rightarrow> 's \<times> lan_http \<times> u32" where
  "serve_status_http T body s state tx =
     (if \<not> tcp_is_open T s then (tcp_listen T s 80, Idle, tx)
      else case state of
        Bulk rem header_sent \<Rightarrow> serve_bulk T rem header_sent s tx
      | Idle \<Rightarrow>
          (let (req, s) = (if tcp_may_recv T s then tcp_recv T s length else (None, s));
               have_req = (case req of Some buf \<Rightarrow> buf \<noteq> [] | None \<Rightarrow> False);
               route_bulk = (case req of Some buf \<Rightarrow> take 9 buf = ascii ''GET /bulk'' | None \<Rightarrow> False)
           in if \<not> have_req then (s, Idle, tx)
              else if route_bulk then (s, Bulk LAN_BULK_BYTES False, tx)
              else if tcp_can_send T s then
                (let s = snd (tcp_send_slice T s (ascii (status_head (length body))));
                     s = snd (tcp_send_slice T s (ascii body))
                 in (tcp_close T s, Idle, tx))
              else (s, Idle, tx)))"

section \<open>The wired build's services\<close>

primrec echo_loop :: "('s, 'e) echo_socket \<Rightarrow> nat \<Rightarrow> 's \<Rightarrow> 's" where
  "echo_loop U 0 s = s"
| "echo_loop U (Suc n) s =
     (case echo_recv_slice U s 1472 of
        (Some (data, endpoint), s) \<Rightarrow> echo_loop U n (echo_send_slice U s data endpoint)
      | (None, s) \<Rightarrow> s)"

definition serve_udp_echo :: "('s, 'e) echo_socket \<Rightarrow> 's \<Rightarrow> 's" where
  "serve_udp_echo U s = echo_loop U 4 (if echo_is_open U s then s else echo_bind U s 1234)"

definition hello_body :: "u32 \<Rightarrow> u32 \<Rightarrow> u32 \<Rightarrow> string" where
  "hello_body uptime_s nlps udp_sent = write_fmt 160
     [Lit ''Hello from Pico-10BASE-T (Rust)!'', Lit CRLF, Lit ''uptime='', D32 uptime_s, Lit ''s nlps='', D32 nlps,
      Lit '' udp_sent='', D32 udp_sent, Lit CRLF] []"

definition serve_http :: "'s tcp_socket \<Rightarrow> 's \<Rightarrow> u32 \<Rightarrow> u32 \<Rightarrow> u32 \<Rightarrow> 's" where
  "serve_http T s uptime_s nlps udp_sent =
     (let s = (if tcp_is_open T s then s else tcp_listen T s 80);
          s = (if tcp_may_recv T s then snd (tcp_recv T s length) else s)
      in if tcp_can_send T s then
           (let body = hello_body uptime_s nlps udp_sent;
                s = snd (tcp_send_slice T s (ascii (status_head (length body))));
                s = snd (tcp_send_slice T s (ascii body))
            in tcp_close T s)
         else s)"

definition HTTP_BULK_BYTES :: nat where "HTTP_BULK_BYTES = 1024 * 1024"

datatype http_bulk_state = BulkIdle | Sending nat

definition serve_http_bulk :: "'s tcp_socket \<Rightarrow> 's \<Rightarrow> http_bulk_state \<Rightarrow> 's \<times> http_bulk_state" where
  "serve_http_bulk T s state =
     (if \<not> tcp_is_open T s then (tcp_listen T s 80, BulkIdle)
      else
        (let s = (if tcp_may_recv T s then snd (tcp_recv T s length) else s)
         in case state of
              BulkIdle \<Rightarrow>
                if tcp_can_send T s
                then (snd (tcp_send_slice T s (ascii (bulk_head HTTP_BULK_BYTES))), Sending HTTP_BULK_BYTES)
                else (s, BulkIdle)
            | Sending rem \<Rightarrow>
                (case bulk_fill T rem s 0 of
                   (rem, s, _) \<Rightarrow> if rem = 0 then (tcp_close T s, BulkIdle) else (s, Sending rem))))"

section \<open>What the services rely on\<close>

text \<open>\<open>out\<close> is everything a connection has accepted for sending, \<open>room\<close> the free space of its buffer. The buffer of the
  management socket has 32 KB, so a fresh connection that can send has room for any head and page.\<close>

definition tcp_laws :: "'s tcp_socket \<Rightarrow> ('s \<Rightarrow> bytes) \<Rightarrow> ('s \<Rightarrow> nat) \<Rightarrow> bool" where
  "tcp_laws T out room \<longleftrightarrow>
     (\<forall>s bs n s'. tcp_send_slice T s bs = (Some n, s') \<longrightarrow>
        n = min (length bs) (room s) \<and> out s' = out s @ take n bs \<and> room s' = room s - n
        \<and> tcp_may_send T s' = tcp_may_send T s)
   \<and> (\<forall>s bs s'. tcp_send_slice T s bs = (None, s') \<longrightarrow> out s' = out s)
   \<and> (\<forall>s bs. tcp_may_send T s \<longrightarrow> fst (tcp_send_slice T s bs) \<noteq> None)
   \<and> (\<forall>s. tcp_can_send T s \<longrightarrow> tcp_may_send T s \<and> 0 < room s)
   \<and> (\<forall>s. out (tcp_close T s) = out s)
   \<and> (\<forall>s f. out (snd (tcp_recv T s f)) = out s)
   \<and> (\<forall>s. tcp_can_send T s \<and> out s = [] \<longrightarrow> 4096 \<le> room s)"

lemma tcp_laws_D:
  assumes "tcp_laws T out room"
  shows "tcp_send_slice T s bs = (Some n, s') \<Longrightarrow> n = min (length bs) (room s)"
    and "tcp_send_slice T s bs = (Some n, s') \<Longrightarrow> out s' = out s @ take n bs"
    and "tcp_send_slice T s bs = (Some n, s') \<Longrightarrow> room s' = room s - n"
    and "tcp_send_slice T s bs = (Some n, s') \<Longrightarrow> tcp_may_send T s' = tcp_may_send T s"
    and "tcp_send_slice T s bs = (None, s') \<Longrightarrow> out s' = out s"
    and "tcp_can_send T s \<Longrightarrow> tcp_may_send T s \<and> 0 < room s"
    and "out (tcp_close T s) = out s"
    and "out (snd (tcp_recv T s f)) = out s"
    and "tcp_can_send T s \<Longrightarrow> out s = [] \<Longrightarrow> 4096 \<le> room s"
  using assms unfolding tcp_laws_def by blast+

lemma tcp_send_may:
  assumes "tcp_laws T out room" and "tcp_may_send T s"
  obtains s' where "tcp_send_slice T s bs = (Some (min (length bs) (room s)), s')"
    and "out s' = out s @ take (room s) bs" and "room s' = room s - length bs" and "tcp_may_send T s'"
proof -
  have "fst (tcp_send_slice T s bs) \<noteq> None" using assms unfolding tcp_laws_def by blast
  then obtain n s' where send: "tcp_send_slice T s bs = (Some n, s')"
    by (cases "tcp_send_slice T s bs") auto
  note D = tcp_laws_D [OF assms(1)]
  show ?thesis
    using that [of s'] send D(1-4) [OF send] assms(2) by (auto simp: min_def)
qed

lemma take_BULK_CHUNK: "take n BULK_CHUNK = replicate (min n 1024) 0x55"
  by (simp add: BULK_CHUNK_def)

text \<open>One poll of the streaming loop sends a run of filler, as long as the number it takes off.\<close>

lemma bulk_fill_ok:
  assumes laws: "tcp_laws T out room"
  shows "bulk_fill T rem s tx = (rem', s', tx') \<Longrightarrow>
    rem' \<le> rem \<and> out s' = out s @ replicate (rem - rem') 0x55 \<and> tx' = tx + of_nat (rem - rem')
    \<and> (0 < rem \<and> tcp_can_send T s \<longrightarrow> rem' < rem)"
proof (induction rem arbitrary: s tx rule: less_induct)
  case (less rem)
  show ?case
  proof (cases "0 < rem \<and> tcp_can_send T s")
    case False
    then show ?thesis using less.prems by (auto simp: bulk_fill.simps [of T rem])
  next
    case True
    let ?k = "min rem 1024" and ?n = "min (min rem 1024) (room s)"
    have can: "tcp_may_send T s" "0 < room s" using tcp_laws_D(6) [OF laws] True by blast+
    obtain s1 where send: "tcp_send_slice T s (replicate ?k 0x55) = (Some ?n, s1)"
      and out: "out s1 = out s @ replicate ?n 0x55"
      using tcp_send_may [OF laws can(1), of "replicate ?k 0x55"] by (auto simp: min.commute)
    have n: "0 < ?n" "?n \<le> rem" using True can by auto
    have "bulk_fill T (rem - ?n) s1 (tx + of_nat ?n) = (rem', s', tx')"
      using less.prems True send n(1)
      by (simp add: bulk_fill.simps [of T rem] take_BULK_CHUNK BULK_CHUNK_def)
    from less.IH [OF _ this] n have IH: "rem' \<le> rem - ?n" "out s' = out s1 @ replicate (rem - ?n - rem') 0x55"
      "tx' = tx + of_nat ?n + of_nat (rem - ?n - rem')" by auto
    have split: "rem - rem' = ?n + (rem - ?n - rem')" using IH(1) n by linarith
    have "out s' = out s @ replicate (rem - rem') 0x55"
      unfolding split replicate_add using IH(2) out by simp
    moreover have "tx' = tx + of_nat (rem - rem')"
      unfolding split using IH(3) by (simp only: of_nat_add add.assoc)
    ultimately show ?thesis using IH(1) n by auto
  qed
qed

lemma bulk_head_whole:
  "n < 2 ^ 32 \<Longrightarrow> bulk_head n = text_of
     [Lit ''HTTP/1.0 200 OK'', Lit CRLF, Lit ''Content-Type: application/octet-stream'', Lit CRLF,
      Lit ''Content-Length: '', Lit (dec n), Lit CRLF, Lit ''Connection: close'', Lit CRLF, Lit CRLF]"
  unfolding bulk_head_def by (subst write_fmt_fits_empty) (simp_all add: unsigned_of_nat take_bit_nat_eq_self)

lemma length_bulk_head: "length (bulk_head n) \<le> 128"
  by (simp add: bulk_head_def write_fmt_le)

lemma length_ascii [simp]: "length (ascii s) = length s"
  by (simp add: ascii_def)

text \<open>A download as its connection sees it: the request was routed, then polls of the service and whatever the network
  does in between.\<close>

inductive bulk_run :: "'s tcp_socket \<Rightarrow> ('s \<Rightarrow> bytes) \<Rightarrow> u32 \<Rightarrow> 's \<Rightarrow> lan_http \<Rightarrow> u32 \<Rightarrow> bool"
  for T out tx where
  request: "out s = [] \<Longrightarrow> bulk_run T out tx s (Bulk LAN_BULK_BYTES False) tx"
| network: "bulk_run T out tx s st tx1 \<Longrightarrow> out s' = out s \<Longrightarrow> bulk_run T out tx s' st tx1"
| poll: "bulk_run T out tx s (Bulk rem h) tx1 \<Longrightarrow> tcp_is_open T s \<Longrightarrow>
    serve_status_http T body s (Bulk rem h) tx1 = (s', st, tx2) \<Longrightarrow> bulk_run T out tx s' st tx2"

definition bulk_sent :: "nat \<Rightarrow> bytes" where
  "bulk_sent n = ascii (bulk_head LAN_BULK_BYTES) @ replicate n 0x55"

definition streamed :: "u32 \<Rightarrow> bytes \<Rightarrow> lan_http \<Rightarrow> u32 \<Rightarrow> bool" where
  "streamed tx bs st tx1 = (case st of
     Bulk rem False \<Rightarrow> rem = LAN_BULK_BYTES \<and> bs = [] \<and> tx1 = tx
   | Bulk rem True \<Rightarrow> 0 < rem \<and> rem \<le> LAN_BULK_BYTES \<and> bs = bulk_sent (LAN_BULK_BYTES - rem)
       \<and> tx1 = tx + of_nat (LAN_BULK_BYTES - rem)
   | Idle \<Rightarrow> bs = bulk_sent LAN_BULK_BYTES \<and> tx1 = tx + of_nat LAN_BULK_BYTES)"

lemma serve_bulk_streamed:
  assumes laws: "tcp_laws T out room" and pre: "streamed tx (out s) (Bulk rem h) tx1"
    and run: "serve_bulk T rem h s tx1 = (s', st, tx2)"
  shows "streamed tx (out s') st tx2 \<and> (h \<and> tcp_can_send T s \<longrightarrow> st = Idle \<or> (\<exists>r < rem. st = Bulk r True))"
proof (cases "\<not> h \<and> \<not> tcp_can_send T s")
  case True
  with run pre show ?thesis by (auto simp: serve_bulk_def)
next
  case False
  define s1 where "s1 = (if h then s else snd (tcp_send_slice T s (ascii (bulk_head LAN_BULK_BYTES))))"
  have rem: "0 < rem" "rem \<le> LAN_BULK_BYTES" "tx1 = tx + of_nat (LAN_BULK_BYTES - rem)"
    using pre by (cases h; simp add: streamed_def LAN_BULK_BYTES_def)+
  have out1: "out s1 = bulk_sent (LAN_BULK_BYTES - rem)"
  proof (cases h)
    case True
    then show ?thesis using pre by (simp add: s1_def streamed_def)
  next
    case False
    with pre \<open>\<not> (\<not> h \<and> \<not> tcp_can_send T s)\<close> have fresh: "out s = []" "tcp_can_send T s" "rem = LAN_BULK_BYTES"
      by (simp_all add: streamed_def)
    obtain s2 where "tcp_send_slice T s (ascii (bulk_head LAN_BULK_BYTES))
        = (Some (min (length (ascii (bulk_head LAN_BULK_BYTES))) (room s)), s2)"
      and "out s2 = out s @ take (room s) (ascii (bulk_head LAN_BULK_BYTES))"
      using tcp_send_may [OF laws] tcp_laws_D(6) [OF laws fresh(2)] by metis
    moreover have "length (bulk_head LAN_BULK_BYTES) \<le> room s"
      using length_bulk_head [of LAN_BULK_BYTES] tcp_laws_D(9) [OF laws fresh(2,1)] by linarith
    ultimately show ?thesis using False fresh by (simp add: s1_def bulk_sent_def)
  qed
  obtain rem' s2 where fill: "bulk_fill T rem s1 tx1 = (rem', s2, tx2)"
    and st: "(s', st) = (if rem' = 0 then (tcp_close T s2, Idle) else (s2, Bulk rem' True))"
    using run False by (auto simp: serve_bulk_def s1_def Let_def split: prod.splits if_splits)
  note ok = bulk_fill_ok [OF laws fill]
  have "LAN_BULK_BYTES - rem' = (LAN_BULK_BYTES - rem) + (rem - rem')" using ok rem by linarith
  then have "replicate (LAN_BULK_BYTES - rem') x = replicate (LAN_BULK_BYTES - rem) x @ replicate (rem - rem') x"
    and "(of_nat (LAN_BULK_BYTES - rem') :: u32) = of_nat (LAN_BULK_BYTES - rem) + of_nat (rem - rem')" for x :: u8
    by (simp_all only: replicate_add of_nat_add)
  then have "out s2 = bulk_sent (LAN_BULK_BYTES - rem')" "tx2 = tx + of_nat (LAN_BULK_BYTES - rem')"
    using ok out1 rem(3) by (simp_all add: bulk_sent_def)
  moreover have "h \<and> tcp_can_send T s \<longrightarrow> rem' < rem" using ok rem(1) by (auto simp: s1_def)
  ultimately show ?thesis
    using st ok rem tcp_laws_D(7) [OF laws] by (auto simp: streamed_def split: if_splits)
qed

text \<open>C30. The bulk download is exact: whatever the network does between polls, what a connection has been sent is the head
  followed by as many filler bytes as were taken off, the counter moves by that number, and when the service
  is idle again the 8 MiB announced in the head have been sent. A poll of a connection that can send makes progress.\<close>

theorem bulk_download_exact:
  assumes laws: "tcp_laws T out room" and run: "bulk_run T out tx s st tx1"
  shows "streamed tx (out s) st tx1
    \<and> bulk_head LAN_BULK_BYTES = ''HTTP/1.0 200 OK'' @ CRLF @ ''Content-Type: application/octet-stream'' @ CRLF
        @ ''Content-Length: 8388608'' @ CRLF @ ''Connection: close'' @ CRLF @ CRLF
    \<and> (\<forall>rem. st = Bulk rem True \<and> tcp_is_open T s \<and> tcp_can_send T s \<longrightarrow>
        (case serve_status_http T body s st tx1 of (s', st', _) \<Rightarrow> st' = Idle \<or> (\<exists>r < rem. st' = Bulk r True)))"
proof (intro conjI)
  show str: "streamed tx (out s) st tx1"
    using run
  proof induction
    case (poll s rem h tx1 body s' st tx2)
    then have "serve_bulk T rem h s tx1 = (s', st, tx2)" by (simp add: serve_status_http_def)
    with serve_bulk_streamed [OF laws poll.IH] show ?case by blast
  qed (simp_all add: streamed_def)
  have "map digit [8, 3, 8, 8, 6, 0, 8] = ''8388608''" by code_simp
  then have "dec LAN_BULK_BYTES = ''8388608''" by (simp add: LAN_BULK_BYTES_def dec.simps)
  then show "bulk_head LAN_BULK_BYTES = ''HTTP/1.0 200 OK'' @ CRLF @ ''Content-Type: application/octet-stream'' @ CRLF
        @ ''Content-Length: 8388608'' @ CRLF @ ''Connection: close'' @ CRLF @ CRLF"
    by (subst bulk_head_whole) (simp_all add: LAN_BULK_BYTES_def)
  show "\<forall>rem. st = Bulk rem True \<and> tcp_is_open T s \<and> tcp_can_send T s \<longrightarrow>
        (case serve_status_http T body s st tx1 of (s', st', _) \<Rightarrow> st' = Idle \<or> (\<exists>r < rem. st' = Bulk r True))"
  proof (intro allI impI)
    fix rem assume a: "st = Bulk rem True \<and> tcp_is_open T s \<and> tcp_can_send T s"
    obtain s' st' tx' where r: "serve_bulk T rem True s tx1 = (s', st', tx')" using prod_cases3 by blast
    from serve_bulk_streamed [OF laws _ r] str a
    have "st' = Idle \<or> (\<exists>r < rem. st' = Bulk r True)" by blast
    with a r show "case serve_status_http T body s st tx1 of (s', st', _) \<Rightarrow> st' = Idle \<or> (\<exists>r < rem. st' = Bulk r True)"
      by (simp add: serve_status_http_def)
  qed
qed

section \<open>A socket for the examples\<close>

text \<open>The bytes accepted so far and the free space of the buffer.\<close>

definition buffer_socket :: "(bytes \<times> nat) tcp_socket" where
  "buffer_socket = \<lparr>tcp_is_open = (\<lambda>s. True), tcp_listen = (\<lambda>s p. s),
     tcp_can_send = (\<lambda>(o1, r). 0 < r \<and> (o1 = [] \<longrightarrow> 4096 \<le> r)), tcp_can_recv = (\<lambda>s. False),
     tcp_may_send = (\<lambda>s. True), tcp_may_recv = (\<lambda>s. False), tcp_recv = (\<lambda>s f. (None, s)),
     tcp_send_slice = (\<lambda>(o1, r) bs. (Some (min (length bs) r), (o1 @ take r bs, r - length bs))),
     tcp_close = (\<lambda>s. s)\<rparr>"

lemma buffer_socket_laws: "tcp_laws buffer_socket fst snd"
  by (auto simp: tcp_laws_def buffer_socket_def min_def)

theorem bulk_download_exact_witness:
  "case serve_status_http buffer_socket [] ([], 32768) (Bulk LAN_BULK_BYTES False) 5 of (s, st, tx) \<Rightarrow>
     streamed 5 (fst s) st tx"
proof -
  obtain s st tx where r: "serve_status_http buffer_socket [] ([], 32768) (Bulk LAN_BULK_BYTES False) 5 = (s, st, tx)"
    using prod_cases3 by blast
  have "bulk_run buffer_socket fst 5 ([], 32768) (Bulk LAN_BULK_BYTES False) 5"
    by (rule bulk_run.request) simp
  moreover have "tcp_is_open buffer_socket ([], 32768)" by (simp add: buffer_socket_def)
  ultimately have "bulk_run buffer_socket fst 5 s st tx" by (rule bulk_run.poll) (rule r)
  from conjunct1 [OF bulk_download_exact [OF buffer_socket_laws this]] show ?thesis
    by (simp only: r prod.case)
qed

section \<open>Page and sink\<close>

text \<open>A request that is not for the download is answered by the head and the whole page, and the connection is
  closed.\<close>

lemma status_page_sent:
  assumes laws: "tcp_laws T out room" and "tcp_is_open T s" "tcp_may_recv T s"
    and req: "tcp_recv T s length = (Some buf, s1)" "buf \<noteq> []" "take 9 buf \<noteq> ascii ''GET /bulk''"
    and fresh: "tcp_can_send T s1" "out s = []" and body: "length body \<le> STATUS_BODY_CAP"
  shows "\<exists>s'. serve_status_http T body s Idle tx = (tcp_close T s', Idle, tx)
    \<and> out s' = ascii (status_head (length body)) @ ascii body"
proof -
  have out1: "out s1 = []" using tcp_laws_D(8) [OF laws, of s length] req(1) fresh(2) by simp
  have room: "4096 \<le> room s1" and may: "tcp_may_send T s1"
    using tcp_laws_D(9) [OF laws fresh(1) out1] tcp_laws_D(6) [OF laws fresh(1)] by simp_all
  define h where "h = ascii (status_head (length body))"
  have head: "length h \<le> 128" by (simp add: h_def status_head_def write_fmt_le)
  obtain n1 s2 where s2: "tcp_send_slice T s1 h = (Some n1, s2)" "out s2 = out s1 @ take (room s1) h"
    "room s2 = room s1 - length h" "tcp_may_send T s2"
    by (rule tcp_send_may [OF laws may])
  obtain n2 s3 where s3: "tcp_send_slice T s2 (ascii body) = (Some n2, s3)"
    "out s3 = out s2 @ take (room s2) (ascii body)"
    by (rule tcp_send_may [OF laws s2(4)])
  have "length body \<le> room s2" using body s2(3) room head by (simp add: STATUS_BODY_CAP_def POOL_LEN_def)
  then have "out s3 = h @ ascii body" using s3(2) s2(2) out1 room head by simp
  moreover have "serve_status_http T body s Idle tx = (tcp_close T s3, Idle, tx)"
    using assms(2,3) req fresh(1) s2(1) s3(1) by (simp add: serve_status_http_def h_def [symmetric])
  ultimately show ?thesis unfolding h_def by blast
qed

text \<open>The sink takes everything that has arrived, and its loop ends.\<close>

lemma sink_loop_counts:
  assumes "\<forall>s. tcp_can_recv T s \<longrightarrow> (\<exists>buf s'. tcp_recv T s length = (Some buf, s') \<and> buf \<noteq> []
      \<and> waiting s = length buf + waiting s')"
    and "\<forall>s. \<not> tcp_can_recv T s \<longrightarrow> waiting s = 0"
  shows "\<exists>s'. sink_loop T s rx = Some (s', rx + of_nat (waiting s)) \<and> waiting s' = 0"
proof (induction "waiting s" arbitrary: s rx rule: less_induct)
  case less
  show ?case
  proof (cases "tcp_can_recv T s")
    case False
    with assms(2) show ?thesis by (simp add: sink_loop.simps [of T s])
  next
    case True
    with assms(1) obtain buf s1 where r: "tcp_recv T s length = (Some buf, s1)" "buf \<noteq> []"
      "waiting s = length buf + waiting s1" by blast
    then have "waiting s1 < waiting s" by simp
    from less [OF this, of "rx + of_nat (length buf)"] r True show ?thesis
      by (simp add: sink_loop.simps [of T s] add.assoc)
  qed
qed

end
