(* ===== verification/Router.thy ===== *)
theory Router
  imports Services Link
begin

text \<open>
  The two tasks of the router build (\<^verbatim>\<open>wan_task\<close> and \<^verbatim>\<open>net_task\<close> of \<^verbatim>\<open>src/wireless.rs\<close>) over the components they call, and the
  two physical devices under the forwarder: the wired one is the model's own \<open>EthMac\<close>, the wireless one is
  \<^verbatim>\<open>src/cyw43_phy.rs\<close> over cyw43's driver. Both tasks run on one executor and give up control only at the timer
  that ends a pass, so one pass of a loop is one step, and the router is the interleaving of these steps.

  Parameters: smoltcp's \<^verbatim>\<open>Interface::poll\<close> (which reaches the device through the device's own operations), its sockets, the
  codecs, and the clock; \<open>clk i\<close> is the \<open>i\<close>-th reading of a pass in microseconds. The phys ignore the time they are given,
  so \<^verbatim>\<open>arp_gateway\<close>'s reading is left out.
\<close>

section \<open>The devices\<close>

text \<open>The wired device: the state is \<^const>\<open>None\<close> after a panic. \<^verbatim>\<open>copy_from_slice\<close> panics when the token's buffer is shorter
  than the frame.\<close>

definition eth_phy :: "line \<Rightarrow> (eth_mac \<times> rx_state) option phy" where
  "eth_phy hw = \<lparr>
     phy_receive = (\<lambda>d. case d of
        None \<Rightarrow> (None, None)
      | Some (mac, st) \<Rightarrow> (case mac_receive mac st of (buf, mac, st) \<Rightarrow> (buf, Some (mac, st)))),
     phy_transmit = (\<lambda>d. case d of None \<Rightarrow> (False, None) | Some (mac, st) \<Rightarrow> (True, Some (mac_transmit mac, st))),
     phy_consume = (\<lambda>d f. case d of
        None \<Rightarrow> None
      | Some (mac, st) \<Rightarrow>
          if length f \<noteq> min (length f) (length (tx_buf mac)) then None
          else map_option (\<lambda>mac. (mac, st)) (tx_token_consume hw (length f) (\<lambda>_. f) mac))\<rparr>"

text \<open>\<^verbatim>\<open>device.inner_mut().send_nlp()\<close>.\<close>

definition eth_nlp :: "line \<Rightarrow> (eth_mac \<times> rx_state) option \<Rightarrow> (eth_mac \<times> rx_state) option" where
  "eth_nlp hw d = Option.bind d (\<lambda>(mac, st). map_option (\<lambda>mac. (mac, st)) (mac_send_nlp hw mac))"

text \<open>cyw43's driver is a parameter: what it receives, whether it has a free buffer, and consuming its token. The
  counters are \<^verbatim>\<open>CYW43_RX_FRAMES\<close> and \<^verbatim>\<open>CYW43_TX_BUSY\<close>.\<close>

record 'n net_driver =
  nd_receive :: "'n \<Rightarrow> bytes option \<times> 'n"
  nd_transmit :: "'n \<Rightarrow> bool \<times> 'n"
  nd_consume :: "'n \<Rightarrow> bytes \<Rightarrow> 'n"

record 'n cyw43_phy =
  net :: 'n
  rx_frames :: u32
  tx_busy :: u32

definition CYW43_MTU :: nat where "CYW43_MTU = 1514"

definition cyw43_phy :: "'n net_driver \<Rightarrow> 'n cyw43_phy phy" where
  "cyw43_phy N = \<lparr>
     phy_receive = (\<lambda>p. case nd_receive N (net p) of
        (None, n) \<Rightarrow> (None, p\<lparr>net := n\<rparr>)
      | (Some f, n) \<Rightarrow> (Some f, p\<lparr>net := n, rx_frames := rx_frames p + 1\<rparr>)),
     phy_transmit = (\<lambda>p. case nd_transmit N (net p) of
        (True, n) \<Rightarrow> (True, p\<lparr>net := n\<rparr>)
      | (False, n) \<Rightarrow> (False, p\<lparr>net := n, tx_busy := tx_busy p + 1\<rparr>)),
     phy_consume = (\<lambda>p f. p\<lparr>net := nd_consume N (net p) f\<rparr>)\<rparr>"

section \<open>A pass of the tasks\<close>

definition ms :: "nat \<Rightarrow> int" where
  "ms us = int (us div 1000)"

text \<open>\<^verbatim>\<open>while let Ok(mut frame) = CH.try_receive() { device.egress(&mut frame, now()) }\<close>.\<close>

partial_function (option) drain_egress ::
  "'c wire \<Rightarrow> 'd phy \<Rightarrow> fwd_channel \<Rightarrow> (nat \<Rightarrow> nat) \<Rightarrow> nat \<Rightarrow> ('c, 'd) forwarding_device \<Rightarrow> fwd
     \<Rightarrow> (('c, 'd) forwarding_device \<times> fwd) option" where
  "drain_egress W P c clk i d s =
     (case try_receive c s of
        None \<Rightarrow> Some (d, s)
      | Some (f, s) \<Rightarrow> Option.bind (egress W P d s f (ms (clk i))) (\<lambda>(d, s). drain_egress W P c clk (i + 1) d s))"

text \<open>What the two tasks share beside the forwarder's statics.\<close>

record ('c, 'h) shared =
  sh_fwd :: fwd
  sh_dns_offer :: u32
  sh_wan_pub :: "('c, 'h) wan_state option"
  sh_stats :: lan_stats

text \<open>An interface's poll sees the device, the statics behind it and the sockets; \<^const>\<open>None\<close> is a panic.\<close>

type_synonym ('c, 'd, 'w) iface_poll =
  "int \<Rightarrow> ('c, 'd) forwarding_device \<times> fwd \<times> 'w \<Rightarrow> (('c, 'd) forwarding_device \<times> fwd \<times> 'w) option"

record ('c, 'd, 'h, 'w) wan_task =
  wt_device :: "('c, 'd) forwarding_device"
  wt_world :: 'w
  wt_wan :: "('c, 'h) wan_state"
  next_nlp :: nat
  next_ping :: nat
  prev_gw :: "ipv4 option"

definition be32_of :: "ipv4 \<Rightarrow> u32" where
  "be32_of ip = (case octets ip of [a, b, c, d] \<Rightarrow> le32 d c b a | _ \<Rightarrow> 0)"

text \<open>The 1 Hz part of the pass.\<close>

definition wan_second ::
  "('c, 'h, 'w) wan_net \<Rightarrow> 'd phy \<Rightarrow> 'w \<Rightarrow> ('c, 'h) wan_state \<Rightarrow> ('c, 'd) forwarding_device \<Rightarrow> fwd
     \<Rightarrow> 'w \<times> ('c, 'h) wan_state \<times> ('c, 'd) forwarding_device" where
  "wan_second N P w wan d s =
     (if addr wan \<noteq> None then
        (let (w, wan) = ping_send N w wan;
             (w, wan) = dns_start N w wan;
             d = (case gw wan of Some g \<Rightarrow> if \<not> wan_neigh_known g s then arp_gateway P d else d | None \<Rightarrow> d)
         in (w, wan, d))
      else (w, wan, d))"

definition wan_iter ::
  "'c wire \<Rightarrow> 'd phy \<Rightarrow> ('d \<Rightarrow> 'd) \<Rightarrow> ('c, 'h, 'w) wan_net \<Rightarrow> ('c, 'd, 'w) iface_poll \<Rightarrow> (nat \<Rightarrow> nat)
     \<Rightarrow> ('c, 'd, 'h, 'w) wan_task \<times> ('c, 'h) shared \<Rightarrow> (('c, 'd, 'h, 'w) wan_task \<times> ('c, 'h) shared) option" where
  "wan_iter W P nlp N ipoll clk = (\<lambda>(t, sh). do {
     (d, s, w) \<leftarrow> ipoll (ms (clk 0)) (wt_device t, sh_fwd sh, wt_world t);
     let (w, wan) = dhcp_apply N w (wt_wan t);
     let d = (case addr wan of Some cidr \<Rightarrow> set_lease W cidr (gw wan) d | None \<Rightarrow> d);
     let d = (if gw wan \<noteq> None \<and> gw wan \<noteq> prev_gw t then arp_gateway P d else d);
     let offer = (case dns0 wan of Some dns \<Rightarrow> be32_of dns | None \<Rightarrow> sh_dns_offer sh);
     let pgw = gw wan;
     (w, wan) \<leftarrow> ping_drain N w wan;
     let (w, wan) = dns_harvest N w wan;
     let nowt = clk 1;
     let (nlp_at, d) = (if next_nlp t \<le> nowt then (nowt + 16000, d\<lparr>inner := nlp (inner d)\<rparr>) else (next_nlp t, d));
     let (ping_at, w, wan, d, s) =
       (if next_ping t \<le> nowt
        then (case wan_second N P w wan d s of
                (w, wan, d) \<Rightarrow> (nowt + 1000000, w, wan, d, nat_reap (millis (ms (clk 2))) s))
        else (next_ping t, w, wan, d, s));
     (d, s) \<leftarrow> drain_egress W P LAN_TO_WAN clk 3 d s;
     Some (\<lparr>wt_device = d, wt_world = w, wt_wan = wan, next_nlp = nlp_at, next_ping = ping_at, prev_gw = pgw\<rparr>,
           sh\<lparr>sh_fwd := s, sh_dns_offer := offer, sh_wan_pub := Some wan\<rparr>)
   })"

text \<open>The LAN task. Its sockets are separate states, reached by \<^verbatim>\<open>iface.poll\<close> as one.\<close>

record ('c, 'd, 'u, 't) net_task =
  nt_device :: "('c, 'd) forwarding_device"
  nt_dhcp_socket :: 'u
  nt_http_socket :: 't
  nt_sink_socket :: 't
  nt_dhcp :: dhcp_server
  nt_lan_http :: lan_http

definition net_iter ::
  "('c \<Rightarrow> arg list) \<Rightarrow> 'c wire \<Rightarrow> 'd phy \<Rightarrow> dhcp_codec \<Rightarrow> 'u udp_socket \<Rightarrow> 't tcp_socket
     \<Rightarrow> ('c, 'd, 'u \<times> 't \<times> 't) iface_poll \<Rightarrow> (nat \<Rightarrow> nat)
     \<Rightarrow> ('c, 'd, 'u, 't) net_task \<times> ('c, 'h) shared \<Rightarrow> (('c, 'd, 'u, 't) net_task \<times> ('c, 'h) shared) option" where
  "net_iter show_cidr W P codec U T ipoll clk = (\<lambda>(t, sh). do {
     (d, s, u, h, k) \<leftarrow> ipoll (ms (clk 0))
        (nt_device t, sh_fwd sh, nt_dhcp_socket t, nt_http_socket t, nt_sink_socket t);
     let (srv, u) = dhcp_poll codec U ((nt_dhcp t)\<lparr>lan_dns_offer := sh_dns_offer sh\<rparr>) u;
     let ls = sh_stats sh;
     let body = status_body show_cidr ls s (sh_wan_pub sh) srv (of_nat (clk 1 div 1000000));
     let (h, st, tx) = serve_status_http T body h (nt_lan_http t) (lan_bulk_tx_bytes ls);
     (k, rx) \<leftarrow> serve_lan_sink T k (lan_sink_rx_bytes ls);
     (d, s) \<leftarrow> drain_egress W P WAN_TO_LAN clk 2 d s;
     Some (\<lparr>nt_device = d, nt_dhcp_socket = u, nt_http_socket = h, nt_sink_socket = k, nt_dhcp = srv, nt_lan_http = st\<rparr>,
           sh\<lparr>sh_fwd := s, sh_stats := ls\<lparr>lan_bulk_tx_bytes := tx, lan_sink_rx_bytes := rx\<rparr>\<rparr>)
   })"

section \<open>Draining a channel\<close>

lemma count_drop_keeps [simp]:
  "lan_to_wan (count_drop r s) = lan_to_wan s" "wan_to_lan (count_drop r s) = wan_to_lan s"
  "fwd_sent (count_drop r s) = fwd_sent s" "fwd_drop (count_drop r s) = fwd_drop s + 1"
  by (cases r; simp)+

lemma egress_keeps:
  assumes inv: "fwd_inv s" and f: "queue_frame f"
  shows "\<exists>d' s'. egress W P d s f now = Some (d', s') \<and> fwd_inv s' \<and> (\<forall>c. chan c s' = chan c s)
    \<and> cfg d' = cfg d \<and> nat_on d' = nat_on d \<and> egress_ch d' = egress_ch d
    \<and> fwd_sent s' + fwd_drop s' = fwd_sent s + fwd_drop s + 1"
proof -
  have len: "34 \<le> length f" using f by (simp add: queue_frame_def)
  obtain g ct r ds' where e: "egress W P d s f now = Some ds'" and o: "egress_outcome P d (s\<lparr>wan_ct := ct\<rparr>) r ds'"
    using egress_cases [OF fwd_inv_ct [OF inv] len, of d now W P] by metis
  obtain d' s' where ds: "ds' = (d', s')" by force
  have "fwd_inv s'" using fwd_inv_egress [OF inv len] e ds by simp
  moreover have "chan c s' = chan c s" for c
    using o unfolding ds by (cases r; cases c; cases "iface (cfg d)") (auto simp: egress_outcome_def)
  moreover have "cfg d' = cfg d \<and> nat_on d' = nat_on d \<and> egress_ch d' = egress_ch d"
    using o ds by (auto simp: egress_outcome_def split: outcome.splits if_splits)
  moreover have "fwd_sent s' + fwd_drop s' = fwd_sent s + fwd_drop s + 1"
    using o unfolding ds by (cases r; cases "iface (cfg d)") (auto simp: egress_outcome_def)
  ultimately show ?thesis using e ds by blast
qed

text \<open>The loop that empties a channel ends, handing every frame to \<^verbatim>\<open>egress\<close> once.\<close>

lemma drain_egress_ok:
  "fwd_inv s \<Longrightarrow> \<exists>d' s'. drain_egress W P c clk i d s = Some (d', s') \<and> fwd_inv s' \<and> chan c s' = []
     \<and> (\<forall>c'. c' \<noteq> c \<longrightarrow> chan c' s' = chan c' s) \<and> cfg d' = cfg d \<and> nat_on d' = nat_on d \<and> egress_ch d' = egress_ch d
     \<and> fwd_sent s' + fwd_drop s' = fwd_sent s + fwd_drop s + of_nat (length (chan c s))"
proof (induction "chan c s" arbitrary: i d s)
  case Nil
  then have "drain_egress W P c clk i d s = Some (d, s)" by (simp add: drain_egress.simps)
  with Nil show ?case by simp
next
  case (Cons f q)
  let ?s = "set_chan c q s"
  have q: "queue_frame f" "length q \<le> CHAN_DEPTH" "\<forall>g \<in> set q. queue_frame g"
    using fwd_inv_chan [OF Cons.prems, of c] Cons.hyps(2) by (metis list.set_intros(1), metis Suc_leD length_Cons, metis list.set_intros(2))
  have inv: "fwd_inv ?s" by (rule fwd_inv_set_chan [OF Cons.prems q(2,3)])
  obtain d1 s1 where e: "egress W P d ?s f (ms (clk i)) = Some (d1, s1)" "fwd_inv s1" "\<forall>c'. chan c' s1 = chan c' ?s"
    and cfg: "cfg d1 = cfg d" "nat_on d1 = nat_on d" "egress_ch d1 = egress_ch d"
    and cnt: "fwd_sent s1 + fwd_drop s1 = fwd_sent ?s + fwd_drop ?s + 1"
    using egress_keeps [OF inv q(1), of W P d "ms (clk i)"] by blast
  have "q = chan c s1" using e(3) by simp
  from Cons.hyps(1) [OF this e(2), of "i + 1" d1] obtain d' s' where
    IH: "drain_egress W P c clk (i + 1) d1 s1 = Some (d', s')" "fwd_inv s'" "chan c s' = []"
    "\<forall>c'. c' \<noteq> c \<longrightarrow> chan c' s' = chan c' s1" "cfg d' = cfg d1" "nat_on d' = nat_on d1" "egress_ch d' = egress_ch d1"
    "fwd_sent s' + fwd_drop s' = fwd_sent s1 + fwd_drop s1 + of_nat (length (chan c s1))" by blast
  have run: "drain_egress W P c clk i d s = Some (d', s')"
    using Cons.hyps(2) [symmetric] e(1) IH(1) by (simp add: drain_egress.simps [of W P c clk i])
  have other: "chan c' s' = chan c' s" if "c' \<noteq> c" for c'
  proof -
    have "chan c' ?s = chan c' s" using that by (cases c; cases c') simp_all
    with that IH(4) e(3) show ?thesis by metis
  qed
  have same: "fwd_sent ?s = fwd_sent s" "fwd_drop ?s = fwd_drop s" by (cases c; simp)+
  have "of_nat (length (chan c s)) = (1 + of_nat (length (chan c s1)) :: u32)"
    using Cons.hyps(2) \<open>q = chan c s1\<close> by (metis length_Cons of_nat_Suc)
  then have "fwd_sent s' + fwd_drop s' = fwd_sent s + fwd_drop s + of_nat (length (chan c s))"
    using IH(8) cnt same by (simp add: algebra_simps)
  with run IH other cfg show ?case by (intro exI [of _ d'] exI [of _ s']) simp
qed

section \<open>One pass of the WAN task\<close>

text \<open>smoltcp's poll reaches the device only through its operations, so it keeps the forwarder's invariant and
  configuration, and it does not configure the interface.\<close>

definition poll_ok :: "('c, 'd, 'w) iface_poll \<Rightarrow> ('w \<Rightarrow> 'k) \<Rightarrow> bool" where
  "poll_ok ipoll cf \<longleftrightarrow> (\<forall>t d s w. fwd_inv s \<longrightarrow> (\<exists>d' s' w'. ipoll t (d, s, w) = Some (d', s', w')
     \<and> cfg d' = cfg d \<and> nat_on d' = nat_on d \<and> egress_ch d' = egress_ch d \<and> fwd_inv s' \<and> cf w' = cf w))"

definition lease_of :: "('c, 'h) wan_state \<Rightarrow> 'c option \<times> ipv4 option \<times> ipv4 option" where
  "lease_of wan = (addr wan, gw wan, dns0 wan)"

lemma lease_of_keeps:
  "ping_send N w wan = (w1, wan1) \<Longrightarrow> lease_of wan1 = lease_of wan"
  "dns_start N w wan = (w1, wan1) \<Longrightarrow> lease_of wan1 = lease_of wan"
  "dns_harvest N w wan = (w1, wan1) \<Longrightarrow> lease_of wan1 = lease_of wan"
  "lease_of (wan\<lparr>ping_ok := n\<rparr>) = lease_of wan"
  by (auto simp: lease_of_def ping_send_def dns_start_def dns_harvest_def Let_def
      split: if_splits option.splits prod.splits query_result.splits)

lemma device_keeps [simp]:
  "cfg (arp_gateway P d) = cfg d" "nat_on (arp_gateway P d) = nat_on d" "egress_ch (arp_gateway P d) = egress_ch d"
  by (simp_all add: arp_gateway_def Let_def split: option.split prod.split bool.split)

lemma wan_second_ok:
  assumes laws: "wan_laws N cf queued" and syn: "synced (cf w) wan"
    and run: "wan_second N P w wan d s = (w1, wan1, d1)"
  shows "synced (cf w1) wan1" and "lease_of wan1 = lease_of wan" and "cfg d1 = cfg d"
    and "nat_on d1 = nat_on d" and "egress_ch d1 = egress_ch d"
proof -
  have "synced (cf w1) wan1 \<and> lease_of wan1 = lease_of wan \<and> cfg d1 = cfg d \<and> nat_on d1 = nat_on d
      \<and> egress_ch d1 = egress_ch d"
  proof (cases "addr wan = None")
    case True
    with run syn show ?thesis by (auto simp: wan_second_def)
  next
    case False
    obtain w2 wan2 where ps: "ping_send N w wan = (w2, wan2)" by force
    obtain w3 wan3 where ds: "dns_start N w2 wan2 = (w3, wan3)" by force
    have "synced (cf w3) wan3"
      using synced_dns_start [OF laws _ ds] synced_ping_send [OF laws syn ps] by blast
    moreover have "lease_of wan3 = lease_of wan"
      using lease_of_keeps(1) [OF ps] lease_of_keeps(2) [OF ds] by simp
    moreover have "w1 = w3 \<and> wan1 = wan3 \<and> cfg d1 = cfg d \<and> nat_on d1 = nat_on d \<and> egress_ch d1 = egress_ch d"
      using run False ps ds by (auto simp: wan_second_def split: option.splits if_splits)
    ultimately show ?thesis by blast
  qed
  then show "synced (cf w1) wan1" and "lease_of wan1 = lease_of wan" and "cfg d1 = cfg d"
    and "nat_on d1 = nat_on d" and "egress_ch d1 = egress_ch d" by blast+
qed

text \<open>What a pass leaves behind, whatever it found.\<close>

definition wan_pass ::
  "'c wire \<Rightarrow> ('w \<Rightarrow> 'c config) \<Rightarrow> nat \<Rightarrow> ('c, 'd, 'h, 'w) wan_task \<times> ('c, 'h) shared
     \<Rightarrow> ('c, 'd, 'h, 'w) wan_task \<times> ('c, 'h) shared \<Rightarrow> bool" where
  "wan_pass W cf nowt = (\<lambda>(t, sh) (t', sh').
     fwd_inv (sh_fwd sh') \<and> synced (cf (wt_world t')) (wt_wan t') \<and> lan_to_wan (sh_fwd sh') = []
     \<and> sh_wan_pub sh' = Some (wt_wan t') \<and> prev_gw t' = gw (wt_wan t')
     \<and> cfg (wt_device t') = (case addr (wt_wan t') of
         None \<Rightarrow> cfg (wt_device t)
       | Some c \<Rightarrow> (cfg (wt_device t))\<lparr>our_ip := cidr_address W c, subnet := c, gateway := gw (wt_wan t')\<rparr>)
     \<and> sh_dns_offer sh' = (case dns0 (wt_wan t') of None \<Rightarrow> sh_dns_offer sh | Some dns \<Rightarrow> be32_of dns)
     \<and> nowt < next_nlp t' \<and> nowt < next_ping t')"

lemma wan_iter_ok:
  assumes laws: "wan_laws N cf queued" and poll: "poll_ok ipoll cf"
    and inv: "fwd_inv (sh_fwd sh)" and syn: "synced (cf (wt_world t)) (wt_wan t)"
  shows "\<exists>t' sh'. wan_iter W P nlp N ipoll clk (t, sh) = Some (t', sh') \<and> wan_pass W cf (clk 1) (t, sh) (t', sh')"
proof -
  obtain d1 s1 w1 where ip: "ipoll (ms (clk 0)) (wt_device t, sh_fwd sh, wt_world t) = Some (d1, s1, w1)"
    and d1: "cfg d1 = cfg (wt_device t)" and s1: "fwd_inv s1" and w1: "cf w1 = cf (wt_world t)"
    using poll inv unfolding poll_ok_def by metis
  obtain w2 wan2 where ap: "dhcp_apply N w1 (wt_wan t) = (w2, wan2)" by force
  have syn2: "synced (cf w2) wan2" using synced_apply [OF laws _ ap] syn w1 by simp
  define d2 where "d2 = (case addr wan2 of Some cidr \<Rightarrow> set_lease W cidr (gw wan2) d1 | None \<Rightarrow> d1)"
  define d3 where "d3 = (if gw wan2 \<noteq> None \<and> gw wan2 \<noteq> prev_gw t then arp_gateway P d2 else d2)"
  obtain w4 n where pd: "ping_drain N w2 wan2 = Some (w4, wan2\<lparr>ping_ok := n\<rparr>)" and w4: "cf w4 = cf w2"
    using ping_drain_ok [OF laws] by blast
  obtain w5 wan5 where hv: "dns_harvest N w4 (wan2\<lparr>ping_ok := n\<rparr>) = (w5, wan5)" by force
  have syn5: "synced (cf w5) wan5" using synced_dns_harvest [OF laws _ hv] syn2 w4 by simp
  have lease5: "lease_of wan5 = lease_of wan2" using lease_of_keeps(3) [OF hv] lease_of_keeps(4) by metis
  define d5 where "d5 = (if next_nlp t \<le> clk 1 then d3\<lparr>inner := nlp (inner d3)\<rparr> else d3)"
  obtain w6 wan6 d6' where sec: "wan_second N P w5 wan5 d5 s1 = (w6, wan6, d6')" using prod_cases3 by blast
  note sec_ok = wan_second_ok [OF laws syn5 sec]
  define due where "due \<longleftrightarrow> next_ping t \<le> clk 1"
  define w7 where "w7 = (if due then w6 else w5)"
  define wan7 where "wan7 = (if due then wan6 else wan5)"
  define d7 where "d7 = (if due then d6' else d5)"
  define s7 where "s7 = (if due then nat_reap (millis (ms (clk 2))) s1 else s1)"
  have s7: "fwd_inv s7" using s1 fwd_inv_reap by (simp add: s7_def)
  obtain d8 s8 where dr: "drain_egress W P LAN_TO_WAN clk 3 d7 s7 = Some (d8, s8)" "fwd_inv s8" "lan_to_wan s8 = []"
    "cfg d8 = cfg d7"
    using drain_egress_ok [OF s7, of W P LAN_TO_WAN clk 3 d7] by auto
  define t' where "t' = \<lparr>wt_device = d8, wt_world = w7, wt_wan = wan7,
    next_nlp = (if next_nlp t \<le> clk 1 then clk 1 + 16000 else next_nlp t),
    next_ping = (if due then clk 1 + 1000000 else next_ping t), prev_gw = gw wan2\<rparr>"
  define sh' where "sh' = sh\<lparr>sh_fwd := s8,
    sh_dns_offer := (case dns0 wan2 of Some dns \<Rightarrow> be32_of dns | None \<Rightarrow> sh_dns_offer sh), sh_wan_pub := Some wan7\<rparr>"
  have run: "wan_iter W P nlp N ipoll clk (t, sh) = Some (t', sh')"
    using ip ap pd hv sec dr(1)
    unfolding d2_def d3_def d5_def t'_def sh'_def w7_def wan7_def d7_def s7_def due_def
    by (cases "gw wan2 \<noteq> None \<and> gw wan2 \<noteq> prev_gw t"; cases "next_nlp t \<le> clk 1"; cases "next_ping t \<le> clk 1")
      (simp_all add: wan_iter_def Let_def del: One_nat_def)
  have syn7: "synced (cf w7) wan7" and lease7: "lease_of wan7 = lease_of wan2"
    using syn5 sec_ok(1,2) lease5 by (simp_all add: w7_def wan7_def)
  have "cfg d8 = cfg d2" using dr(4) sec_ok(3) by (simp add: d7_def d5_def d3_def split: if_splits)
  then have "cfg d8 = (case addr wan2 of None \<Rightarrow> cfg (wt_device t)
      | Some c \<Rightarrow> (cfg (wt_device t))\<lparr>our_ip := cidr_address W c, subnet := c, gateway := gw wan2\<rparr>)"
    using d1 by (simp add: d2_def set_lease_def split: option.split)
  then have "wan_pass W cf (clk 1) (t, sh) (t', sh')"
    using dr(2,3) syn7 lease7
    by (cases "addr wan2") (simp_all add: wan_pass_def t'_def sh'_def lease_of_def due_def)
  with run show ?thesis by blast
qed

section \<open>One pass of the LAN task\<close>

text \<open>A readable socket hands out at least a byte, and only what has arrived.\<close>

definition sink_laws :: "'t tcp_socket \<Rightarrow> ('t \<Rightarrow> nat) \<Rightarrow> bool" where
  "sink_laws T arrived \<longleftrightarrow>
     (\<forall>s. tcp_can_recv T s \<longrightarrow> (\<exists>buf s'. tcp_recv T s length = (Some buf, s') \<and> buf \<noteq> []
        \<and> arrived s = length buf + arrived s'))
   \<and> (\<forall>s. \<not> tcp_can_recv T s \<longrightarrow> arrived s = 0)"

definition net_pass ::
  "('c, 'd, 'u, 't) net_task \<times> ('c, 'h) shared
     \<Rightarrow> ('c, 'd, 'u, 't) net_task \<times> ('c, 'h) shared \<Rightarrow> bool" where
  "net_pass = (\<lambda>(t, sh) (t', sh').
     fwd_inv (sh_fwd sh') \<and> wan_to_lan (sh_fwd sh') = [] \<and> leases_ok (nt_dhcp t')
     \<and> (\<forall>m ip. holds (nt_dhcp t) m ip \<longrightarrow> holds (nt_dhcp t') m ip)
     \<and> cfg (nt_device t') = cfg (nt_device t) \<and> sh_wan_pub sh' = sh_wan_pub sh \<and> sh_dns_offer sh' = sh_dns_offer sh)"

lemma serve_lan_sink_total:
  assumes "sink_laws T arrived"
  shows "\<exists>r. serve_lan_sink T s rx = Some r"
proof -
  obtain s' where "sink_loop T s rx = Some (s', rx + of_nat (arrived s))"
    using sink_loop_counts [of T arrived s rx] assms unfolding sink_laws_def by blast
  then show ?thesis by (simp add: serve_lan_sink_def)
qed

lemma net_iter_ok:
  assumes poll: "poll_ok ipoll cf" and sink: "sink_laws T arrived"
    and inv: "fwd_inv (sh_fwd sh)" and leases: "leases_ok (nt_dhcp t)"
  shows "\<exists>t' sh'. net_iter show_cidr W P codec U T ipoll clk (t, sh) = Some (t', sh') \<and> net_pass (t, sh) (t', sh')"
proof -
  obtain d1 s1 w1 where ip: "ipoll (ms (clk 0))
      (nt_device t, sh_fwd sh, nt_dhcp_socket t, nt_http_socket t, nt_sink_socket t) = Some (d1, s1, w1)"
    and d1: "cfg d1 = cfg (nt_device t)" and s1: "fwd_inv s1"
    using poll inv unfolding poll_ok_def by metis
  obtain u h k where w1: "w1 = (u, h, k)" using prod_cases3 by blast
  obtain srv u' where dp: "dhcp_poll codec U ((nt_dhcp t)\<lparr>lan_dns_offer := sh_dns_offer sh\<rparr>) u = (srv, u')" by force
  have srv: "leases_ok srv \<and> (\<forall>m ip. holds (nt_dhcp t) m ip \<longrightarrow> holds srv m ip)"
    using dhcp_poll_leases [OF _ dp] leases by simp
  obtain h' st tx where http: "serve_status_http T
      (status_body show_cidr (sh_stats sh) s1 (sh_wan_pub sh) srv (of_nat (clk 1 div 1000000))) h (nt_lan_http t)
      (lan_bulk_tx_bytes (sh_stats sh)) = (h', st, tx)" using prod_cases3 by blast
  obtain k' rx where sk: "serve_lan_sink T k (lan_sink_rx_bytes (sh_stats sh)) = Some (k', rx)"
    using serve_lan_sink_total [OF sink] by (metis surj_pair)
  obtain d2 s2 where dr: "drain_egress W P WAN_TO_LAN clk 2 d1 s1 = Some (d2, s2)" "fwd_inv s2" "wan_to_lan s2 = []"
    "cfg d2 = cfg d1"
    using drain_egress_ok [OF s1, of W P WAN_TO_LAN clk 2 d1] by auto
  have "net_iter show_cidr W P codec U T ipoll clk (t, sh) = Some (
      \<lparr>nt_device = d2, nt_dhcp_socket = u', nt_http_socket = h', nt_sink_socket = k', nt_dhcp = srv, nt_lan_http = st\<rparr>,
      sh\<lparr>sh_fwd := s2, sh_stats := (sh_stats sh)\<lparr>lan_bulk_tx_bytes := tx, lan_sink_rx_bytes := rx\<rparr>\<rparr>)"
    using ip w1 dp http sk dr(1) by (simp add: net_iter_def Let_def del: One_nat_def)
  moreover have "net_pass (t, sh) (
      \<lparr>nt_device = d2, nt_dhcp_socket = u', nt_http_socket = h', nt_sink_socket = k', nt_dhcp = srv, nt_lan_http = st\<rparr>,
      sh\<lparr>sh_fwd := s2, sh_stats := (sh_stats sh)\<lparr>lan_bulk_tx_bytes := tx, lan_sink_rx_bytes := rx\<rparr>\<rparr>)"
    using dr d1 srv by (simp add: net_pass_def)
  ultimately show ?thesis by blast
qed

section \<open>The router\<close>

definition LAN_IP :: ipv4 where "LAN_IP = Ipv4 192 168 4 1"
definition LAN_PREFIX :: nat where "LAN_PREFIX = 24"

text \<open>The two devices as the tasks build them; \<open>cidr\<close> is \<^verbatim>\<open>Ipv4Cidr::new\<close>.\<close>

definition wan_cfg :: "(ipv4 \<Rightarrow> nat \<Rightarrow> 'c) \<Rightarrow> 'c iface_cfg" where
  "wan_cfg cidr = \<lparr>iface = Wan, our_mac = OUR_MAC, our_ip = UNSPECIFIED, subnet = cidr UNSPECIFIED 0, gateway = None,
     accept_dst = Some (cidr LAN_IP LAN_PREFIX)\<rparr>"

definition lan_cfg :: "(ipv4 \<Rightarrow> nat \<Rightarrow> 'c) \<Rightarrow> mac \<Rightarrow> 'c iface_cfg" where
  "lan_cfg cidr m = \<lparr>iface = Lan, our_mac = m, our_ip = LAN_IP, subnet = cidr LAN_IP LAN_PREFIX, gateway = None,
     accept_dst = None\<rparr>"

definition wan_start :: "(ipv4 \<Rightarrow> nat \<Rightarrow> 'c) \<Rightarrow> 'd \<Rightarrow> 'w \<Rightarrow> nat \<Rightarrow> nat \<Rightarrow> ('c, 'd, 'h, 'w) wan_task" where
  "wan_start cidr d w now1 now2 = \<lparr>wt_device = fd_new_napt d (wan_cfg cidr) WAN_TO_LAN, wt_world = w, wt_wan = wan_new,
     next_nlp = now1, next_ping = now2, prev_gw = None\<rparr>"

definition net_start ::
  "(ipv4 \<Rightarrow> nat \<Rightarrow> 'c) \<Rightarrow> mac \<Rightarrow> 'd \<Rightarrow> 'u \<Rightarrow> 't \<Rightarrow> 't \<Rightarrow> ('c, 'd, 'u, 't) net_task" where
  "net_start cidr m d u h k = \<lparr>nt_device = fd_new d (lan_cfg cidr m) LAN_TO_WAN, nt_dhcp_socket = u, nt_http_socket = h,
     nt_sink_socket = k, nt_dhcp = dhcp_new, nt_lan_http = Idle\<rparr>"

text \<open>Everything that can happen: the tasks take turns in any order, each at any times of its clock.\<close>

inductive router_reach ::
  "(ipv4 \<Rightarrow> nat \<Rightarrow> 'c) \<Rightarrow> mac \<Rightarrow> ('w \<Rightarrow> 'c config)
     \<Rightarrow> ((nat \<Rightarrow> nat) \<Rightarrow> ('c, 'd, 'h, 'w) wan_task \<times> ('c, 'h) shared \<Rightarrow> (('c, 'd, 'h, 'w) wan_task \<times> ('c, 'h) shared) option)
     \<Rightarrow> ((nat \<Rightarrow> nat) \<Rightarrow> ('c, 'e, 'u, 't) net_task \<times> ('c, 'h) shared \<Rightarrow> (('c, 'e, 'u, 't) net_task \<times> ('c, 'h) shared) option)
     \<Rightarrow> ('c, 'd, 'h, 'w) wan_task \<Rightarrow> ('c, 'e, 'u, 't) net_task \<Rightarrow> ('c, 'h) shared \<Rightarrow> bool"
  for cidr m cf wan_go net_go where
  start: "cf w = ([], None, []) \<Longrightarrow> sh_fwd sh = fwd_new \<Longrightarrow>
    router_reach cidr m cf wan_go net_go (wan_start cidr d w now1 now2) (net_start cidr m e u h k) sh"
| wan: "router_reach cidr m cf wan_go net_go t n sh \<Longrightarrow> wan_go clk (t, sh) = Some (t', sh') \<Longrightarrow>
    router_reach cidr m cf wan_go net_go t' n sh'"
| lan: "router_reach cidr m cf wan_go net_go t n sh \<Longrightarrow> net_go clk (n, sh) = Some (n', sh') \<Longrightarrow>
    router_reach cidr m cf wan_go net_go t n' sh'"

definition router_inv ::
  "(ipv4 \<Rightarrow> nat \<Rightarrow> 'c) \<Rightarrow> mac \<Rightarrow> ('w \<Rightarrow> 'c config)
     \<Rightarrow> ('c, 'd, 'h, 'w) wan_task \<Rightarrow> ('c, 'e, 'u, 't) net_task \<Rightarrow> ('c, 'h) shared \<Rightarrow> bool" where
  "router_inv cidr m cf t n sh \<longleftrightarrow> fwd_inv (sh_fwd sh) \<and> synced (cf (wt_world t)) (wt_wan t) \<and> leases_ok (nt_dhcp n)
     \<and> cfg (nt_device n) = lan_cfg cidr m \<and> accept_dst (cfg (wt_device t)) = Some (cidr LAN_IP LAN_PREFIX)"

lemma router_inv_step:
  assumes laws: "wan_laws N cf queued" and wpoll: "poll_ok wpoll cf" and lpoll: "poll_ok lpoll lcf"
    and sink: "sink_laws T arrived"
    and reach: "router_reach cidr m cf (wan_iter W P nlp N wpoll) (net_iter show_cidr W Q codec U T lpoll) t n sh"
  shows "router_inv cidr m cf t n sh"
  using reach
proof induction
  case (start w sh d now1 now2 e u h k)
  then show ?case
    using synced_new dhcp_new_ok fwd_inv_new
    by (simp add: router_inv_def wan_start_def net_start_def fd_new_def fd_new_napt_def wan_cfg_def)
next
  case (wan t n sh clk t' sh')
  then have "fwd_inv (sh_fwd sh)" "synced (cf (wt_world t)) (wt_wan t)" by (simp_all add: router_inv_def)
  from wan_iter_ok [OF laws wpoll this, of W P nlp clk] wan.hyps(2)
  have "wan_pass W cf (clk 1) (t, sh) (t', sh')" by auto
  with wan.IH show ?case by (auto simp: router_inv_def wan_pass_def split: option.splits)
next
  case (lan t n sh clk n' sh')
  then have "fwd_inv (sh_fwd sh)" "leases_ok (nt_dhcp n)" by (simp_all add: router_inv_def)
  from net_iter_ok [OF lpoll sink this, of show_cidr W Q codec U clk] lan.hyps(2)
  have "net_pass (n, sh) (n', sh')" by auto
  with lan.IH show ?case by (auto simp: router_inv_def net_pass_def)
qed

section \<open>The wired side\<close>

lemma eth_phy_consume:
  assumes "EthTx.drains hw" and "length (tx_buf mac) = MAX_FRAME_BYTES" and "length g \<le> MAX_FRAME_BYTES"
  shows "\<exists>mac'. phy_consume (eth_phy hw) (Some (mac, st)) g = Some (mac', st)
    \<and> sent (mac_tx mac') = sent (mac_tx mac) @ on_wire (frame_bytes g)
    \<and> tx_consumed (mac_stats mac') = tx_consumed (mac_stats mac) + 1 \<and> length (tx_buf mac') = MAX_FRAME_BYTES"
  using tx_token_consume_ok [OF assms(1,2), of "\<lambda>_. g" "length g"] assms(2,3)
  by (auto simp: eth_phy_def Let_def min_def)

lemma eth_phy_transmit:
  "phy_transmit (eth_phy hw) (Some (mac, st)) = (True, Some (mac_transmit mac, st))"
  by (simp add: eth_phy_def)

lemma mac_transmit_keeps [simp]:
  "mac_tx (mac_transmit mac) = mac_tx mac" "tx_buf (mac_transmit mac) = tx_buf mac"
  "tx_consumed (mac_stats (mac_transmit mac)) = tx_consumed (mac_stats mac)"
  by (simp_all add: mac_transmit_def)

text \<open>A poll that receives until a frame is local or the device is empty, for the examples.\<close>

definition poll_once :: "'c wire \<Rightarrow> 'd phy \<Rightarrow> ('c, 'd, 'w) iface_poll" where
  "poll_once W P t = (\<lambda>(d, s, w). map_option (\<lambda>(_, d, s). (d, s, w)) (fd_receive W P d s t))"

lemma poll_once_ok:
  assumes "Forward.drains P m"
  shows "poll_ok (poll_once W P) cf"
  unfolding poll_ok_def
proof (intro allI impI)
  fix t d s w assume "fwd_inv s"
  from fd_receive_correct [OF assms this, of W d t] obtain r j s' where
    "fd_receive W P d s t = Some (r, d\<lparr>inner := j\<rparr>, s')" "fwd_inv s'" by blast
  then show "\<exists>d' s' w'. poll_once W P t (d, s, w) = Some (d', s', w')
     \<and> cfg d' = cfg d \<and> nat_on d' = nat_on d \<and> egress_ch d' = egress_ch d \<and> fwd_inv s' \<and> cf w' = cf w"
    by (intro exI [of _ "d\<lparr>inner := j\<rparr>"] exI [of _ s'] exI [of _ w]) (simp add: poll_once_def)
qed

section \<open>Properties\<close>

text \<open>When the lease is lost the interface and \<^verbatim>\<open>WanState\<close> are cleared, but the forwarder keeps the old address, subnet
  and gateway, and LAN clients are still offered the old resolver.\<close>

lemma lease_loss_keeps_forwarding:
  assumes "wan_pass W cf nowt (t, sh) (t', sh')" and "wt_wan t' = wan_new"
  shows "cfg (wt_device t') = cfg (wt_device t) \<and> sh_dns_offer sh' = sh_dns_offer sh"
  using assms by (simp add: wan_pass_def wan_new_def)



text \<open>The router with scripted leases, phys that are lists of frames and the sockets of the examples.\<close>

definition quiet_shared :: "(ipv4 \<times> nat, nat) shared" where
  "quiet_shared = \<lparr>sh_fwd = fwd_new, sh_dns_offer = 0x08080808, sh_wan_pub = None, sh_stats = quiet\<rparr>"


definition wired_dev :: "(ipv4 \<times> nat, (eth_mac \<times> rx_state) option) forwarding_device" where
  "wired_dev = fd_new_napt (Some (mac_new (tx_new 0), rx_boot)) (cfg (wan_dev [])) WAN_TO_LAN"


text \<open>C10. Frames keep their order between the tasks and between the cores: whatever interleaving of frames diverted and taken,
  or published and popped, those that come out and those that still wait are some of those that went in, each at most
  once, in that order, and every other one is counted as lost; reading as often as frames wait gets them all.\<close>

theorem frames_keep_order:
  assumes "length (chan (egress_ch d) s) \<le> CHAN_DEPTH" and "length (inbox st) \<le> INBOX_SLOTS"
    and "queue_run (divert d) (channel_get (egress_ch d)) ops s = (out, s')"
    and "queue_run publish pop_inbox rx_ops st = (rx_out, st')"
  shows "subseq (out @ chan (egress_ch d) s') (chan (egress_ch d) s @ offered ops)
    \<and> of_nat (length out + length (chan (egress_ch d) s')) + fwd_drop s'
        = of_nat (length (chan (egress_ch d) s) + length (offered ops)) + fwd_drop s
    \<and> subseq (rx_out @ inbox st') (inbox st @ offered rx_ops)
    \<and> of_nat (length rx_out + length (inbox st')) + inbox_dropped (stats st')
        = of_nat (length (inbox st) + length (offered rx_ops)) + inbox_dropped (stats st)
    \<and> (queue_run (divert d) (channel_get (egress_ch d)) (replicate (length (chan (egress_ch d) s')) Get) s' = (rest, s'') \<longrightarrow>
        rest = chan (egress_ch d) s')"
  using channel.run_order [OF assms(1,3)] channel.run_counts [OF assms(1,3)] inbox.run_order [OF assms(2,4)]
    inbox.run_counts [OF assms(2,4)] channel.drain_all [of d s' rest s''] by blast

theorem frames_keep_order_witness:
  "\<exists>out s' rx_out st'.
     queue_run (divert (wan_dev [])) (channel_get (egress_ch (wan_dev []))) [Put [1], Put [2], Put [3], Put [4], Put [5], Get] fwd_new = (out, s')
   \<and> queue_run publish pop_inbox [Put [1], Put [2], Get, Put [3], Put [4], Put [5], Put [6]] rx_boot = (rx_out, st')
   \<and> subseq (out @ chan (egress_ch (wan_dev [])) s') [[1], [2], [3], [4], [5]]
   \<and> of_nat (length out + length (chan (egress_ch (wan_dev [])) s')) + fwd_drop s' = 5
   \<and> subseq (rx_out @ inbox st') [[1], [2], [3], [4], [5], [6]]"
proof -
  let ?d = "wan_dev [] :: (_, _) forwarding_device"
  obtain out s' where o: "queue_run (divert ?d) (channel_get (egress_ch ?d)) [Put [1], Put [2], Put [3], Put [4], Put [5], Get] fwd_new = (out, s')"
    by fastforce
  obtain rx_out st' where r: "queue_run publish pop_inbox [Put [1], Put [2], Get, Put [3], Put [4], Put [5], Put [6]] rx_boot = (rx_out, st')"
    by fastforce
  have e: "chan (egress_ch ?d) fwd_new = []" "fwd_drop fwd_new = 0" by (cases "egress_ch ?d"; simp add: fwd_new_def)+
  have i: "inbox rx_boot = []" by (simp add: rx_boot_def)
  from frames_keep_order [OF _ _ o r] show ?thesis
    using o r by (simp add: e i)
qed

end
