(* ===== verification/Board.thy ===== *)
theory Board
  imports Prelude "HOL-Library.Sublist"
begin

text \<open>
  The firmware's own drivers of the chip: the time driver and the gSPI transport of \<^verbatim>\<open>src/wireless.rs\<close>, the bounded CDC
  write, the launch of core 1 (\<^verbatim>\<open>src/multicore_riscv.rs\<close>) and the USB reset interface (\<^verbatim>\<open>src/pico_reset.rs\<close>). Registers
  and FIFOs are parameters: the counter as the sequence of its values at successive register reads, a FIFO as a
  state with its accesses. embassy's timer queue and the USB stack are parameters too.
\<close>

section \<open>The time driver\<close>

text \<open>\<open>c k\<close> is the 64-bit counter at the \<open>k\<close>-th register read. One round reads the high word, the low word and the high
  word again; \<^const>\<open>None\<close> if the loop never ends. The result carries the number of reads.\<close>

definition timerawh :: "u64 \<Rightarrow> u32" where "timerawh v = ucast (drop_bit 32 v)"
definition timerawl :: "u64 \<Rightarrow> u32" where "timerawl v = ucast v"

partial_function (option) now_us :: "(nat \<Rightarrow> u64) \<Rightarrow> nat \<Rightarrow> (u64 \<times> nat) option" where
  "now_us c k =
     (let hi = timerawh (c k); lo = timerawl (c (k + 1)); hi2 = timerawh (c (k + 2))
      in if hi = hi2 then Some (push_bit 32 (ucast hi) OR ucast lo, k + 3) else now_us c (k + 3))"

record alarm =
  inte_alarm0 :: bool
  alarm0 :: u32

definition alarm_target :: "u64 \<Rightarrow> u64 \<Rightarrow> u64" where
  "alarm_target now at =
     (if at \<le> now then now + 2 else if at - now > 0xFFFFFFFF then now + 0xFFFFFFFF else at)"

definition arm_alarm :: "u64 \<Rightarrow> u64 \<Rightarrow> alarm \<Rightarrow> alarm" where
  "arm_alarm now at a =
     (if at = 0xFFFFFFFFFFFFFFFF then a\<lparr>inte_alarm0 := False\<rparr>
      else a\<lparr>inte_alarm0 := True, alarm0 := ucast (alarm_target now at)\<rparr>)"

text \<open>embassy's queue: scheduling tells whether the earliest deadline changed; asking for the next expiration
  wakes what is due.\<close>

record ('q, 'wk) timer_queue =
  q_schedule :: "u64 \<Rightarrow> 'wk \<Rightarrow> 'q \<Rightarrow> bool \<times> 'q"
  q_next_expiration :: "u64 \<Rightarrow> 'q \<Rightarrow> u64 \<times> 'q"

text \<open>\<open>now1\<close> and \<open>now2\<close> are the clock readings of the queue and of \<^verbatim>\<open>arm_alarm\<close>.\<close>

definition schedule_wake ::
  "('q, 'wk) timer_queue \<Rightarrow> u64 \<Rightarrow> u64 \<Rightarrow> u64 \<Rightarrow> 'wk \<Rightarrow> 'q \<times> alarm \<Rightarrow> 'q \<times> alarm" where
  "schedule_wake Q now1 now2 at wk = (\<lambda>(q, a).
     (case q_schedule Q at wk q of
        (False, q) \<Rightarrow> (q, a)
      | (True, q) \<Rightarrow> (case q_next_expiration Q now1 q of (next, q) \<Rightarrow> (q, arm_alarm now2 next a))))"

definition TIMER0_IRQ_0 :: "('q, 'wk) timer_queue \<Rightarrow> u64 \<Rightarrow> u64 \<Rightarrow> 'q \<times> alarm \<Rightarrow> 'q \<times> alarm" where
  "TIMER0_IRQ_0 Q now1 now2 = (\<lambda>(q, a).
     (case q_next_expiration Q now1 q of (next, q) \<Rightarrow> (q, arm_alarm now2 next a)))"

section \<open>gSPI transport\<close>

text \<open>The state machine's FIFOs: \<^verbatim>\<open>tx.write\<close> says whether there was room, \<^verbatim>\<open>rx.read\<close> takes a word if there is one. \<open>spi_cs\<close> drives
  the chip-select pin.\<close>

record 's spi_fifo =
  tx_write :: "u32 \<Rightarrow> 's \<Rightarrow> bool \<times> 's"
  rx_read :: "'s \<Rightarrow> u32 option \<times> 's"
  spi_cs :: "bool \<Rightarrow> 's \<Rightarrow> 's"

definition SPIN_LIMIT :: nat where "SPIN_LIMIT = 8000000"

partial_function (option) drain_rx :: "'s spi_fifo \<Rightarrow> 's \<Rightarrow> 's option" where
  "drain_rx F s = (case rx_read F s of (None, s) \<Rightarrow> Some s | (Some _, s) \<Rightarrow> drain_rx F s)"

primrec push_tries :: "'s spi_fifo \<Rightarrow> u32 \<Rightarrow> nat \<Rightarrow> 's \<Rightarrow> 's" where
  "push_tries F w 0 s = s"
| "push_tries F w (Suc n) s = (case tx_write F w s of (True, s) \<Rightarrow> s | (False, s) \<Rightarrow> push_tries F w n s)"

definition spi_push :: "'s spi_fifo \<Rightarrow> u32 \<Rightarrow> 's \<Rightarrow> 's" where
  "spi_push F w s = push_tries F w (SPIN_LIMIT + 1) s"

primrec pull_tries :: "'s spi_fifo \<Rightarrow> nat \<Rightarrow> 's \<Rightarrow> u32 \<times> 's" where
  "pull_tries F 0 s = (0, s)"
| "pull_tries F (Suc n) s = (case rx_read F s of (Some w, s) \<Rightarrow> (w, s) | (None, s) \<Rightarrow> pull_tries F n s)"

definition spi_pull :: "'s spi_fifo \<Rightarrow> 's \<Rightarrow> u32 \<times> 's" where
  "spi_pull F s = pull_tries F (SPIN_LIMIT + 1) s"

definition sat_mul32 :: "u32 \<Rightarrow> u32" where
  "sat_mul32 n = (if unat n * 32 < 2 ^ 32 then n * 32 else - 1)"

definition sat_dec :: "u32 \<Rightarrow> u32" where
  "sat_dec n = (if n = 0 then 0 else n - 1)"

definition sat_inc :: "u32 \<Rightarrow> u32" where
  "sat_inc n = (if n = - 1 then - 1 else n + 1)"

definition cmd_write :: "'s spi_fifo \<Rightarrow> u32 list \<Rightarrow> 's \<Rightarrow> (u32 \<times> 's) option" where
  "cmd_write F ws s = do {
     s \<leftarrow> drain_rx F s;
     let s = spi_cs F False s;
     let s = spi_push F (sat_dec (sat_mul32 (of_nat (length ws)))) s;
     let s = spi_push F 31 s;
     let s = fold (spi_push F) ws s;
     let (status, s) = spi_pull F s;
     Some (status, spi_cs F True s)
   }"

primrec pull_words :: "'s spi_fifo \<Rightarrow> nat \<Rightarrow> 's \<Rightarrow> u32 list \<times> 's" where
  "pull_words F 0 s = ([], s)"
| "pull_words F (Suc n) s =
     (let (w, s) = spi_pull F s; (ws, s) = pull_words F n s in (w # ws, s))"

text \<open>\<open>n\<close> is \<^verbatim>\<open>read.len()\<close>; the words read come back with the status.\<close>

definition cmd_read :: "'s spi_fifo \<Rightarrow> u32 \<Rightarrow> nat \<Rightarrow> 's \<Rightarrow> (u32 list \<times> u32 \<times> 's) option" where
  "cmd_read F cmd n s = do {
     s \<leftarrow> drain_rx F s;
     let s = spi_cs F False s;
     let s = spi_push F 31 s;
     let s = spi_push F (sat_dec (sat_mul32 (sat_inc (of_nat n)))) s;
     let s = spi_push F cmd s;
     let (ws, s) = pull_words F n s;
     let (status, s) = spi_pull F s;
     Some (ws, status, spi_cs F True s)
   }"

section \<open>Bounded CDC write\<close>

datatype usb_write = Wrote nat | WouldBlock | UsbFailed

record 's cdc =
  serial_write :: "bytes \<Rightarrow> 's \<Rightarrow> usb_write \<times> 's"
  usb_poll :: "'s \<Rightarrow> 's"

text \<open>At most 64 rounds; \<^verbatim>\<open>&rest[n..]\<close> panics past the end. The result is what was left unwritten.\<close>

primrec cdc_rounds :: "'s cdc \<Rightarrow> nat \<Rightarrow> bytes \<Rightarrow> 's \<Rightarrow> (bytes \<times> 's) option" where
  "cdc_rounds U 0 rest s = Some (rest, s)"
| "cdc_rounds U (Suc n) rest s =
     (if rest = [] then Some (rest, s)
      else case serial_write U rest s of
        (Wrote k, s) \<Rightarrow> if k \<le> length rest then cdc_rounds U n (drop k rest) (usb_poll U s) else None
      | (WouldBlock, s) \<Rightarrow> cdc_rounds U n rest (usb_poll U s)
      | (UsbFailed, s) \<Rightarrow> Some (rest, s))"

definition cdc_write_all :: "'s cdc \<Rightarrow> bytes \<Rightarrow> 's \<Rightarrow> (bytes \<times> 's) option" where
  "cdc_write_all U bs s = cdc_rounds U 64 bs s"

section \<open>Core 1 launch\<close>

record 's sio_fifo =
  fifo_read :: "'s \<Rightarrow> u32 option \<times> 's"
  fifo_drain :: "'s \<Rightarrow> 's"
  fifo_write_blocking :: "u32 \<Rightarrow> 's \<Rightarrow> 's"
  sev :: "'s \<Rightarrow> 's"

datatype launch_error = Unresponsive

definition READ_SPINS :: nat where "READ_SPINS = 2000000"
definition MAX_FAILS :: nat where "MAX_FAILS = 16"

primrec read_with_timeout :: "'s sio_fifo \<Rightarrow> nat \<Rightarrow> 's \<Rightarrow> u32 option \<times> 's" where
  "read_with_timeout F 0 s = (None, s)"
| "read_with_timeout F (Suc spins) s =
     (case fifo_read F s of (Some v, s) \<Rightarrow> (Some v, s) | (None, s) \<Rightarrow> read_with_timeout F spins s)"

definition cmd_seq :: "u32 \<Rightarrow> u32 \<Rightarrow> u32 \<Rightarrow> u32 list" where
  "cmd_seq mtvec sp trampoline = [0, 0, 1, mtvec, sp, trampoline]"

text \<open>One command of the handshake and its answer.\<close>

definition send_cmd :: "'s sio_fifo \<Rightarrow> u32 \<Rightarrow> 's \<Rightarrow> u32 option \<times> 's" where
  "send_cmd F cmd s =
     (let s = (if cmd = 0 then sev F (fifo_drain F s) else s)
      in read_with_timeout F READ_SPINS (fifo_write_blocking F cmd s))"

text \<open>\<open>sent\<close> collects the commands with their answers.\<close>

function handshake ::
  "'s sio_fifo \<Rightarrow> u32 list \<Rightarrow> nat \<Rightarrow> nat \<Rightarrow> (u32 \<times> u32 option) list \<Rightarrow> 's
     \<Rightarrow> (launch_error + unit) \<times> (u32 \<times> u32 option) list \<times> 's" where
  "handshake F cmds seq fails log s =
     (if length cmds \<le> seq \<or> MAX_FAILS < fails then (Inl Unresponsive, log, s)
      else
        (let cmd = cmds ! seq; (resp, s) = send_cmd F cmd s; log = log @ [(cmd, resp)]
         in if resp = Some cmd
            then (if length cmds \<le> seq + 1 then (Inr (), log, s) else handshake F cmds (seq + 1) fails log s)
            else (if MAX_FAILS < fails + 1 then (Inl Unresponsive, log, s) else handshake F cmds 0 (fails + 1) log s)))"
  by pat_completeness auto
termination
  by (relation "measures [\<lambda>(F, cmds, seq, fails, log, s). Suc MAX_FAILS - fails, \<lambda>(F, cmds, seq, fails, log, s). length cmds - seq]")
    auto

declare handshake.simps [simp del]

definition launch_core1 ::
  "'s sio_fifo \<Rightarrow> u32 \<Rightarrow> u32 \<Rightarrow> u32 \<Rightarrow> 's \<Rightarrow> (launch_error + unit) \<times> (u32 \<times> u32 option) list \<times> 's" where
  "launch_core1 F mtvec sp trampoline s = handshake F (cmd_seq mtvec sp trampoline) 0 0 [] s"

section \<open>USB reset interface\<close>

datatype request_type = Standard | Class | Vendor | Reserved
datatype recipient = Device | Interface | Endpoint | OtherRecipient | ReservedRecipient
datatype reboot_kind = BootSel bool bool | Normal

record control_request =
  rq_type :: request_type
  rq_recipient :: recipient
  rq_request :: u8
  rq_index :: u16

record pico_reset_interface =
  pr_iface :: u8
  pr_pending :: "reboot_kind option"

definition RESET_REQUEST_BOOTSEL :: u8 where "RESET_REQUEST_BOOTSEL = 1"
definition RESET_REQUEST_FLASH :: u8 where "RESET_REQUEST_FLASH = 2"

text \<open>The flag is whether the transfer is accepted.\<close>

definition control_out :: "control_request \<Rightarrow> pico_reset_interface \<Rightarrow> bool \<times> pico_reset_interface" where
  "control_out req p =
     (let req_type_ok = (rq_type req = Class \<or> rq_type req = Vendor)
      in if \<not> req_type_ok \<or> rq_recipient req \<noteq> Interface \<or> ucast (rq_index req) \<noteq> pr_iface p then (False, p)
         else if rq_request req = RESET_REQUEST_BOOTSEL then (True, p\<lparr>pr_pending := Some (BootSel False False)\<rparr>)
         else if rq_request req = RESET_REQUEST_FLASH then (True, p\<lparr>pr_pending := Some Normal\<rparr>)
         else (False, p))"

definition take_pending_reboot :: "pico_reset_interface \<Rightarrow> reboot_kind option \<times> pico_reset_interface" where
  "take_pending_reboot p = (pr_pending p, p\<lparr>pr_pending := None\<rparr>)"

section \<open>Reading the clock\<close>

lemma join_halves: "push_bit 32 (ucast (timerawh v)) OR ucast (timerawl v) = v"
  unfolding timerawh_def timerawl_def
  by (rule bit_word_eqI) (auto simp: bit_simps)

lemma join_hi: "timerawh u = timerawh v \<Longrightarrow> push_bit 32 (ucast (timerawh u)) OR ucast (timerawl v) = v"
  by (simp add: join_halves)

lemma unat_timerawh: "unat (timerawh v) = unat v div 2 ^ 32"
proof -
  have "unat v < 2 ^ 64" using unsigned_less [of v] by simp
  then have "unat v div 2 ^ 32 < 2 ^ 32" by (intro less_mult_imp_div_less) simp
  then show ?thesis
    by (simp add: timerawh_def unsigned_ucast_eq unat_drop_bit_eq drop_bit_eq_div take_bit_eq_mod unat_div)
qed

lemma timerawh_between:
  "unat u \<le> unat v \<Longrightarrow> unat v \<le> unat w \<Longrightarrow> timerawh u = timerawh w \<Longrightarrow> timerawh v = timerawh w"
  using div_le_mono [of "unat u" "unat v" "2 ^ 32"] div_le_mono [of "unat v" "unat w" "2 ^ 32"]
  unfolding word_unat_eq_iff unat_timerawh by linarith

lemma timerawh_step:
  "unat u \<le> unat v \<Longrightarrow> timerawh u \<noteq> timerawh v \<Longrightarrow> unat u div 2 ^ 32 < unat v div 2 ^ 32"
  using div_le_mono [of "unat u" "unat v" "2 ^ 32"] unfolding word_unat_eq_iff unat_timerawh by linarith

lemma now_us_hit:
  "timerawh (c k) = timerawh (c (k + 2)) \<Longrightarrow> timerawh (c k) = timerawh (c (k + 1)) \<Longrightarrow> now_us c k = Some (c (k + 1), k + 3)"
  by (simp add: now_us.simps [of c k] Let_def join_hi)

lemma now_us_miss: "timerawh (c k) \<noteq> timerawh (c (k + 2)) \<Longrightarrow> now_us c k = now_us c (k + 3)"
  by (simp add: now_us.simps [of c k] Let_def)

lemma two_rollovers: "a div 2 ^ 32 + 2 \<le> b div 2 ^ 32 \<Longrightarrow> a + 2 ^ 32 \<le> (b :: nat)"
  by simp

section \<open>The alarm\<close>

text \<open>The comparator looks at the low 32 bits of the counter.\<close>

definition alarm_hits :: "alarm \<Rightarrow> u64 \<Rightarrow> bool" where
  "alarm_hits a v \<longleftrightarrow> inte_alarm0 a \<and> timerawl v = alarm0 a"

lemma same_low_half: "timerawl u = timerawl v \<longleftrightarrow> unat u mod 2 ^ 32 = unat v mod 2 ^ 32"
  unfolding timerawl_def by (simp add: word_unat_eq_iff unsigned_ucast_eq take_bit_eq_mod)

lemma low_half_apart:
  assumes "unat u < unat v" and "unat v < unat u + 2 ^ 32"
  shows "timerawl u \<noteq> timerawl v"
proof
  assume "timerawl u = timerawl v"
  then have "unat u mod 2 ^ 32 = unat v mod 2 ^ 32" unfolding same_low_half .
  from mod_eq_nat1E [OF this [symmetric]] assms(1) obtain q where "unat v = unat u + 2 ^ 32 * q" by auto
  with assms show False by (cases q) simp_all
qed

lemma alarm_target_bounds:
  assumes "unat now + 2 ^ 32 < 2 ^ 64"
  shows "unat now < unat (alarm_target now at) \<and> unat (alarm_target now at) < unat now + 2 ^ 32
    \<and> (if unat at \<le> unat now then unat (alarm_target now at) = unat now + 2 else unat (alarm_target now at) \<le> unat at)"
proof -
  have add: "unat (now + k) = unat now + unat k" if "unat k < 2 ^ 32" for k
    by (rule unat_add_lem [THEN iffD1]) (use assms that in simp)
  have two: "unat (now + 2) = unat now + 2" and far: "unat (now + 0xFFFFFFFF) = unat now + 0xFFFFFFFF"
    using add [of 2] add [of "0xFFFFFFFF"] by simp_all
  consider "unat at \<le> unat now" | "unat now < unat at" "0xFFFFFFFF < unat at - unat now"
    | "unat now < unat at" "unat at - unat now \<le> 0xFFFFFFFF" by linarith
  then show ?thesis
  proof cases
    case 1
    then show ?thesis by (simp add: alarm_target_def word_le_nat_alt two)
  next
    case 2
    then have "unat (at - now) = unat at - unat now" by (intro unat_sub) (simp add: word_le_nat_alt)
    with 2 show ?thesis by (simp add: alarm_target_def word_le_nat_alt word_less_nat_alt far)
  next
    case 3
    then have "unat (at - now) = unat at - unat now" by (intro unat_sub) (simp add: word_le_nat_alt)
    with 3 show ?thesis by (simp add: alarm_target_def word_le_nat_alt word_less_nat_alt)
  qed
qed

text \<open>If the counter has already passed the target when ALARM0 is written, the comparator next matches 2^32 microseconds (71
  minutes) after the target: the wakeup is late by that much unless another schedule comes first. The guard of two
  microseconds protects deadlines already due, but not \<^verbatim>\<open>at = now + 1\<close>.\<close>

lemma late_alarm:
  assumes a: "a' = arm_alarm now at a" and at: "at \<noteq> 0xFFFFFFFFFFFFFFFF"
    and late: "unat (alarm_target now at) \<le> unat written"
    and v: "unat written < unat v" "unat v < unat (alarm_target now at) + 2 ^ 32"
  shows "\<not> alarm_hits a' v"
proof -
  have "timerawl (alarm_target now at) \<noteq> timerawl v" by (rule low_half_apart) (use late v in simp_all)
  with a at show ?thesis by (auto simp: alarm_hits_def arm_alarm_def timerawl_def)
qed

lemma late_alarm_example:
  "alarm_target 1000 1001 = 1001 \<and> (let a = arm_alarm 1000 1001 \<lparr>inte_alarm0 = False, alarm0 = 0\<rparr> in
     \<not> alarm_hits a 1002 \<and> \<not> alarm_hits a 4294968296 \<and> alarm_hits a 4294968297)"
  by code_simp

section \<open>Transactions\<close>

text \<open>What the transport relies on: reading takes a word or leaves the FIFO as it is, the state machine runs dry when no
  transaction is under way (\<open>stale\<close> bounds the words left), and a write is taken or refused, refused at most \<open>busy\<close> times. \<open>pushed\<close> and
  \<open>pulled\<close> record the words that went through, with the level of the chip select when pushed.\<close>

record 's spi_view =
  cs_of :: "'s \<Rightarrow> bool"
  pushed :: "'s \<Rightarrow> (bool \<times> u32) list"
  pulled :: "'s \<Rightarrow> u32 list"
  stale :: "'s \<Rightarrow> nat"
  busy :: "'s \<Rightarrow> nat"

definition spi_laws :: "'s spi_fifo \<Rightarrow> 's spi_view \<Rightarrow> bool" where
  "spi_laws F V \<longleftrightarrow> (\<forall>s.
     (\<forall>w. case tx_write F w s of (ok, s') \<Rightarrow> cs_of V s' = cs_of V s \<and> pulled V s' = pulled V s
        \<and> pushed V s' = pushed V s @ (if ok then [(cs_of V s, w)] else []))
     \<and> (case rx_read F s of (r, s') \<Rightarrow> cs_of V s' = cs_of V s \<and> pushed V s' = pushed V s
        \<and> pulled V s' = pulled V s @ (case r of None \<Rightarrow> [] | Some w \<Rightarrow> [w])
        \<and> (cs_of V s \<and> r \<noteq> None \<longrightarrow> stale V s' < stale V s))
     \<and> (\<forall>b. cs_of V (spi_cs F b s) = b \<and> pushed V (spi_cs F b s) = pushed V s \<and> pulled V (spi_cs F b s) = pulled V s))"

lemma spi_lawsD:
  assumes "spi_laws F V"
  shows "tx_write F w s = (ok, s') \<Longrightarrow> cs_of V s' = cs_of V s \<and> pulled V s' = pulled V s
      \<and> pushed V s' = pushed V s @ (if ok then [(cs_of V s, w)] else [])"
    and "rx_read F s = (r, s') \<Longrightarrow> cs_of V s' = cs_of V s \<and> pushed V s' = pushed V s
      \<and> pulled V s' = pulled V s @ (case r of None \<Rightarrow> [] | Some w \<Rightarrow> [w]) \<and> (cs_of V s \<and> r \<noteq> None \<longrightarrow> stale V s' < stale V s)"
    and "cs_of V (spi_cs F b s) = b" "pushed V (spi_cs F b s) = pushed V s" "pulled V (spi_cs F b s) = pulled V s"
proof -
  note l = assms [unfolded spi_laws_def, rule_format, of s]
  show "tx_write F w s = (ok, s') \<Longrightarrow> cs_of V s' = cs_of V s \<and> pulled V s' = pulled V s
      \<and> pushed V s' = pushed V s @ (if ok then [(cs_of V s, w)] else [])"
    using l [THEN conjunct1, THEN spec, of w] by simp
  show "rx_read F s = (r, s') \<Longrightarrow> cs_of V s' = cs_of V s \<and> pushed V s' = pushed V s
      \<and> pulled V s' = pulled V s @ (case r of None \<Rightarrow> [] | Some w \<Rightarrow> [w]) \<and> (cs_of V s \<and> r \<noteq> None \<longrightarrow> stale V s' < stale V s)"
    using l [THEN conjunct2, THEN conjunct1] by simp
qed (use assms [unfolded spi_laws_def] in auto)

lemma drain_rx_ok:
  assumes laws: "spi_laws F V" and "cs_of V s"
  shows "\<exists>s' ws. drain_rx F s = Some s' \<and> cs_of V s' \<and> pushed V s' = pushed V s \<and> pulled V s' = pulled V s @ ws"
  using assms(2)
proof (induction "stale V s" arbitrary: s rule: less_induct)
  case less
  obtain r s1 where e: "rx_read F s = (r, s1)" by force
  note l = spi_lawsD(2) [OF laws e]
  show ?case
  proof (cases r)
    case None
    with e l less.prems show ?thesis by (intro exI [of _ s1] exI [of _ "[]"]) (simp add: drain_rx.simps)
  next
    case (Some w)
    with l less.prems have "stale V s1 < stale V s" "cs_of V s1" by auto
    from less.hyps [OF this] obtain s' ws where
      "drain_rx F s1 = Some s'" "cs_of V s'" "pushed V s' = pushed V s1" "pulled V s' = pulled V s1 @ ws" by blast
    with e l Some show ?thesis by (intro exI [of _ s'] exI [of _ "w # ws"]) (simp add: drain_rx.simps [of F s])
  qed
qed

text \<open>One push: the word goes in, or all the tries are used up.\<close>

lemma push_tries_view:
  assumes laws: "spi_laws F V"
  shows "cs_of V (push_tries F w n s) = cs_of V s \<and> pulled V (push_tries F w n s) = pulled V s
    \<and> (pushed V (push_tries F w n s) = pushed V s @ [(cs_of V s, w)] \<or> pushed V (push_tries F w n s) = pushed V s)"
proof (induction n arbitrary: s)
  case (Suc n)
  obtain ok s1 where e: "tx_write F w s = (ok, s1)" by force
  with spi_lawsD(1) [OF laws e] Suc [of s1] show ?case by (cases ok) auto
qed simp

lemma spi_push_view:
  assumes "spi_laws F V"
  shows "cs_of V (spi_push F w s) = cs_of V s" "pulled V (spi_push F w s) = pulled V s"
    "pushed V (spi_push F w s) = pushed V s @ [(cs_of V s, w)] \<or> pushed V (spi_push F w s) = pushed V s"
  using push_tries_view [OF assms] unfolding spi_push_def by blast+

text \<open>A state machine that takes every word before the tries are used up.\<close>

definition takes_words :: "'s spi_fifo \<Rightarrow> 's spi_view \<Rightarrow> bool" where
  "takes_words F V \<longleftrightarrow> (\<forall>s w. busy V s \<le> SPIN_LIMIT
     \<and> (case tx_write F w s of (ok, s') \<Rightarrow> ok \<or> busy V s' < busy V s))"

lemma push_tries_taken:
  assumes laws: "spi_laws F V" and takes: "takes_words F V"
  shows "busy V s < n \<Longrightarrow> pushed V (push_tries F w n s) = pushed V s @ [(cs_of V s, w)]"
proof (induction n arbitrary: s)
  case (Suc n)
  obtain ok s1 where e: "tx_write F w s = (ok, s1)" by force
  then have "ok \<or> busy V s1 < busy V s" using takes unfolding takes_words_def by (metis case_prod_conv)
  with spi_lawsD(1) [OF laws e] Suc.IH [of s1] Suc.prems e show ?case by (cases ok) auto
qed simp

lemma spi_push_taken:
  assumes "spi_laws F V" and "takes_words F V"
  shows "pushed V (spi_push F w s) = pushed V s @ [(cs_of V s, w)]"
  using push_tries_taken [OF assms, of s "SPIN_LIMIT + 1" w] assms(2) unfolding spi_push_def takes_words_def
  by (simp add: less_Suc_eq_le)

lemma spi_pushes_view:
  assumes laws: "spi_laws F V"
  shows "cs_of V (fold (spi_push F) ws s) = cs_of V s \<and> pulled V (fold (spi_push F) ws s) = pulled V s
    \<and> (\<exists>vs. subseq vs ws \<and> pushed V (fold (spi_push F) ws s) = pushed V s @ map (Pair (cs_of V s)) vs)"
proof (induction ws arbitrary: s)
  case (Cons w ws)
  let ?s = "spi_push F w s"
  note v = spi_push_view [OF laws, of w s]
  from Cons [of ?s] v(1,2) obtain vs where vs: "subseq vs ws"
    "pushed V (fold (spi_push F) ws ?s) = pushed V ?s @ map (Pair (cs_of V s)) vs" by auto
  from v(3) have "\<exists>vs. subseq vs (w # ws) \<and> pushed V (fold (spi_push F) ws ?s) = pushed V s @ map (Pair (cs_of V s)) vs"
  proof
    assume "pushed V ?s = pushed V s @ [(cs_of V s, w)]"
    with vs show ?thesis by (intro exI [of _ "w # vs"]) simp
  next
    assume "pushed V ?s = pushed V s"
    with vs show ?thesis by (intro exI [of _ vs]) (simp add: list_emb_Cons)
  qed
  with Cons [of ?s] v(1,2) show ?case by simp
qed simp

lemma spi_pushes_taken:
  assumes "spi_laws F V" and "takes_words F V"
  shows "pushed V (fold (spi_push F) ws s) = pushed V s @ map (Pair (cs_of V s)) ws"
  by (induction ws arbitrary: s) (simp_all add: spi_push_taken [OF assms] spi_push_view(1) [OF assms(1)])

lemma pull_tries_view:
  assumes laws: "spi_laws F V"
  shows "pull_tries F n s = (w, s') \<Longrightarrow> cs_of V s' = cs_of V s \<and> pushed V s' = pushed V s
    \<and> (pulled V s' = pulled V s @ [w] \<or> w = 0 \<and> pulled V s' = pulled V s)"
proof (induction n arbitrary: s)
  case (Suc n)
  obtain r s1 where e: "rx_read F s = (r, s1)" by force
  with spi_lawsD(2) [OF laws e] Suc.IH [of s1] Suc.prems show ?case by (cases r) auto
qed simp

lemma spi_pull_view:
  assumes "spi_laws F V" and "spi_pull F s = (w, s')"
  shows "cs_of V s' = cs_of V s \<and> pushed V s' = pushed V s
    \<and> (pulled V s' = pulled V s @ [w] \<or> w = 0 \<and> pulled V s' = pulled V s)"
  using pull_tries_view [OF assms(1)] assms(2) unfolding spi_pull_def by blast

text \<open>\<open>got\<close> is what the FIFO answered; when no pull timed out it is what is returned.\<close>

lemma pull_words_view:
  assumes laws: "spi_laws F V"
  shows "pull_words F n s = (ws, s') \<Longrightarrow> cs_of V s' = cs_of V s \<and> pushed V s' = pushed V s \<and> length ws = n
    \<and> (\<exists>got. pulled V s' = pulled V s @ got \<and> subseq got ws)"
proof (induction n arbitrary: s ws s')
  case (Suc n)
  obtain w s1 where e: "spi_pull F s = (w, s1)" by force
  obtain vs s2 where e2: "pull_words F n s1 = (vs, s2)" by force
  have ws: "ws = w # vs" "s' = s2" using Suc.prems e e2 by (simp_all add: Let_def)
  from Suc.IH [OF e2] obtain got where got: "cs_of V s2 = cs_of V s1" "pushed V s2 = pushed V s1" "length vs = n"
    "pulled V s2 = pulled V s1 @ got" "subseq got vs" by blast
  from spi_pull_view [OF laws e] have "\<exists>got. pulled V s2 = pulled V s @ got \<and> subseq got (w # vs)"
  proof (elim conjE disjE)
    assume "pulled V s1 = pulled V s @ [w]"
    with got show ?thesis by (intro exI [of _ "w # got"]) simp
  next
    assume "pulled V s1 = pulled V s"
    with got show ?thesis by (intro exI [of _ got]) (simp add: list_emb_Cons)
  qed
  with ws got spi_pull_view [OF laws e] show ?case by simp
qed simp

text \<open>The header of a transaction counts bits, less one.\<close>

lemma bit_count:
  assumes "0 < n" and "n < 2 ^ 27"
  shows "unat (sat_dec (sat_mul32 (of_nat n))) = 32 * n - 1"
proof -
  have n: "unat (of_nat n :: u32) = n" using assms by (simp add: unsigned_of_nat take_bit_eq_mod)
  have "unat (of_nat n * 32 :: u32) = n * 32" using assms n by (subst unat_mult_lem [THEN iffD1]) simp_all
  then have m: "unat (sat_mul32 (of_nat n)) = n * 32" using assms n by (simp add: sat_mul32_def)
  then have "sat_mul32 (of_nat n) \<noteq> 0" using assms by auto
  then have "unat (sat_dec (sat_mul32 (of_nat n))) = unat (sat_mul32 (of_nat n)) - 1"
    by (simp add: sat_dec_def unat_minus_one)
  with m show ?thesis by simp
qed

lemma sat_inc_of_nat: "n < 2 ^ 27 \<Longrightarrow> sat_inc (of_nat n) = of_nat (Suc n)"
proof -
  assume "n < 2 ^ 27"
  then have "unat (of_nat n :: u32) = n" by (simp add: unsigned_of_nat take_bit_eq_mod)
  with \<open>n < 2 ^ 27\<close> have "(of_nat n :: u32) \<noteq> - 1"
    by (auto simp: word_unat_eq_iff unsigned_minus_1_eq_mask mask_eq_exp_minus_1)
  then show ?thesis by (simp add: sat_inc_def add.commute)
qed

definition write_words :: "u32 list \<Rightarrow> u32 list" where
  "write_words ws = sat_dec (sat_mul32 (of_nat (length ws))) # 31 # ws"

definition read_words :: "u32 \<Rightarrow> nat \<Rightarrow> u32 list" where
  "read_words cmd n = [31, sat_dec (sat_mul32 (sat_inc (of_nat n))), cmd]"

lemma cmd_write_steps:
  "cmd_write F ws s = Option.bind (drain_rx F s) (\<lambda>s.
     let (status, s) = spi_pull F (fold (spi_push F) (write_words ws) (spi_cs F False s)) in Some (status, spi_cs F True s))"
  by (simp add: cmd_write_def write_words_def Let_def)

lemma cmd_read_steps:
  "cmd_read F cmd n s = Option.bind (drain_rx F s) (\<lambda>s.
     let (ws, s) = pull_words F n (fold (spi_push F) (read_words cmd n) (spi_cs F False s)); (status, s) = spi_pull F s
     in Some (ws, status, spi_cs F True s))"
  by (simp add: cmd_read_def read_words_def Let_def)

text \<open>What one transaction did: the words pushed, all with the chip select low, and what came back.\<close>

definition spi_did :: "'s spi_fifo \<Rightarrow> 's spi_view \<Rightarrow> u32 list \<Rightarrow> u32 list \<Rightarrow> 's \<Rightarrow> 's \<Rightarrow> bool" where
  "spi_did F V out back s s' \<longleftrightarrow> cs_of V s'
     \<and> (\<exists>vs. pushed V s' = pushed V s @ map (Pair False) vs \<and> subseq vs out \<and> (takes_words F V \<longrightarrow> vs = out))
     \<and> (\<exists>old got. pulled V s' = pulled V s @ old @ got \<and> subseq got back \<and> (length got = length back \<longrightarrow> got = back))"

lemma spi_start:
  assumes laws: "spi_laws F V" and idle: "cs_of V s"
  shows "\<exists>s0 old vs. drain_rx F s = Some s0 \<and> (let s1 = fold (spi_push F) out (spi_cs F False s0) in
     \<not> cs_of V s1 \<and> pulled V s1 = pulled V s @ old \<and> pushed V s1 = pushed V s @ map (Pair False) vs
     \<and> subseq vs out \<and> (takes_words F V \<longrightarrow> vs = out))"
proof -
  obtain s0 old where d: "drain_rx F s = Some s0" "pushed V s0 = pushed V s" "pulled V s0 = pulled V s @ old"
    using drain_rx_ok [OF laws idle] by blast
  let ?s = "spi_cs F False s0"
  have c: "cs_of V ?s = False" "pushed V ?s = pushed V s" "pulled V ?s = pulled V s @ old"
    using spi_lawsD(3-5) [OF laws, of False s0] d by simp_all
  obtain vs where v: "subseq vs out" "pushed V (fold (spi_push F) out ?s) = pushed V s @ map (Pair False) vs"
    using spi_pushes_view [OF laws, of out ?s] c by auto
  have "vs = out" if "takes_words F V"
  proof -
    have "map (Pair False) vs = map (Pair False) out" using spi_pushes_taken [OF laws that, of out ?s] v(2) c by simp
    then show ?thesis by (simp add: inj_map_eq_map inj_on_def)
  qed
  with d v c spi_pushes_view [OF laws, of out ?s] show ?thesis
    by (intro exI [of _ s0] exI [of _ old] exI [of _ vs]) (simp add: Let_def)
qed

lemma subseq_whole: "subseq xs ys \<Longrightarrow> length xs = length ys \<longrightarrow> xs = ys"
  using subseq_same_length by blast

lemma cmd_write_did:
  assumes laws: "spi_laws F V" and idle: "cs_of V s"
  shows "\<exists>status s'. cmd_write F ws s = Some (status, s') \<and> spi_did F V (write_words ws) [status] s s'"
proof -
  obtain s0 old vs where d: "drain_rx F s = Some s0" and s1: "let s1 = fold (spi_push F) (write_words ws) (spi_cs F False s0) in
     \<not> cs_of V s1 \<and> pulled V s1 = pulled V s @ old \<and> pushed V s1 = pushed V s @ map (Pair False) vs
     \<and> subseq vs (write_words ws) \<and> (takes_words F V \<longrightarrow> vs = write_words ws)"
    using spi_start [OF laws idle, of "write_words ws"] by blast
  obtain st s2 where p: "spi_pull F (fold (spi_push F) (write_words ws) (spi_cs F False s0)) = (st, s2)" by force
  note end_cs = spi_lawsD(3-5) [OF laws, of True s2]
  from spi_pull_view [OF laws p] have
    "\<exists>got. pulled V s2 = pulled V (fold (spi_push F) (write_words ws) (spi_cs F False s0)) @ got \<and> subseq got [st]"
    by (elim conjE disjE) (auto intro: exI [of _ "[st]"] exI [of _ "[]"])
  then obtain got where got: "pulled V s2 = pulled V s @ old @ got" "subseq got [st]" using s1 by (auto simp: Let_def)
  have "spi_did F V (write_words ws) [st] s (spi_cs F True s2)"
    unfolding spi_did_def using s1 got spi_pull_view [OF laws p] end_cs subseq_whole [OF got(2)]
    by (auto simp: Let_def)
  with d p show ?thesis by (simp add: cmd_write_steps)
qed

lemma cmd_read_did:
  assumes laws: "spi_laws F V" and idle: "cs_of V s"
  shows "\<exists>ws status s'. cmd_read F cmd n s = Some (ws, status, s') \<and> length ws = n
    \<and> spi_did F V (read_words cmd n) (ws @ [status]) s s'"
proof -
  obtain s0 old vs where d: "drain_rx F s = Some s0" and s1: "let s1 = fold (spi_push F) (read_words cmd n) (spi_cs F False s0) in
     \<not> cs_of V s1 \<and> pulled V s1 = pulled V s @ old \<and> pushed V s1 = pushed V s @ map (Pair False) vs
     \<and> subseq vs (read_words cmd n) \<and> (takes_words F V \<longrightarrow> vs = read_words cmd n)"
    using spi_start [OF laws idle, of "read_words cmd n"] by blast
  obtain ws s2 where q: "pull_words F n (fold (spi_push F) (read_words cmd n) (spi_cs F False s0)) = (ws, s2)" by force
  obtain st s3 where p: "spi_pull F s2 = (st, s3)" by force
  note end_cs = spi_lawsD(3-5) [OF laws, of True s3]
  from pull_words_view [OF laws q] obtain g1 where g1: "length ws = n" "subseq g1 ws"
    "pulled V s2 = pulled V s @ old @ g1" "\<not> cs_of V s2" "pushed V s2 = pushed V s @ map (Pair False) vs"
    using s1 by (auto simp: Let_def)
  from spi_pull_view [OF laws p] have "\<exists>got. pulled V s3 = pulled V s @ old @ g1 @ got \<and> subseq got [st]"
    using g1(3) by (elim conjE disjE) (auto intro: exI [of _ "[st]"] exI [of _ "[]"])
  then obtain got where got: "pulled V s3 = pulled V s @ old @ g1 @ got" "subseq got [st]" by blast
  have sub: "subseq (g1 @ got) (ws @ [st])" by (rule list_emb_append_mono [OF g1(2) got(2)])
  have "\<exists>o1 g. pulled V (spi_cs F True s3) = pulled V s @ o1 @ g \<and> subseq g (ws @ [st])
      \<and> (length g = length (ws @ [st]) \<longrightarrow> g = ws @ [st])"
    using got(1) end_cs sub subseq_whole [OF sub] by (intro exI [of _ old] exI [of _ "g1 @ got"]) simp
  then have "spi_did F V (read_words cmd n) (ws @ [st]) s (spi_cs F True s3)"
    unfolding spi_did_def using s1 g1 spi_pull_view [OF laws p] end_cs by (auto simp: Let_def)
  with d p q g1(1) show ?thesis by (simp add: cmd_read_steps)
qed

section \<open>The handshake\<close>

text \<open>A failed attempt sends the commands in order from the first; all but the last were echoed.\<close>

definition failed_attempt :: "u32 list \<Rightarrow> (u32 \<times> u32 option) list \<Rightarrow> bool" where
  "failed_attempt cmds xs \<longleftrightarrow> (\<exists>k r. k < length cmds \<and> r \<noteq> Some (cmds ! k)
     \<and> xs = map (\<lambda>c. (c, Some c)) (take k cmds) @ [(cmds ! k, r)])"

definition launch_log :: "u32 list \<Rightarrow> nat \<Rightarrow> launch_error + unit \<Rightarrow> (u32 \<times> u32 option) list \<Rightarrow> bool" where
  "launch_log cmds budget result log \<longleftrightarrow> (\<exists>ats. (\<forall>a \<in> set ats. failed_attempt cmds a)
     \<and> (case result of
          Inr _ \<Rightarrow> log = concat ats @ map (\<lambda>c. (c, Some c)) cmds \<and> length ats \<le> budget
        | Inl _ \<Rightarrow> log = concat ats \<and> length ats = Suc budget))"

lemma launch_log_more:
  assumes "launch_log cmds b result log" and "failed_attempt cmds a"
  shows "launch_log cmds (Suc b) result (a @ log)"
proof -
  obtain ats where "\<forall>a \<in> set ats. failed_attempt cmds a" "case result of
          Inr _ \<Rightarrow> log = concat ats @ map (\<lambda>c. (c, Some c)) cmds \<and> length ats \<le> b
        | Inl _ \<Rightarrow> log = concat ats \<and> length ats = Suc b"
    using assms(1) unfolding launch_log_def by blast
  with assms(2) show ?thesis
    unfolding launch_log_def by (intro exI [of _ "a # ats"]) (auto split: sum.splits)
qed

lemma handshake_log:
  assumes "handshake F cmds seq fails log s = (result, log', s')" and "seq < length cmds" and "fails \<le> MAX_FAILS"
    and "log = base @ map (\<lambda>c. (c, Some c)) (take seq cmds)"
  shows "\<exists>more. log' = base @ more \<and> launch_log cmds (MAX_FAILS - fails) result more"
  using assms
proof (induction F cmds seq fails log s arbitrary: base rule: handshake.induct)
  case (1 F cmds seq fails log s)
  obtain resp s1 where e: "send_cmd F (cmds ! seq) s = (resp, s1)" by force
  let ?log = "log @ [(cmds ! seq, resp)]"
  note step = 1(3) [unfolded handshake.simps [of F cmds seq fails log s] e Let_def]
  have run: "\<not> (length cmds \<le> seq \<or> MAX_FAILS < fails)" using 1(4,5) by simp
  show ?case
  proof (cases "resp = Some (cmds ! seq)")
    case ok: True
    then have log: "?log = base @ map (\<lambda>c. (c, Some c)) (take (seq + 1) cmds)"
      using 1(4,6) by (simp add: take_Suc_conv_app_nth)
    show ?thesis
    proof (cases "length cmds \<le> seq + 1")
      case True
      with step run ok log 1(4) have "result = Inr ()" "log' = base @ map (\<lambda>c. (c, Some c)) cmds" by simp_all
      then show ?thesis unfolding launch_log_def by (intro exI [of _ "map (\<lambda>c. (c, Some c)) cmds"])
        (auto intro: exI [of _ "[]"])
    next
      case False
      with step run ok have "handshake F cmds (seq + 1) fails ?log s1 = (result, log', s')" by simp
      from 1(1) [OF run refl e [symmetric] _ refl ok False _ _ 1(5) log] this False e show ?thesis by simp
    qed
  next
    case bad: False
    let ?a = "map (\<lambda>c. (c, Some c)) (take seq cmds) @ [(cmds ! seq, resp)]"
    have a: "failed_attempt cmds ?a" and log: "?log = base @ ?a"
      using bad 1(4,6) by (auto simp: failed_attempt_def)
    show ?thesis
    proof (cases "MAX_FAILS < fails + 1")
      case True
      with step run bad log 1(5) have "result = Inl Unresponsive" "log' = base @ ?a" "MAX_FAILS - fails = 0" by simp_all
      with a show ?thesis unfolding launch_log_def by (intro exI [of _ ?a]) (auto intro: exI [of _ "[?a]"])
    next
      case False
      with step run bad have go: "handshake F cmds 0 (fails + 1) ?log s1 = (result, log', s')" by simp
      have "\<exists>more. log' = (base @ ?a) @ more \<and> launch_log cmds (MAX_FAILS - (fails + 1)) result more"
        by (rule 1(2) [OF run refl e [symmetric] _ refl bad False]) (use go False log run 1(4) e in auto)
      then obtain more where more: "log' = (base @ ?a) @ more" "launch_log cmds (MAX_FAILS - (fails + 1)) result more"
        by blast
      from launch_log_more [OF more(2) a] False have "launch_log cmds (MAX_FAILS - fails) result (?a @ more)"
        by (simp add: Suc_diff_le Suc_diff_Suc)
      with more(1) show ?thesis by (intro exI [of _ "?a @ more"]) simp
    qed
  qed
qed

section \<open>Writing to a host that may not read\<close>

text \<open>The serial port takes a prefix of what it is offered; \<open>taken\<close> is all it has taken.\<close>

definition cdc_laws :: "'s cdc \<Rightarrow> ('s \<Rightarrow> bytes) \<Rightarrow> bool" where
  "cdc_laws U taken \<longleftrightarrow> (\<forall>s bs.
     (case serial_write U bs s of
        (Wrote k, s') \<Rightarrow> k \<le> length bs \<and> taken s' = taken s @ take k bs
      | (_, s') \<Rightarrow> taken s' = taken s)
     \<and> taken (usb_poll U s) = taken s)"

lemma cdc_rounds_prefix:
  assumes laws: "cdc_laws U taken"
  shows "\<exists>k s'. cdc_rounds U n rest s = Some (drop k rest, s') \<and> k \<le> length rest \<and> taken s' = taken s @ take k rest"
proof (induction n arbitrary: rest s)
  case 0
  show ?case by (intro exI [of _ 0] exI [of _ s]) simp
next
  case (Suc n)
  obtain r s1 where e: "serial_write U rest s = (r, s1)" by force
  have l: "case r of Wrote k \<Rightarrow> k \<le> length rest \<and> taken s1 = taken s @ take k rest | _ \<Rightarrow> taken s1 = taken s"
    "taken (usb_poll U s1) = taken s1"
    using laws e unfolding cdc_laws_def by (metis (no_types, lifting) case_prod_conv)+
  show ?case
  proof (cases "rest = []")
    case True
    then show ?thesis by (intro exI [of _ 0] exI [of _ s]) simp
  next
    case False
    show ?thesis
    proof (cases r)
      case (Wrote k)
      with l have k: "k \<le> length rest" "taken (usb_poll U s1) = taken s @ take k rest" by simp_all
      obtain j s' where "cdc_rounds U n (drop k rest) (usb_poll U s1) = Some (drop j (drop k rest), s')"
        "j \<le> length (drop k rest)" "taken s' = taken (usb_poll U s1) @ take j (drop k rest)"
        using Suc.IH [of "drop k rest" "usb_poll U s1"] by blast
      moreover have "drop j (drop k rest) = drop (k + j) rest" by (simp add: add.commute)
      moreover have "take k rest @ take j (drop k rest) = take (k + j) rest" by (simp add: take_add)
      ultimately show ?thesis
        using e False k Wrote by (intro exI [of _ "k + j"] exI [of _ s']) (auto simp del: drop_drop take_drop)
    next
      case WouldBlock
      with e l False Suc.IH [of rest "usb_poll U s1"] show ?thesis by simp
    next
      case UsbFailed
      with e l False show ?thesis by (intro exI [of _ 0] exI [of _ s1]) simp
    qed
  qed
qed

text \<open>A host that reads: every write takes at least \<open>m\<close> bytes, or all.\<close>

lemma cdc_rounds_all:
  assumes laws: "cdc_laws U taken"
    and reads: "\<forall>s bs. \<exists>k s'. serial_write U bs s = (Wrote k, s') \<and> min m (length bs) \<le> k"
  shows "length rest \<le> m * n \<Longrightarrow> \<exists>s'. cdc_rounds U n rest s = Some ([], s')"
proof (induction n arbitrary: rest s)
  case (Suc n)
  obtain k s1 where e: "serial_write U rest s = (Wrote k, s1)" "min m (length rest) \<le> k" using reads by blast
  have k: "k \<le> length rest" using laws e(1) unfolding cdc_laws_def by (metis (no_types, lifting) case_prod_conv usb_write.simps(8))
  have "length (drop k rest) \<le> m * n" using Suc.prems e(2) by (simp add: min_def split: if_splits)
  from Suc.IH [OF this, of "usb_poll U s1"] e(1) k show ?case by simp
qed simp

section \<open>Properties\<close>

text \<open>C33. The clock: while the counter runs on without wrapping and six register reads take less than 2^32 microseconds, the
  loop ends within two rounds and answers a value the counter really had, at the read of its low word.\<close>

theorem clock_reads_counter:
  assumes mono: "\<forall>i. k \<le> i \<and> i < k + 5 \<longrightarrow> unat (c i) \<le> unat (c (Suc i))"
    and slow: "unat (c (k + 5)) < unat (c k) + 2 ^ 32"
  shows "now_us c k = Some (c (k + 1), k + 3) \<or> now_us c k = Some (c (k + 4), k + 6)"
proof -
  have m: "unat (c k) \<le> unat (c (k + 1))" "unat (c (k + 1)) \<le> unat (c (k + 2))" "unat (c (k + 2)) \<le> unat (c (k + 3))"
    "unat (c (k + 3)) \<le> unat (c (k + 4))" "unat (c (k + 4)) \<le> unat (c (k + 5))"
    using mono [rule_format, of k] mono [rule_format, of "k + 1"] mono [rule_format, of "k + 2"]
      mono [rule_format, of "k + 3"] mono [rule_format, of "k + 4"] by (simp_all add: numeral_eq_Suc)
  show ?thesis
  proof (cases "timerawh (c k) = timerawh (c (k + 2))")
    case True
    then have "timerawh (c k) = timerawh (c (k + 1))" using timerawh_between [OF m(1,2)] by simp
    with now_us_hit [of c k] True show ?thesis by simp
  next
    case False
    have up: "unat (c k) div 2 ^ 32 < unat (c (k + 2)) div 2 ^ 32"
      by (rule timerawh_step [OF _ False]) (use m in linarith)
    have same: "timerawh (c (k + 3)) = timerawh (c (k + 5))"
    proof (rule ccontr)
      assume "timerawh (c (k + 3)) \<noteq> timerawh (c (k + 5))"
      then have "unat (c (k + 3)) div 2 ^ 32 < unat (c (k + 5)) div 2 ^ 32"
        by (rule timerawh_step [rotated]) (use m in linarith)
      moreover have "unat (c (k + 2)) div 2 ^ 32 \<le> unat (c (k + 3)) div 2 ^ 32" by (rule div_le_mono [OF m(3)])
      ultimately have "unat (c k) div 2 ^ 32 + 2 \<le> unat (c (k + 5)) div 2 ^ 32" using up by linarith
      then show False using slow two_rollovers by (meson leD)
    qed
    then have "timerawh (c (k + 3)) = timerawh (c (k + 4))" using timerawh_between [OF m(4,5)] by simp
    with same have "now_us c (k + 3) = Some (c (k + 3 + 1), k + 3 + 3)"
      by (intro now_us_hit) (simp_all add: add.commute)
    moreover have "k + 3 + 1 = k + 4" "k + 3 + 3 = k + 6" by simp_all
    ultimately show ?thesis using now_us_miss [OF False] by (simp add: add.commute)
  qed
qed

text \<open>C34. The alarm, with ALARM0 written while the counter is before the target: it fires at the target and not before. The
  target lies after the clock reading by less than 2^32 microseconds, at most 2 after it for a deadline
  already due and never after the deadline otherwise, so a far deadline is approached by an intermediate fire.\<close>

theorem alarm_fires_on_time:
  assumes clock: "unat now + 2 ^ 32 < 2 ^ 64" and at: "at \<noteq> 0xFFFFFFFFFFFFFFFF"
    and early: "unat now \<le> unat written" "unat written < unat (alarm_target now at)"
  shows "let a' = arm_alarm now at a; t = alarm_target now at in
    alarm_hits a' t \<and> (\<forall>v. unat written < unat v \<longrightarrow> unat v < unat t \<longrightarrow> \<not> alarm_hits a' v)
    \<and> unat now < unat t \<and> unat t < unat now + 2 ^ 32
    \<and> (if unat at \<le> unat now then unat t = unat now + 2 else unat t \<le> unat at)"
proof -
  note b = alarm_target_bounds [OF clock, of at]
  have "\<not> alarm_hits (arm_alarm now at a) v"
    if "unat written < unat v" "unat v < unat (alarm_target now at)" for v
    using low_half_apart [of v "alarm_target now at"] that early b at
    by (auto simp: alarm_hits_def arm_alarm_def timerawl_def)
  moreover have "alarm_hits (arm_alarm now at a) (alarm_target now at)"
    using at by (simp add: alarm_hits_def arm_alarm_def timerawl_def)
  ultimately show ?thesis using b by (simp add: Let_def)
qed


text \<open>The launch of core 1: it ends, after at most 102 commands, whatever the FIFO does. The commands go out in attempts
  that start from the first command and stop at the first answer that is missing or wrong. Success means
  that the last attempt had every command echoed, so core 1 got the vector table, the stack and the entry in this
  order and nothing in between; failure means 17 failed attempts.\<close>

theorem launch_protocol:
  "case launch_core1 F mtvec sp trampoline s of (result, log, s') \<Rightarrow>
     launch_log (cmd_seq mtvec sp trampoline) 16 result log \<and> length log \<le> 102"
proof -
  let ?cmds = "cmd_seq mtvec sp trampoline"
  obtain result log s' where e: "launch_core1 F mtvec sp trampoline s = (result, log, s')" by (metis prod_cases3)
  have l: "launch_log ?cmds 16 result log"
    using handshake_log [of F ?cmds 0 0 "[]" s result log s' "[]"] e
    by (simp add: launch_core1_def cmd_seq_def MAX_FAILS_def)
  have six: "length a \<le> 6" if "failed_attempt ?cmds a" for a
    using that by (auto simp: failed_attempt_def cmd_seq_def)
  have all: "length (concat ats) \<le> 6 * length ats" if "\<forall>a \<in> set ats. failed_attempt ?cmds a" for ats
    using that by (induction ats) (auto dest: six)
  from l obtain ats where ats: "\<forall>a \<in> set ats. failed_attempt ?cmds a" "case result of
      Inr _ \<Rightarrow> log = concat ats @ map (\<lambda>c. (c, Some c)) ?cmds \<and> length ats \<le> 16
    | Inl _ \<Rightarrow> log = concat ats \<and> length ats = Suc 16" unfolding launch_log_def by blast
  have "length ?cmds = 6" by (simp add: cmd_seq_def)
  with ats(2) all [OF ats(1)] have "length log \<le> 102" by (cases result) simp_all
  with e l show ?thesis by simp
qed

text \<open>The CDC write: it never panics, ends after at most 64 rounds, and what it has written is a prefix of the bytes, in
  order and without repetition; a host that takes at least \<open>m\<close> bytes at a time gets everything up to \<open>64 * m\<close>
  bytes, so for the status lines of at most 192 bytes three bytes a time are enough.\<close>

theorem cdc_writes_prefix:
  assumes laws: "cdc_laws U taken"
  shows "\<exists>k s'. cdc_write_all U bs s = Some (drop k bs, s') \<and> k \<le> length bs \<and> taken s' = taken s @ take k bs
    \<and> (\<forall>m. (\<forall>s bs. \<exists>k s'. serial_write U bs s = (Wrote k, s') \<and> min m (length bs) \<le> k) \<and> length bs \<le> 64 * m
        \<longrightarrow> k = length bs)"
proof -
  obtain k s' where k: "cdc_write_all U bs s = Some (drop k bs, s')" "k \<le> length bs" "taken s' = taken s @ take k bs"
    using cdc_rounds_prefix [OF laws, of 64 bs s] unfolding cdc_write_all_def by blast
  have "k = length bs" if "\<forall>s bs. \<exists>k s'. serial_write U bs s = (Wrote k, s') \<and> min m (length bs) \<le> k" "length bs \<le> 64 * m" for m
    using cdc_rounds_all [OF laws that(1), of bs 64 s] that(2) k by (simp add: cdc_write_all_def mult.commute)
  with k show ?thesis by blast
qed

text \<open>The clock as the low word rolls over between the reads, so that the first round fails.\<close>

definition rollover :: "nat \<Rightarrow> u64" where
  "rollover i = [0x1FFFFFFFF, 0x1FFFFFFFF, 0x200000000, 0x200000000, 0x200000001, 0x200000001] ! i"

theorem clock_reads_counter_witness:
  "now_us rollover 0 = Some (rollover 1, 3) \<or> now_us rollover 0 = Some (rollover 4, 6)"
proof -
  have "\<forall>i. 0 \<le> i \<and> i < 0 + 5 \<longrightarrow> unat (rollover i) \<le> unat (rollover (Suc i))"
  proof (intro allI impI)
    fix i :: nat assume "0 \<le> i \<and> i < 0 + 5"
    then have "i = 0 \<or> i = 1 \<or> i = 2 \<or> i = 3 \<or> i = 4" by linarith
    then show "unat (rollover i) \<le> unat (rollover (Suc i))" by (elim disjE) (simp_all add: rollover_def)
  qed
  moreover have "unat (rollover (0 + 5)) < unat (rollover 0) + 2 ^ 32" by (simp add: rollover_def)
  ultimately show ?thesis using clock_reads_counter [of 0 rollover] by simp
qed

lemma rollover_second_round: "now_us rollover 0 = Some (0x200000001, 6)"
proof -
  have h: "timerawh (rollover 0) \<noteq> timerawh (rollover 2)" "timerawh (rollover 3) = timerawh (rollover 5)"
    "timerawh (rollover 3) = timerawh (rollover 4)" "rollover 4 = 0x200000001" by code_simp+
  from now_us_miss [of rollover 0] now_us_hit [of rollover 3] h show ?thesis
    by (simp only: add_0 One_nat_def) (simp add: eval_nat_numeral)
qed

theorem alarm_fires_on_time_witness:
  "alarm_hits (arm_alarm 5 0x300000000 \<lparr>inte_alarm0 = False, alarm0 = 0\<rparr>) 0x100000004"
proof -
  have "alarm_target 5 0x300000000 = 0x100000004" by code_simp
  then show ?thesis
    using alarm_fires_on_time [of 5 "0x300000000" "6 :: u64" "\<lparr>inte_alarm0 = False, alarm0 = 0\<rparr>"] by (simp add: Let_def)
qed

text \<open>A state machine that echoes every word.\<close>

definition echo_spi :: "(bool \<times> (bool \<times> u32) list \<times> u32 list \<times> u32 list) spi_fifo" where
  "echo_spi = \<lparr>tx_write = (\<lambda>w (cs, out, got, q). (True, cs, out @ [(cs, w)], got, q @ [w])),
     rx_read = (\<lambda>(cs, out, got, q). case q of [] \<Rightarrow> (None, cs, out, got, q) | w # q \<Rightarrow> (Some w, cs, out, got @ [w], q)),
     spi_cs = (\<lambda>b (cs, out, got, q). (b, out, got, q))\<rparr>"

definition echo_view :: "(bool \<times> (bool \<times> u32) list \<times> u32 list \<times> u32 list) spi_view" where
  "echo_view = \<lparr>cs_of = fst, pushed = fst \<circ> snd, pulled = fst \<circ> snd \<circ> snd, stale = length \<circ> snd \<circ> snd \<circ> snd,
     busy = (\<lambda>_. 0)\<rparr>"


text \<open>A port that takes 64 bytes at a time.\<close>

definition packet_port :: "bytes cdc" where
  "packet_port = \<lparr>serial_write = (\<lambda>bs out. (Wrote (min 64 (length bs)), out @ take (min 64 (length bs)) bs)), usb_poll = id\<rparr>"

definition long_line :: bytes where "long_line = replicate 160 7"

theorem cdc_writes_prefix_witness:
  "\<exists>s'. cdc_write_all packet_port long_line [] = Some ([], s') \<and> s' = long_line"
proof -
  have laws: "cdc_laws packet_port id" by (simp add: cdc_laws_def packet_port_def)
  have len: "length long_line = 160" by (simp add: long_line_def)
  have reads: "\<forall>s bs. \<exists>k s'. serial_write packet_port bs s = (Wrote k, s') \<and> min 64 (length bs) \<le> k"
    by (simp add: packet_port_def)
  obtain k s' where
    k: "cdc_write_all packet_port long_line [] = Some (drop k long_line, s')" "id s' = id [] @ take k long_line"
    and all: "\<forall>m. (\<forall>s bs. \<exists>k s'. serial_write packet_port bs s = (Wrote k, s') \<and> min m (length bs) \<le> k)
        \<and> length long_line \<le> 64 * m \<longrightarrow> k = length long_line"
    using cdc_writes_prefix [OF laws, of long_line "[]"] by (elim exE conjE) (erule that, assumption, assumption)
  have "k = length long_line" by (rule all [THEN spec, of 64, THEN mp]) (use reads len in simp)
  with k show ?thesis by simp
qed

end
