(* ===== verification/Selftest.thy ===== *)
theory Selftest
  imports Napt
begin

text \<open>
  The offline self-test of the NAPT code, \<^verbatim>\<open>tools/conntrack_selftest.rs\<close>: its generator of random numbers, its four tests
  and its own copies of the allocator and of the slot choice. A test counts its failures; a failed \<^verbatim>\<open>assert_eq!\<close>, an
  \<^verbatim>\<open>expect\<close> on \<^const>\<open>None\<close> and an index out of bounds are panics, \<^const>\<open>None\<close> here. The lines printed are left out, and the
  hash set is a set. The copies of the checksum and of the rewrites are in Checksum and Napt.
\<close>

section \<open>Random numbers\<close>

text \<open>\<^verbatim>\<open>Rng::next\<close> and \<^verbatim>\<open>Rng::u16\<close>; the state is the number.\<close>

definition rng_next :: "u64 \<Rightarrow> u32 \<times> u64" where
  "rng_next x =
     (let x = x XOR drop_bit 12 x; x = x XOR push_bit 25 x; x = x XOR drop_bit 27 x
      in (ucast (drop_bit 32 (x * 0x2545F4914F6CDD1D)), x))"

definition rng_u16 :: "u64 \<Rightarrow> u16 \<times> u64" where
  "rng_u16 r = (case rng_next r of (v, r) \<Rightarrow> (ucast v, r))"

primrec rng_bytes :: "nat \<Rightarrow> u64 \<Rightarrow> bytes \<times> u64" where
  "rng_bytes 0 r = ([], r)"
| "rng_bytes (Suc n) r = (case rng_next r of (v, r) \<Rightarrow> (case rng_bytes n r of (bs, r) \<Rightarrow> (ucast v # bs, r)))"

section \<open>The checksum test\<close>

text \<open>A round of each loop: whether it fails, the data it ends with, and the generator.\<close>

definition header_round :: "u64 \<Rightarrow> bool \<times> bytes \<times> u64" where
  "header_round r =
     (let (h, r) = rng_bytes 20 r;
          h = h[10 := 0, 11 := 0];
          base = checksum_full h;
          old_hi = be16 (h ! 12) (h ! 13); old_lo = be16 (h ! 14) (h ! 15);
          (new_hi, r) = rng_u16 r; (new_lo, r) = rng_u16 r;
          h = h[12 := hi8 new_hi, 13 := lo8 new_hi, 14 := hi8 new_lo, 15 := lo8 new_lo];
          full = checksum_full h;
          incr = checksum_incr base [(old_hi, new_hi), (old_lo, new_lo)]
      in (full \<noteq> incr, h, r))"

definition edge_round :: "u64 \<Rightarrow> bool \<times> bytes \<times> u64" where
  "edge_round r =
     (let (h, r) = rng_bytes 8 r;
          h = h[0 := 0, 1 := 0];
          base = checksum_full h;
          old = be16 (h ! 2) (h ! 3);
          (new, r) = rng_u16 r;
          h = h[2 := hi8 new, 3 := lo8 new];
          full = checksum_full h;
          incr = checksum_incr base [(old, new)]
      in (full \<noteq> incr, h, r))"

primrec count_fails :: "(u64 \<Rightarrow> bool \<times> bytes \<times> u64) \<Rightarrow> nat \<Rightarrow> nat \<Rightarrow> u64 \<Rightarrow> nat \<times> u64" where
  "count_fails f 0 fails r = (fails, r)"
| "count_fails f (Suc n) fails r =
     (case f r of (bad, _, r) \<Rightarrow> count_fails f n (if bad then fails + 1 else fails) r)"

definition known_header :: bytes where
  "known_header = [0x45, 0x00, 0x00, 0x73, 0x00, 0x00, 0x40, 0x00, 0x40, 0x11, 0x00, 0x00,
     0xc0, 0xa8, 0x00, 0x01, 0xc0, 0xa8, 0x00, 0xc7]"

definition seed :: u64 where "seed = 0x123456789abcdef0"

definition test_checksum :: nat where
  "test_checksum =
     (let c = checksum_full (known_header[10 := 0, 11 := 0]);
          fails = (if c \<noteq> 0xb861 then 1 else 0);
          (fails, r) = count_fails header_round 200000 fails seed
      in fst (count_fails edge_round 50000 fails r))"

section \<open>The allocator test\<close>

primrec st_alloc_loop :: "nat \<Rightarrow> u16 \<Rightarrow> (u16 \<Rightarrow> bool) \<Rightarrow> u16 option \<times> u16" where
  "st_alloc_loop 0 cur used_id = (None, cur)"
| "st_alloc_loop (Suc n) cur used_id =
     (let i = cur; cur = (if cur = NAT_HI then NAT_LO else cur + 1)
      in if \<not> used_id i then (Some i, cur) else st_alloc_loop n cur used_id)"

definition st_span :: nat where "st_span = unat (ucast (NAT_HI - NAT_LO) + 1 :: u32)"

definition st_alloc_id :: "u16 \<Rightarrow> (u16 \<Rightarrow> bool) \<Rightarrow> u16 option \<times> u16" where
  "st_alloc_id cur used_id = st_alloc_loop st_span cur used_id"

text \<open>The two loops of the test, over the set of ids in use, the cursor and the failures.\<close>

primrec alloc_rounds :: "nat \<Rightarrow> u16 set \<times> u16 \<times> nat \<Rightarrow> (u16 set \<times> u16 \<times> nat) option" where
  "alloc_rounds 0 s = Some s"
| "alloc_rounds (Suc n) s =
     (case s of (ids, cur, fails) \<Rightarrow>
        (case st_alloc_id cur (\<lambda>x. x \<in> ids) of
           (None, _) \<Rightarrow> None
         | (Some i, cur) \<Rightarrow>
             (let fails = (if i < NAT_LO \<or> NAT_HI < i then fails + 1 else fails);
                  fails = (if i \<in> ids then fails + 1 else fails)
              in alloc_rounds n (insert i ids, cur, fails))))"

primrec fill_rounds :: "nat \<Rightarrow> u16 set \<times> u16 \<Rightarrow> (u16 set \<times> u16) option" where
  "fill_rounds 0 s = Some s"
| "fill_rounds (Suc n) s =
     (case s of (ids, cur) \<Rightarrow>
        (case st_alloc_id cur (\<lambda>x. x \<in> ids) of
           (None, _) \<Rightarrow> None
         | (Some i, cur) \<Rightarrow> fill_rounds n (insert i ids, cur)))"

definition test_allocator :: "nat option" where
  "test_allocator = do {
     (_, _, fails) \<leftarrow> alloc_rounds 1000 ({}, NAT_LO, 0);
     (ids, cur) \<leftarrow> fill_rounds (unat (NAT_HI - NAT_LO) + 1) ({}, NAT_LO);
     let fails = (if fst (st_alloc_id cur (\<lambda>x. x \<in> ids)) \<noteq> None then fails + 1 else fails);
     Some (if NAT_LO \<le> 0x42 then fails + 1 else fails)
   }"

section \<open>The eviction test\<close>

record slot =
  s_used :: bool
  last_seen_ms :: u64
  s_timeout_ms :: u64

definition pick_evict :: "slot list \<Rightarrow> u64 \<Rightarrow> nat" where
  "pick_evict sl now_ms =
     (case position (\<lambda>s. \<not> s_used s) sl of
        Some i \<Rightarrow> i
      | None \<Rightarrow> (case position (\<lambda>s. s_timeout_ms s \<le> sat_sub now_ms (last_seen_ms s)) sl of
                   Some i \<Rightarrow> i
                 | None \<Rightarrow> foldl (\<lambda>best i. if last_seen_ms (sl ! i) < last_seen_ms (sl ! best) then i else best)
                      0 [1..<length sl]))"

definition live_slots :: "slot list" where
  "live_slots = map (\<lambda>t. \<lparr>s_used = True, last_seen_ms = t, s_timeout_ms = 1000\<rparr>) [100, 50, 200, 300]"

definition test_eviction :: nat where
  "test_eviction =
     (let sl = live_slots;
          fails = (if pick_evict sl 500 \<noteq> 1 then 1 else 0);
          fails = (if pick_evict sl 1300 \<noteq> 0 then fails + 1 else fails);
          sl = sl[2 := (sl ! 2)\<lparr>s_used := False\<rparr>]
      in if pick_evict sl 1300 \<noteq> 2 then fails + 1 else fails)"

section \<open>The rewrite test\<close>

definition set_l4_checksum :: "bytes \<Rightarrow> bytes option" where
  "set_l4_checksum frame = do {
     (l4, l4_len, pr, cko) \<leftarrow> l4_bounds frame;
     frame \<leftarrow> wr16 frame cko 0;
     seg \<leftarrow> (if l4 + l4_len \<le> length frame then Some (take l4_len (drop l4 frame)) else None);
     acc \<leftarrow> (if pr = 1 then Some (fold_be 0 seg)
       else do { acc0 \<leftarrow> pseudo_acc frame l4_len pr; Some (fold_be acc0 seg) });
     wr16 frame cko (NOT acc)
   }"

definition build :: "u8 \<Rightarrow> nat \<Rightarrow> bytes option" where
  "build pr payload = (
     let ihl = 20;
         l4hdr = (if pr = 6 then 20 else if pr = 17 then 8 else if pr = 1 then 8 else 0);
         ip_total = ihl + l4hdr + payload;
         f = (replicate (ETH + ip_total) 0)[12 := 0x08, 13 := 0x00, ETH := 0x45];
         l4 = ETH + ihl
     in do {
       f \<leftarrow> wr16 f (ETH + 2) (of_nat ip_total);
       f \<leftarrow> put_ip (f[ETH + 8 := 64, ETH + 9 := pr]) (ETH + 12) (Ipv4 192 168 4 10);
       f \<leftarrow> put_ip f (ETH + 16) (Ipv4 8 8 8 8);
       f \<leftarrow> (if pr = 6 then do {
            f \<leftarrow> wr16 f l4 51000;
            f \<leftarrow> wr16 f (l4 + 2) 443;
            Some (f[l4 + 12 := 0x50, l4 + 13 := 0x18]) }
          else if pr = 17 then do {
            f \<leftarrow> wr16 f l4 51000;
            f \<leftarrow> wr16 f (l4 + 2) 53;
            wr16 f (l4 + 4) (of_nat (l4hdr + payload)) }
          else if pr = 1 then do {
            f \<leftarrow> wr16 (f[l4 := 8]) (l4 + 4) 0x1234;
            wr16 f (l4 + 6) 1 }
          else Some f);
       Some (foldl (\<lambda>f i. f[ETH + ihl + l4hdr + i := of_nat i * 7 + 1]) f [0..<payload])
     })"

text \<open>The inbound half's reply to the LAN client, and one round of the loop over the protocols.\<close>

definition reply_frame :: "u8 \<Rightarrow> bytes option" where
  "reply_frame pr = do {
     r \<leftarrow> build pr 6;
     r \<leftarrow> put_ip r (ETH + 12) (Ipv4 8 8 8 8);
     r \<leftarrow> put_ip r (ETH + 16) (Ipv4 192 168 37 129);
     let l4 = ETH + 20;
     if pr = 6 \<or> pr = 17 then do {
       r \<leftarrow> wr16 r l4 443;
       wr16 r (l4 + 2) 50000 }
     else if pr = 1 then wr16 (r[l4 := 0]) (l4 + 4) 50000
     else Some r
   }"

definition rewrite_round :: "u8 \<Rightarrow> nat \<Rightarrow> nat option" where
  "rewrite_round pr fails = do {
     f \<leftarrow> build pr 6;
     f \<leftarrow> set_l4_checksum f;
     ok \<leftarrow> l4_valid f;
     let fails = (if \<not> ok then fails + 1 else fails);
     f \<leftarrow> rewrite_src f (Ipv4 192 168 37 129) 50000;
     ok \<leftarrow> l4_valid f;
     let fails = (if \<not> ok then fails + 1 else fails);
     let fails = (if take 4 (drop (ETH + 12) f) \<noteq> [192, 168, 37, 129] then fails + 1 else fails);
     r \<leftarrow> reply_frame pr;
     r \<leftarrow> set_l4_checksum r;
     r \<leftarrow> rewrite_dst r (Ipv4 192 168 4 10) 51000;
     ok \<leftarrow> l4_valid r;
     let fails = (if \<not> ok then fails + 1 else fails);
     Some (if take 4 (drop (ETH + 16) r) \<noteq> [192, 168, 4, 10] then fails + 1 else fails)
   }"

definition test_rewrite :: "nat option" where
  "test_rewrite = do {
     fails \<leftarrow> rewrite_round 6 0;
     fails \<leftarrow> rewrite_round 17 fails;
     rewrite_round 1 fails
   }"

text \<open>\<^verbatim>\<open>main\<close>: whether it gets through every assertion.\<close>

definition selftest_passes :: bool where
  "selftest_passes \<longleftrightarrow> test_checksum = 0 \<and> test_allocator = Some 0 \<and> test_eviction = 0 \<and> test_rewrite = Some 0"

section \<open>Evaluation\<close>

lemma test_eviction_passes: "test_eviction = 0"
  by code_simp

lemma test_rewrite_passes: "test_rewrite = Some 0"
  by code_simp

section \<open>Random rounds\<close>

text \<open>The data the rounds end with, and the generator after them.\<close>

primrec drawn :: "(u64 \<Rightarrow> bool \<times> bytes \<times> u64) \<Rightarrow> nat \<Rightarrow> u64 \<Rightarrow> bytes list" where
  "drawn f 0 r = []"
| "drawn f (Suc n) r = (case f r of (_, h, r) \<Rightarrow> h # drawn f n r)"

primrec rng_after :: "(u64 \<Rightarrow> bool \<times> bytes \<times> u64) \<Rightarrow> nat \<Rightarrow> u64 \<Rightarrow> u64" where
  "rng_after f 0 r = r"
| "rng_after f (Suc n) r = (case f r of (_, _, r) \<Rightarrow> rng_after f n r)"

definition all_zero :: "bytes \<Rightarrow> bool" where
  "all_zero h \<longleftrightarrow> (\<forall>b \<in> set h. b = 0)"

lemma count_fails_eq:
  assumes "\<And>r. fst (f r) \<longleftrightarrow> all_zero (fst (snd (f r)))"
  shows "count_fails f n fails r = (fails + length (filter all_zero (drawn f n r)), rng_after f n r)"
proof (induction n arbitrary: fails r)
  case (Suc n)
  obtain bad h r' where e: "f r = (bad, h, r')" by (metis prod_cases3)
  with assms [of r] have "bad \<longleftrightarrow> all_zero h" by simp
  with e Suc show ?case by simp
qed simp

lemma be16_0_iff: "be16 a b = 0 \<longleftrightarrow> a = 0 \<and> b = 0"
  using be16_eq_iff [of a b 0 0] by (simp add: be16_def)

lemma words_of_all_zero: "(\<forall>w \<in> set (words_of h). w = 0) \<longleftrightarrow> all_zero h"
  unfolding all_zero_def by (induction h rule: words_of.induct) (auto simp: be16_0_iff)

lemma length_rng_bytes: "rng_bytes n r = (bs, r') \<Longrightarrow> length bs = n"
  by (induction n arbitrary: r bs) (auto split: prod.splits)

text \<open>A round fails exactly when its data has become all zeros.\<close>

lemma incr_differs_iff:
  assumes len: "length olds = length news" "olds \<noteq> []"
    and data: "mset (words_of data) = R + mset olds" "mset (words_of data') = R + mset news"
  shows "checksum_full data' \<noteq> checksum_incr (checksum_full data) (zip olds news) \<longleftrightarrow> all_zero data'"
proof (cases "all_zero data'")
  case True
  then have "\<forall>w \<in> set (words_of data'). w = 0" by (simp add: words_of_all_zero)
  from checksum_incr_zero [OF len data this] True show ?thesis by simp
next
  case False
  then have "\<exists>w \<in> set (words_of data'). w \<noteq> 0" using words_of_all_zero by blast
  from checksum_incr_recomputes [OF len(1) data this] False show ?thesis by simp
qed

lemma words_of_20:
  assumes "length h = 20"
  obtains a b c d e f v w x y where "words_of h = [a, b, c, d, e, f, v, w, x, y]"
    "v = be16 (h ! 12) (h ! 13)" "w = be16 (h ! 14) (h ! 15)"
proof -
  have "length (words_of h) = 10" using assms by (simp add: length_words_of)
  then obtain a b c d e f v w x y where ws: "words_of h = [a, b, c, d, e, f, v, w, x, y]"
    by (auto simp: length_Suc_conv numeral_eq_Suc)
  have "words_of h ! 6 = be16 (h ! 12) (h ! 13)" "words_of h ! 7 = be16 (h ! 14) (h ! 15)"
    using words_of_nth [of 6 h] words_of_nth [of 7 h] assms by simp_all
  with ws that show thesis by simp
qed

lemma header_round_fails: "fst (header_round r) \<longleftrightarrow> all_zero (fst (snd (header_round r)))"
proof -
  obtain h0 r1 where g: "rng_bytes 20 r = (h0, r1)" by force
  obtain nh r2 where g1: "rng_u16 r1 = (nh, r2)" by force
  obtain nl r3 where g2: "rng_u16 r2 = (nl, r3)" by force
  let ?h = "h0[10 := 0, 11 := 0]" and ?h' = "h0[10 := 0, 11 := 0, 12 := hi8 nh, 13 := lo8 nh, 14 := hi8 nl, 15 := lo8 nl]"
  have len: "length ?h = 20" using length_rng_bytes [OF g] by simp
  obtain a b c d e f v w x y where ws: "words_of ?h = [a, b, c, d, e, f, v, w, x, y]"
    "v = be16 (?h ! 12) (?h ! 13)" "w = be16 (?h ! 14) (?h ! 15)" using words_of_20 [OF len] .
  have "words_of ?h' = (words_of ?h)[6 := nh, 7 := nl]"
    using words_of_update [of 6 ?h nh] words_of_update [of 7 "?h[12 := hi8 nh, 13 := lo8 nh]" nl] len by simp
  then have ws': "words_of ?h' = [a, b, c, d, e, f, nh, nl, x, y]" by (simp add: ws(1))
  have "checksum_full ?h' \<noteq> checksum_incr (checksum_full ?h) (zip [v, w] [nh, nl]) \<longleftrightarrow> all_zero ?h'"
    by (rule incr_differs_iff [where R = "mset [a, b, c, d, e, f, x, y]"]) (simp_all add: ws(1) ws')
  with ws(2,3) show ?thesis by (simp add: header_round_def g g1 g2 Let_def)
qed

lemma edge_round_fails: "fst (edge_round r) \<longleftrightarrow> all_zero (fst (snd (edge_round r)))"
proof -
  obtain h0 r1 where g: "rng_bytes 8 r = (h0, r1)" by force
  obtain new r2 where g1: "rng_u16 r1 = (new, r2)" by force
  let ?h = "h0[0 := 0, Suc 0 := 0]" and ?h' = "h0[0 := 0, Suc 0 := 0, 2 := hi8 new, 3 := lo8 new]"
  have len: "length ?h = 8" using length_rng_bytes [OF g] by simp
  then have "length (words_of ?h) = 4" by (simp add: length_words_of)
  then obtain a b c d where ws: "words_of ?h = [a, b, c, d]" by (auto simp: length_Suc_conv numeral_eq_Suc)
  have old: "b = be16 (?h ! 2) (?h ! 3)" using words_of_nth [of 1 ?h] len ws by (simp add: numeral_eq_Suc)
  have "words_of ?h' = (words_of ?h)[1 := new]"
    using words_of_update [of 1 ?h new] len by (simp add: numeral_eq_Suc)
  then have ws': "words_of ?h' = [a, new, c, d]" by (simp add: ws)
  have "checksum_full ?h' \<noteq> checksum_incr (checksum_full ?h) (zip [b] [new]) \<longleftrightarrow> all_zero ?h'"
    by (rule incr_differs_iff [where R = "mset [a, c, d]"]) (simp_all add: ws ws')
  with old show ?thesis by (simp add: edge_round_def g g1 Let_def)
qed

lemma known_header_checksum: "checksum_full (known_header[10 := 0, 11 := 0]) = 0xb861"
  by (simp add: known_header_def checksum_full_def add1c_def be16_def)

lemma test_checksum_eq:
  "test_checksum = length (filter all_zero (drawn header_round 200000 seed))
     + length (filter all_zero (drawn edge_round 50000 (rng_after header_round 200000 seed)))"
  by (simp add: test_checksum_def known_header_checksum count_fails_eq header_round_fails edge_round_fails Let_def)

section \<open>Allocation\<close>

lemma st_alloc_loop_None:
  "st_alloc_loop n c used_id = (None, c') \<Longrightarrow> k < n \<Longrightarrow> used_id ((next_id ^^ k) c)"
proof (induction n arbitrary: c k)
  case (Suc n)
  from Suc.prems have here: "used_id c" and "st_alloc_loop n (next_id c) used_id = (None, c')"
    by (auto simp: Let_def simp flip: next_id_def split: if_splits)
  with Suc.IH [of "next_id c"] Suc.prems(2) show ?case
    by (cases k) (auto simp: funpow_swap1)
qed simp

lemma st_alloc_loop_Some:
  "st_alloc_loop n c used_id = (Some i, c') \<Longrightarrow> NAT_LO \<le> c \<Longrightarrow> NAT_LO \<le> c' \<and> NAT_LO \<le> i \<and> \<not> used_id i"
proof (induction n arbitrary: c)
  case (Suc n)
  show ?case
  proof (cases "used_id c")
    case True
    with Suc.prems have "st_alloc_loop n (next_id c) used_id = (Some i, c')" by (simp add: Let_def flip: next_id_def)
    then show ?thesis using Suc.IH [of "next_id c"] NAT_LO_le_next_id [OF Suc.prems(2)] by simp
  next
    case False
    with Suc.prems NAT_LO_le_next_id [OF Suc.prems(2)] show ?thesis by (auto simp: Let_def simp flip: next_id_def)
  qed
qed simp

text \<open>The probing visits the whole range.\<close>

lemma next_id_reaches:
  assumes "NAT_LO \<le> c" and "NAT_LO \<le> i"
  shows "\<exists>k < 16384. (next_id ^^ k) c = i"
proof -
  define k where "k = (unat i + 16384 - unat c) mod 16384"
  have ci: "49152 \<le> unat c" "49152 \<le> unat i" "unat c < 65536" "unat i < 65536"
    using assms unat_u16_lt [of c] unat_u16_lt [of i] by (simp_all add: word_le_nat_alt)
  have "unat ((next_id ^^ k) c) = 49152 + (unat c - 49152 + k) mod 16384" using unat_next_id_iter [OF assms(1)] by blast
  also have "(unat c - 49152 + k) mod 16384 = (unat c - 49152 + (unat i + 16384 - unat c)) mod 16384"
    by (simp add: k_def mod_simps)
  also have "unat c - 49152 + (unat i + 16384 - unat c) = unat i - 49152 + 16384" using ci by linarith
  also have "(unat i - 49152 + 16384) mod 16384 = unat i - 49152" using ci by (subst mod_add_self2) simp
  finally have "unat ((next_id ^^ k) c) = unat i" using ci by simp
  then have "(next_id ^^ k) c = i" by (simp add: word_unat_eq_iff)
  moreover have "k < 16384" by (simp add: k_def)
  ultimately show ?thesis by blast
qed

lemma card_range: "card {i. NAT_LO \<le> i} = 16384"
proof -
  have "unat ` {i. NAT_LO \<le> i} = {49152..<65536}"
  proof (intro equalityI subsetI)
    fix x assume "x \<in> unat ` {i. NAT_LO \<le> i}"
    then show "x \<in> {49152..<65536}" using unat_u16_lt by (auto simp: word_le_nat_alt)
  next
    fix x :: nat assume "x \<in> {49152..<65536}"
    then have "x = unat (of_nat x :: u16)" "NAT_LO \<le> (of_nat x :: u16)"
      by (simp_all add: word_le_nat_alt unsigned_of_nat take_bit_eq_mod)
    then show "x \<in> unat ` {i. NAT_LO \<le> i}" by blast
  qed
  moreover have "card (unat ` {i. NAT_LO \<le> i}) = card {i. NAT_LO \<le> i}"
    by (rule card_image) (simp add: inj_on_def word_unat_eq_iff)
  ultimately show ?thesis by simp
qed

lemma st_span_eq: "st_span = 16384"
  by (simp add: st_span_def NAT_HI_def NAT_LO_def)

lemma st_alloc_ok:
  assumes c: "NAT_LO \<le> c" and ids: "ids \<subseteq> {i. NAT_LO \<le> i}" and room: "card ids < 16384"
  shows "\<exists>i c'. st_alloc_id c (\<lambda>x. x \<in> ids) = (Some i, c') \<and> NAT_LO \<le> i \<and> NAT_LO \<le> c' \<and> i \<notin> ids"
proof -
  obtain r c' where e: "st_alloc_id c (\<lambda>x. x \<in> ids) = (r, c')" by force
  show ?thesis
  proof (cases r)
    case None
    with e have "(next_id ^^ k) c \<in> ids" if "k < 16384" for k
      using st_alloc_loop_None [of st_span c "\<lambda>x. x \<in> ids" c' k] that by (simp add: st_alloc_id_def st_span_eq)
    then have "{i. NAT_LO \<le> i} \<subseteq> ids" using next_id_reaches [OF c] by fastforce
    then have "16384 \<le> card ids" using card_mono [of ids "{i. NAT_LO \<le> i}"] card_range by simp
    with room show ?thesis by simp
  next
    case (Some i)
    with e st_alloc_loop_Some [of st_span c "\<lambda>x. x \<in> ids" i c'] c show ?thesis by (simp add: st_alloc_id_def)
  qed
qed

lemma alloc_rounds_ok:
  "NAT_LO \<le> c \<Longrightarrow> ids \<subseteq> {i. NAT_LO \<le> i} \<Longrightarrow> card ids + n \<le> 16384 \<Longrightarrow>
     \<exists>ids' c'. alloc_rounds n (ids, c, fails) = Some (ids', c', fails)"
proof (induction n arbitrary: ids c)
  case (Suc n)
  then have "card ids < 16384" by simp
  from st_alloc_ok [OF Suc.prems(1,2) this] obtain i c' where
    i: "st_alloc_id c (\<lambda>x. x \<in> ids) = (Some i, c')" "NAT_LO \<le> i" "NAT_LO \<le> c'" "i \<notin> ids" by blast
  have "i \<le> NAT_HI" using unat_u16_lt [of i] by (simp add: NAT_HI_def word_le_nat_alt)
  with i Suc.IH [of c' "insert i ids"] Suc.prems show ?case by (auto simp: Let_def not_less)
qed simp

lemma fill_rounds_ok:
  "NAT_LO \<le> c \<Longrightarrow> ids \<subseteq> {i. NAT_LO \<le> i} \<Longrightarrow> card ids + n \<le> 16384 \<Longrightarrow>
     \<exists>ids' c'. fill_rounds n (ids, c) = Some (ids', c') \<and> NAT_LO \<le> c' \<and> ids' \<subseteq> {i. NAT_LO \<le> i}
       \<and> card ids' = card ids + n"
proof (induction n arbitrary: ids c)
  case (Suc n)
  then have "card ids < 16384" by simp
  from st_alloc_ok [OF Suc.prems(1,2) this] obtain i c' where
    i: "st_alloc_id c (\<lambda>x. x \<in> ids) = (Some i, c')" "NAT_LO \<le> i" "NAT_LO \<le> c'" "i \<notin> ids" by blast
  with Suc.IH [of c' "insert i ids"] Suc.prems show ?case by auto
qed simp

lemma test_allocator_passes: "test_allocator = Some 0"
proof -
  have lo: "NAT_LO \<le> NAT_LO" by simp
  obtain ids1 c1 where a: "alloc_rounds 1000 ({}, NAT_LO, 0) = Some (ids1, c1, 0)"
    using alloc_rounds_ok [OF lo, of "{}" 1000 0] by auto
  have n: "unat (NAT_HI - NAT_LO) + 1 = 16384" by (simp add: NAT_HI_def NAT_LO_def)
  obtain ids c where b: "fill_rounds 16384 ({}, NAT_LO) = Some (ids, c)" "NAT_LO \<le> c" "ids \<subseteq> {i. NAT_LO \<le> i}"
    "card ids = 16384"
    using fill_rounds_ok [OF lo, of "{}" 16384] by auto
  have "fst (st_alloc_id c (\<lambda>x. x \<in> ids)) = None"
  proof (rule ccontr)
    assume "fst (st_alloc_id c (\<lambda>x. x \<in> ids)) \<noteq> None"
    then obtain i c' where "st_alloc_id c (\<lambda>x. x \<in> ids) = (Some i, c')" by (metis not_None_eq prod.collapse)
    with st_alloc_loop_Some [of st_span c "\<lambda>x. x \<in> ids" i c'] b(2) have i: "NAT_LO \<le> i" "i \<notin> ids"
      by (simp_all add: st_alloc_id_def)
    have "ids = {i. NAT_LO \<le> i}" by (rule card_subset_eq) (use b(3,4) card_range in simp_all)
    with i show False by simp
  qed
  moreover have "\<not> NAT_LO \<le> 0x42" by (simp add: NAT_LO_def)
  ultimately show ?thesis by (simp add: test_allocator_def a b(1) n [simplified])
qed

section \<open>The copies\<close>

lemma alloc_loop_st:
  "alloc_loop n ct = (case st_alloc_loop n (cursor ct) (id_in_use ct) of (r, c) \<Rightarrow> (r, ct\<lparr>cursor := c\<rparr>))"
proof (induction n arbitrary: ct)
  case (Suc n)
  let ?ct = "ct\<lparr>cursor := next_id (cursor ct)\<rparr>"
  have use: "id_in_use ?ct = id_in_use ct" by (simp add: id_in_use_def fun_eq_iff)
  show ?case using Suc [of ?ct] by (simp add: Let_def use flip: next_id_def split: prod.split)
qed simp

definition slot_of :: "entry \<Rightarrow> slot" where
  "slot_of e = \<lparr>s_used = used e, last_seen_ms = last_seen e, s_timeout_ms = timeout_ms e\<rparr>"

lemma position_map: "position p (map f xs) = position (p \<circ> f) xs"
  by (induction xs) simp_all

lemma lru_map:
  assumes "\<forall>i \<in> set js. i < length sl" and "b < length sl"
  shows "foldl (\<lambda>best i. if last_seen_ms (map slot_of sl ! i) < last_seen_ms (map slot_of sl ! best) then i else best) b js
       = foldl (\<lambda>best i. if last_seen (sl ! i) < last_seen (sl ! best) then i else best) b js"
  using assms by (induction js arbitrary: b) (simp_all add: slot_of_def)

lemma pick_slot_st:
  assumes "length (slots ct) = CT_CAP"
  shows "pick_slot ct now = pick_evict (map slot_of (slots ct)) now"
proof -
  have "0 < length (slots ct)" using assms by (simp add: CT_CAP_def)
  from lru_map [OF _ this, of "[1..<length (slots ct)]"] assms show ?thesis
    by (simp add: pick_slot_def pick_evict_def position_map comp_def slot_of_def [of x for x] expired_def [abs_def]
        lru_slot_def split: option.split)
qed

section \<open>Properties\<close>

lemma selftest_copies_agree:
  assumes "length (slots ct) = CT_CAP" and "parse_l4 f = Some q" and "l4_bounds f \<noteq> None"
  shows "alloc_id ct = (case st_alloc_id (cursor ct) (id_in_use ct) of (r, c) \<Rightarrow> (r, ct\<lparr>cursor := c\<rparr>))
    \<and> pick_slot ct now = pick_evict (map slot_of (slots ct)) now
    \<and> rewrite_src f ip v = napt_rewrite_src f q ip v \<and> rewrite_dst f ip v = napt_rewrite_dst f q ip v"
  using pick_slot_st [OF assms(1)] selftest_rewrites_agree [OF assms(2,3)] alloc_loop_st [of st_span ct]
  by (simp add: alloc_id_def st_alloc_id_def st_span_def Let_def)

text \<open>C40. The self-test: the allocator, eviction and rewrite tests always pass; the checksum test counts exactly the random
  rounds whose data has become all zeros, so with its seed it passes if and only if no round draws such data. And what it tests is the firmware: its allocator over the ids in use, its slot
  choice over the fields of the slots, and its rewrites on every frame the parser accepts and that has a sane total length.\<close>

theorem selftest_sound:
  "test_allocator = Some 0 \<and> test_eviction = 0 \<and> test_rewrite = Some 0
   \<and> test_checksum = length (filter all_zero (drawn header_round 200000 seed))
       + length (filter all_zero (drawn edge_round 50000 (rng_after header_round 200000 seed)))
   \<and> (selftest_passes \<longleftrightarrow> \<not> list_ex all_zero (drawn header_round 200000 seed
       @ drawn edge_round 50000 (rng_after header_round 200000 seed)))
   \<and> (length (slots ct) = CT_CAP \<and> parse_l4 f = Some q \<and> l4_bounds f \<noteq> None \<longrightarrow>
        alloc_id ct = (case st_alloc_id (cursor ct) (id_in_use ct) of (r, c) \<Rightarrow> (r, ct\<lparr>cursor := c\<rparr>))
        \<and> pick_slot ct now = pick_evict (map slot_of (slots ct)) now
        \<and> rewrite_src f ip v = napt_rewrite_src f q ip v \<and> rewrite_dst f ip v = napt_rewrite_dst f q ip v)"
  using selftest_copies_agree [of ct f q now ip v] by (simp add: selftest_passes_def test_allocator_passes test_eviction_passes test_rewrite_passes test_checksum_eq
      list_ex_iff filter_empty_conv ball_Un)

theorem selftest_sound_witness:
  "pick_slot ct_new 5 = pick_evict (map slot_of (slots ct_new)) 5
   \<and> rewrite_src udp_frame (Ipv4 1 2 3 4) 5 = napt_rewrite_src udp_frame (the (parse_l4 udp_frame)) (Ipv4 1 2 3 4) 5"
proof -
  have "length (slots ct_new) = CT_CAP" by (simp add: ct_new_def)
  moreover have "parse_l4 udp_frame = Some (the (parse_l4 udp_frame))" by code_simp
  moreover have "l4_bounds udp_frame \<noteq> None" by code_simp
  ultimately show ?thesis using selftest_sound [of ct_new udp_frame "the (parse_l4 udp_frame)" 5] by blast
qed

end
