(* ===== verification/Nic.thy ===== *)
theory Nic
  imports Services Board
begin

text \<open>
  The wired build: \<^verbatim>\<open>main_10bt\<close> of \<^verbatim>\<open>src/main.rs\<close>, one pass of its loop at a time, over the Ethernet device, the socket
  services and the WAN client; its features are flags of the model, and the \<^verbatim>\<open>diag\<close> lines are those of Status. Also the
  loop of core 1. smoltcp's poll, its sockets, the USB stack, the LED and the timer are parameters: \<open>now\<close> is the
  counter's value in a pass. A pass hands its lines to \<^verbatim>\<open>serial.write\<close>, in order.
\<close>

section \<open>State\<close>

record features =
  wan_dhcp :: bool
  http_bulk_test :: bool
  fd_bench :: bool
  diag :: bool

text \<open>What \<^verbatim>\<open>iface.poll\<close> works on: the device, the receive statics, the interface with the WAN sockets, and the three
  sockets of the services.\<close>

type_synonym ('w, 'u, 't) nic_net = "eth_mac \<times> rx_state \<times> 'w \<times> 'u \<times> 't \<times> 't"

record ('c, 'h, 'w, 'u, 'e, 't) nic_env =
  env_line :: line
  env_poll :: "int \<Rightarrow> ('w, 'u, 't) nic_net \<Rightarrow> ('w, 'u, 't) nic_net option"
  env_udp :: "('u, 'e) echo_socket"
  env_tcp :: "'t tcp_socket"
  env_wan :: "('c, 'h, 'w) wan_net"
  env_usb :: "pico_reset_interface \<Rightarrow> pico_reset_interface"
  env_show :: "'c \<Rightarrow> arg list"

record ('c, 'h, 'w, 'u, 't) nic =
  nic_mac :: eth_mac
  nic_rx :: rx_state
  nic_world :: 'w
  nic_udp :: 'u
  nic_tcp :: 't
  nic_sink :: 't
  nic_wan :: "('c, 'h) wan_state"
  reset_iface :: pico_reset_interface
  bulk_state :: http_bulk_state
  nlp_at :: u64
  udp_at :: u64
  ping_at :: u64
  log_at :: u64
  nlps_sent :: u32
  udp_sent :: u32
  log_tick :: u32
  led_state :: bool
  fd_sink_rx :: u32
  fd_prev_sink :: u32
  fd_last_us :: u64
  fd_loop_iters :: u32
  core1_launch_ok :: bool

definition endpoint :: udp_endpoint where
  "endpoint = \<lparr>src_mac = OUR_MAC, dst_mac = replicate 6 0xFF, ep_src_ip = [192, 168, 37, 24],
     ep_dst_ip = [192, 168, 37, 19], ep_src_port = 1234, ep_dst_port = 1234\<rparr>"

definition nic_start ::
  "eth_mac \<Rightarrow> rx_state \<Rightarrow> 'w \<Rightarrow> 'u \<Rightarrow> 't \<Rightarrow> 't \<Rightarrow> u8 \<Rightarrow> bool \<Rightarrow> u64 \<Rightarrow> ('c, 'h, 'w, 'u, 't) nic" where
  "nic_start mac st w u t k iface_nr ok now0 = \<lparr>nic_mac = mac, nic_rx = st, nic_world = w, nic_udp = u, nic_tcp = t,
     nic_sink = k, nic_wan = wan_new, reset_iface = \<lparr>pr_iface = iface_nr, pr_pending = None\<rparr>, bulk_state = BulkIdle,
     nlp_at = now0, udp_at = now0 + 200000, ping_at = now0 + 1000000, log_at = now0 + 1000000,
     nlps_sent = 0, udp_sent = 0, log_tick = 0, led_state = False, fd_sink_rx = 0, fd_prev_sink = 0,
     fd_last_us = now0, fd_loop_iters = 0, core1_launch_ok = ok\<rparr>"

section \<open>A pass\<close>

definition nic_poll ::
  "('c, 'h, 'w, 'u, 'e, 't) nic_env \<Rightarrow> u64 \<Rightarrow> ('c, 'h, 'w, 'u, 't) nic \<Rightarrow> ('c, 'h, 'w, 'u, 't) nic option" where
  "nic_poll E now s = do {
     (mac, st, w, u, t, k) \<leftarrow> env_poll E (sint now)
        (nic_mac s, nic_rx s, nic_world s, nic_udp s, nic_tcp s, nic_sink s);
     Some (s\<lparr>nic_mac := mac, nic_rx := st, nic_world := w, nic_udp := u, nic_tcp := t, nic_sink := k\<rparr>)
   }"

definition nic_lease ::
  "features \<Rightarrow> ('c, 'h, 'w, 'u, 'e, 't) nic_env \<Rightarrow> ('c, 'h, 'w, 'u, 't) nic \<Rightarrow> ('c, 'h, 'w, 'u, 't) nic option" where
  "nic_lease F E s =
     (if wan_dhcp F then
        (let (w, wan) = dhcp_apply (env_wan E) (nic_world s) (nic_wan s)
         in do {
           (w, wan) \<leftarrow> ping_drain (env_wan E) w wan;
           let (w, wan) = dns_harvest (env_wan E) w wan;
           Some (s\<lparr>nic_world := w, nic_wan := wan\<rparr>)
         })
      else Some s)"

definition nic_services ::
  "features \<Rightarrow> ('c, 'h, 'w, 'u, 'e, 't) nic_env \<Rightarrow> ('c, 'h, 'w, 'u, 't) nic \<Rightarrow> ('c, 'h, 'w, 'u, 't) nic" where
  "nic_services F E s =
     (let u = serve_udp_echo (env_udp E) (nic_udp s);
          (t, b) = (if http_bulk_test F then serve_http_bulk (env_tcp E) (nic_tcp s) (bulk_state s)
                    else (serve_http (env_tcp E) (nic_tcp s) (log_tick s) (nlps_sent s) (udp_sent s), bulk_state s));
          (k, rx) = (if fd_bench F then serve_fd_sink (env_tcp E) (nic_sink s) (fd_sink_rx s)
                     else (nic_sink s, fd_sink_rx s))
      in s\<lparr>nic_udp := u, nic_tcp := t, bulk_state := b, nic_sink := k, fd_sink_rx := rx\<rparr>)"

definition nic_nlp ::
  "('c, 'h, 'w, 'u, 'e, 't) nic_env \<Rightarrow> u64 \<Rightarrow> ('c, 'h, 'w, 'u, 't) nic \<Rightarrow> ('c, 'h, 'w, 'u, 't) nic option" where
  "nic_nlp E now s =
     (if nlp_at s \<le> now then do {
        mac \<leftarrow> mac_send_nlp (env_line E) (nic_mac s);
        Some (s\<lparr>nlp_at := nlp_at s + 16000, nic_mac := mac, nlps_sent := nlps_sent s + 1\<rparr>)
      } else Some s)"

definition payload_buf :: "u32 \<Rightarrow> bytes" where
  "payload_buf n = ascii (write_fmt 64 [Lit ''Hello World!! Raspico 10BASE-T Rust !! n='', D32 n] [])"

definition nic_udp_broadcast ::
  "('c, 'h, 'w, 'u, 'e, 't) nic_env \<Rightarrow> u64 \<Rightarrow> ('c, 'h, 'w, 'u, 't) nic \<Rightarrow> ('c, 'h, 'w, 'u, 't) nic option" where
  "nic_udp_broadcast E now s =
     (if udp_at s \<le> now then do {
        mac \<leftarrow> mac_send_udp_broadcast (env_line E) (nic_mac s) endpoint (payload_buf (udp_sent s));
        Some (s\<lparr>udp_at := udp_at s + 200000, nic_mac := mac, udp_sent := udp_sent s + 1\<rparr>)
      } else Some s)"

definition nic_ping ::
  "features \<Rightarrow> ('c, 'h, 'w, 'u, 'e, 't) nic_env \<Rightarrow> u64 \<Rightarrow> ('c, 'h, 'w, 'u, 't) nic \<Rightarrow> ('c, 'h, 'w, 'u, 't) nic" where
  "nic_ping F E now s =
     (if wan_dhcp F \<and> ping_at s \<le> now then
        (let s = s\<lparr>ping_at := ping_at s + 1000000\<rparr>
         in if addr (nic_wan s) \<noteq> None then
              (let (w, wan) = ping_send (env_wan E) (nic_world s) (nic_wan s);
                   (w, wan) = dns_start (env_wan E) w wan
               in s\<lparr>nic_world := w, nic_wan := wan\<rparr>)
            else s)
      else s)"

definition log_wan :: "('c \<Rightarrow> arg list) \<Rightarrow> ('c, 'h) wan_state \<Rightarrow> string" where
  "log_wan show_cidr wan =
     (let line = write_fmt 160 [Lit ''[Wan] ''] []; line = write_status show_cidr 160 wan line
      in write_fmt 160 [Lit NL] line)"

text \<open>\<^verbatim>\<open>log_status\<close> without the \<^verbatim>\<open>diag\<close> feature stops after the first three lines.\<close>

definition nic_status ::
  "features \<Rightarrow> ('c, 'h, 'w, 'u, 't) nic \<Rightarrow> u32 \<Rightarrow> (string list \<times> ('c, 'h, 'w, 'u, 't) nic) option" where
  "nic_status F s core1_ticks =
     (if diag F then do {
        (lines, mac, st) \<leftarrow> log_status (nic_mac s) (nic_rx s) (log_tick s) (nlps_sent s) (udp_sent s)
           (core1_launch_ok s) core1_ticks;
        Some (lines, s\<lparr>nic_mac := mac, nic_rx := st\<rparr>)
      } else
        (case snapshot_rx_stats (nic_rx s) of (rx, st) \<Rightarrow>
           Some (log_lines rx (log_tick s) (nlps_sent s) (udp_sent s) (core1_launch_ok s) core1_ticks,
                 s\<lparr>nic_rx := st\<rparr>)))"

definition sink_report ::
  "u64 \<Rightarrow> ('c, 'h, 'w, 'u, 't) nic \<Rightarrow> string \<times> ('c, 'h, 'w, 'u, 't) nic" where
  "sink_report now s =
     (let elapsed_us = max (now - fd_last_us s) 1;
          sink_now = fd_sink_rx s;
          d_sink = sink_now - fd_prev_sink s;
          rx_kbps = (ucast (ucast d_sink * 1000 div elapsed_us :: u64) :: u32);
          iters_per_s = (ucast (ucast (fd_loop_iters s) * 1000000 div elapsed_us :: u64) :: u32)
      in (write_fmt 160 [Lit ''[Sink] rx='', D32 rx_kbps, Lit ''KB/s total='', D32 (sink_now div 1024),
            Lit ''KB loop='', D32 iters_per_s, Lit ''/s'', Lit NL] [],
          s\<lparr>fd_last_us := now, fd_prev_sink := sink_now, fd_loop_iters := 0\<rparr>))"

definition nic_log ::
  "features \<Rightarrow> ('c, 'h, 'w, 'u, 'e, 't) nic_env \<Rightarrow> u64 \<Rightarrow> u32 \<Rightarrow> ('c, 'h, 'w, 'u, 't) nic
     \<Rightarrow> (string list \<times> ('c, 'h, 'w, 'u, 't) nic) option" where
  "nic_log F E now core1_ticks s =
     (if log_at s \<le> now then do {
        let s = s\<lparr>log_at := log_at s + 1000000, log_tick := log_tick s + 1, led_state := \<not> led_state s\<rparr>;
        (lines, s) \<leftarrow> nic_status F s core1_ticks;
        let lines = (if wan_dhcp F then lines @ [log_wan (env_show E) (nic_wan s)] else lines);
        let (lines, s) = (if fd_bench F then (case sink_report now s of (l, s) \<Rightarrow> (lines @ [l], s)) else (lines, s));
        Some (lines, s\<lparr>nlps_sent := 0\<rparr>)
      } else Some ([], s))"

datatype 'a pass = Reboot reboot_kind | Running 'a "string list"

definition main_pass ::
  "features \<Rightarrow> ('c, 'h, 'w, 'u, 'e, 't) nic_env \<Rightarrow> u64 \<Rightarrow> u32 \<Rightarrow> ('c, 'h, 'w, 'u, 't) nic
     \<Rightarrow> ('c, 'h, 'w, 'u, 't) nic pass option" where
  "main_pass F E now core1_ticks s =
     (let s = (if fd_bench F then s\<lparr>fd_loop_iters := fd_loop_iters s + 1\<rparr> else s);
          (kind, p) = take_pending_reboot (env_usb E (reset_iface s));
          s = s\<lparr>reset_iface := p\<rparr>
      in case kind of
           Some k \<Rightarrow> Some (Reboot k)
         | None \<Rightarrow> do {
             s \<leftarrow> nic_poll E now s;
             s \<leftarrow> nic_lease F E s;
             let s = nic_services F E s;
             s \<leftarrow> nic_nlp E now s;
             s \<leftarrow> nic_udp_broadcast E now s;
             let s = nic_ping F E now s;
             (lines, s) \<leftarrow> nic_log F E now core1_ticks s;
             Some (Running s lines)
           })"

section \<open>Core 1\<close>

text \<open>One turn of \<^verbatim>\<open>core1_entry\<close>'s loop after a wake: everything queued is decoded and the liveness counter goes up.\<close>

definition core1_turn :: "rx_state \<times> u32 \<Rightarrow> (rx_state \<times> u32) option" where
  "core1_turn = (\<lambda>(st, n). map_option (\<lambda>st. (st, n + 1)) (drain_rx_images st))"

section \<open>Sending\<close>

text \<open>A pulse is one word that the FIFO may refuse, and twelve idle words.\<close>

lemma send_nlp_ok:
  assumes "EthTx.drains hw"
  shows "\<exists>t p. send_nlp hw tx = Some (tx\<lparr>clock := t, sent := sent tx @ p @ replicate 12 0\<rparr>) \<and> (p = [0xA] \<or> p = [])"
proof -
  obtain k where w: "snd (wait_carrier_idle hw tx) = tx\<lparr>clock := k\<rparr>" by (metis wait_carrier_idle_clock snd_conv)
  define p :: "u32 list" where "p = (if fifo_free hw k then [0xA] else [])"
  have t: "snd (EthTx.tx_write hw (tx\<lparr>clock := k\<rparr>) 0xA) = tx\<lparr>clock := k + 1, sent := sent tx @ p\<rparr>"
    by (simp add: EthTx.tx_write_def Let_def p_def)
  obtain t where "push_words hw (replicate 12 0) (tx\<lparr>clock := k + 1, sent := sent tx @ p\<rparr>)
      = Some (tx\<lparr>clock := t, sent := (sent tx @ p) @ replicate 12 0\<rparr>)"
    using push_words_sent [OF assms, of "replicate 12 0" "tx\<lparr>clock := k + 1, sent := sent tx @ p\<rparr>"] by auto
  with w t show ?thesis
    by (intro exI [of _ t] exI [of _ p]) (auto simp: send_nlp_def Let_def case_prod_unfold p_def)
qed

lemma send_udp_broadcast_ok:
  assumes line: "EthTx.drains hw" and ep: "endpoint_ok ep" and fit: "length payload + 54 \<le> length (raw_frame tx)"
  shows "\<exists>tx'. send_udp_broadcast hw tx ep payload = Some tx' \<and> length (raw_frame tx') = length (raw_frame tx)
    \<and> sent tx' = sent tx @ encode (udp_frame_bytes ep payload (ip_identifier tx)) @ [0xAAA] @ replicate 12 0"
proof -
  let ?f = "udp_frame_bytes ep payload (ip_identifier tx)"
  note b = build_frame [OF ep fit, of "ip_identifier tx"]
  define tx1 where "tx1 = tx\<lparr>raw_frame := ?f @ drop (54 + length payload) (raw_frame tx), ip_identifier := ip_identifier tx + 1\<rparr>"
  have fields: "sent tx1 = sent tx" "raw_frame tx1 = ?f @ drop (54 + length payload) (raw_frame tx)"
    by (simp_all add: tx1_def)
  obtain k where w: "snd (wait_carrier_idle hw tx1) = tx1\<lparr>clock := k\<rparr>" by (metis wait_carrier_idle_clock snd_conv)
  obtain t1 where 1: "push_words hw (encode ?f) (tx1\<lparr>clock := k\<rparr>) = Some (tx1\<lparr>clock := t1, sent := sent tx @ encode ?f\<rparr>)"
    using push_words_sent [OF line, of "encode ?f" "tx1\<lparr>clock := k\<rparr>"] fields(1) by auto
  obtain t2 where 2: "push_word hw (tx1\<lparr>clock := t1, sent := sent tx @ encode ?f\<rparr>) 0xAAA
      = Some (tx1\<lparr>clock := t2, sent := (sent tx @ encode ?f) @ [0xAAA]\<rparr>)"
    using push_word_sent [OF line, of "tx1\<lparr>clock := t1, sent := sent tx @ encode ?f\<rparr>" "0xAAA"] by auto
  obtain t3 where 3: "push_words hw (replicate 12 0) (tx1\<lparr>clock := t2, sent := (sent tx @ encode ?f) @ [0xAAA]\<rparr>)
      = Some (tx1\<lparr>clock := t3, sent := ((sent tx @ encode ?f) @ [0xAAA]) @ replicate 12 0\<rparr>)"
    using push_words_sent [OF line, of "replicate 12 0" "tx1\<lparr>clock := t2, sent := (sent tx @ encode ?f) @ [0xAAA]\<rparr>"] by auto
  have "send_udp_broadcast hw tx ep payload = Some (tx1\<lparr>clock := t3, sent := ((sent tx @ encode ?f) @ [0xAAA]) @ replicate 12 0\<rparr>)"
    unfolding send_udp_broadcast_def b Let_def using w 1 2 3
    by (simp add: tx1_def [symmetric] fields(2) length_udp_frame_bytes [OF ep] encode_def [of "[]"])
  moreover have "length (raw_frame tx1) = length (raw_frame tx)"
    using fit by (simp add: fields(2) length_udp_frame_bytes [OF ep] encode_def [of "[]"])
  ultimately show ?thesis by simp
qed

section \<open>What a pass keeps\<close>

definition mac_ok :: "eth_mac \<Rightarrow> bool" where
  "mac_ok mac \<longleftrightarrow> length (raw_frame (mac_tx mac)) = MAX_TX_FRAME \<and> length (tx_buf mac) = MAX_FRAME_BYTES"

text \<open>smoltcp's poll uses the device through its operations and does not configure the interface.\<close>

definition nic_poll_ok :: "('c, 'h, 'w, 'u, 'e, 't) nic_env \<Rightarrow> ('w \<Rightarrow> 'c config) \<Rightarrow> bool" where
  "nic_poll_ok E cf \<longleftrightarrow> (\<forall>i mac st w u t k. mac_ok mac \<longrightarrow> (\<exists>mac' st' w' u' t' k'.
     env_poll E i (mac, st, w, u, t, k) = Some (mac', st', w', u', t', k') \<and> mac_ok mac' \<and> cf w' = cf w))"

definition nic_inv :: "('w \<Rightarrow> 'c config) \<Rightarrow> ('c, 'h, 'w, 'u, 't) nic \<Rightarrow> bool" where
  "nic_inv cf s \<longleftrightarrow> mac_ok (nic_mac s) \<and> synced (cf (nic_world s)) (nic_wan s)"

text \<open>The fields that only the timed parts of a pass change.\<close>

definition timers :: "('c, 'h, 'w, 'u, 't) nic \<Rightarrow> u64 \<times> u64 \<times> u64 \<times> u32 \<times> u32 \<times> u32" where
  "timers s = (nlp_at s, udp_at s, log_at s, nlps_sent s, udp_sent s, log_tick s)"

lemma nic_poll_step:
  assumes "nic_poll_ok E cf" and "nic_inv cf s"
  shows "\<exists>s'. nic_poll E now s = Some s' \<and> nic_inv cf s' \<and> timers s' = timers s"
proof -
  have "mac_ok (nic_mac s)" using assms(2) by (simp add: nic_inv_def)
  with assms(1) obtain mac' st' w' u' t' k' where
    "env_poll E (sint now) (nic_mac s, nic_rx s, nic_world s, nic_udp s, nic_tcp s, nic_sink s) = Some (mac', st', w', u', t', k')"
    "mac_ok mac'" "cf w' = cf (nic_world s)" unfolding nic_poll_ok_def by blast
  with assms(2) show ?thesis by (simp add: nic_poll_def nic_inv_def timers_def)
qed

lemma nic_lease_step:
  assumes laws: "wan_laws (env_wan E) cf queued" and inv: "nic_inv cf s"
  shows "\<exists>s'. nic_lease F E s = Some s' \<and> nic_inv cf s' \<and> timers s' = timers s \<and> nic_mac s' = nic_mac s"
proof (cases "wan_dhcp F")
  case False
  with inv show ?thesis by (simp add: nic_lease_def)
next
  case True
  obtain w1 wan1 where a: "dhcp_apply (env_wan E) (nic_world s) (nic_wan s) = (w1, wan1)" by force
  have 1: "synced (cf w1) wan1" using synced_apply [OF laws _ a] inv by (simp add: nic_inv_def)
  obtain w2 n where d: "ping_drain (env_wan E) w1 wan1 = Some (w2, wan1\<lparr>ping_ok := n\<rparr>)" "cf w2 = cf w1"
    using ping_drain_ok [OF laws] by blast
  obtain w3 wan3 where h: "dns_harvest (env_wan E) w2 (wan1\<lparr>ping_ok := n\<rparr>) = (w3, wan3)" by force
  have "synced (cf w3) wan3" by (rule synced_dns_harvest [OF laws _ h]) (use 1 d in simp)
  with True a d h inv show ?thesis by (simp add: nic_lease_def nic_inv_def timers_def)
qed

lemma nic_services_step:
  "nic_inv cf (nic_services F E s) = nic_inv cf s" "timers (nic_services F E s) = timers s"
  "nic_mac (nic_services F E s) = nic_mac s"
  by (simp_all add: nic_services_def nic_inv_def timers_def Let_def split: prod.split)

lemma nic_ping_step:
  assumes laws: "wan_laws (env_wan E) cf queued" and inv: "nic_inv cf s"
  shows "nic_inv cf (nic_ping F E now s) \<and> timers (nic_ping F E now s) = timers s \<and> nic_mac (nic_ping F E now s) = nic_mac s"
proof (cases "wan_dhcp F \<and> ping_at s \<le> now \<and> addr (nic_wan s) \<noteq> None")
  case False
  then show ?thesis using inv by (auto simp: nic_ping_def nic_inv_def timers_def Let_def)
next
  case True
  obtain w1 wan1 where p: "ping_send (env_wan E) (nic_world s) (nic_wan s) = (w1, wan1)" by force
  obtain w2 wan2 where q: "dns_start (env_wan E) w1 wan1 = (w2, wan2)" by force
  have "synced (cf w1) wan1" using synced_ping_send [OF laws _ p] inv by (simp add: nic_inv_def)
  then have "synced (cf w2) wan2" by (rule synced_dns_start [OF laws _ q])
  with True p q inv show ?thesis by (simp add: nic_ping_def nic_inv_def timers_def Let_def)
qed

text \<open>The words of the pulse and of the broadcast, when they are due.\<close>

definition pulse_words :: "u64 \<Rightarrow> ('c, 'h, 'w, 'u, 't) nic \<Rightarrow> u32 list \<Rightarrow> bool" where
  "pulse_words now s ws \<longleftrightarrow>
     (if nlp_at s \<le> now then ws = [0xA] @ replicate 12 0 \<or> ws = replicate 12 0 else ws = [])"

definition broadcast_words :: "u64 \<Rightarrow> ('c, 'h, 'w, 'u, 't) nic \<Rightarrow> u32 list \<Rightarrow> bool" where
  "broadcast_words now s ws \<longleftrightarrow>
     (if udp_at s \<le> now
      then \<exists>i. ws = encode (udp_frame_bytes endpoint (payload_buf (udp_sent s)) i) @ [0xAAA] @ replicate 12 0
      else ws = [])"

lemma nic_nlp_step:
  assumes line: "EthTx.drains (env_line E)" and inv: "nic_inv cf s"
  shows "\<exists>s' ws. nic_nlp E now s = Some s' \<and> nic_inv cf s' \<and> pulse_words now s ws
    \<and> sent (mac_tx (nic_mac s')) = sent (mac_tx (nic_mac s)) @ ws
    \<and> timers s' = (if nlp_at s \<le> now then nlp_at s + 16000 else nlp_at s, udp_at s, log_at s,
        if nlp_at s \<le> now then nlps_sent s + 1 else nlps_sent s, udp_sent s, log_tick s)"
proof (cases "nlp_at s \<le> now")
  case False
  with inv show ?thesis by (intro exI [of _ s] exI [of _ "[]"]) (simp add: nic_nlp_def timers_def pulse_words_def)
next
  case True
  obtain t p where p: "send_nlp (env_line E) (mac_tx (nic_mac s))
      = Some ((mac_tx (nic_mac s))\<lparr>clock := t, sent := sent (mac_tx (nic_mac s)) @ p @ replicate 12 0\<rparr>)" "p = [0xA] \<or> p = []"
    using send_nlp_ok [OF line] by blast
  have "pulse_words now s (p @ replicate 12 0)" using True p(2) by (auto simp: pulse_words_def)
  with True p(1) inv show ?thesis
    by (intro exI [of _ "s\<lparr>nlp_at := nlp_at s + 16000, nic_mac := (nic_mac s)\<lparr>mac_tx := (mac_tx (nic_mac s))\<lparr>clock := t,
          sent := sent (mac_tx (nic_mac s)) @ p @ replicate 12 0\<rparr>\<rparr>, nlps_sent := nlps_sent s + 1\<rparr>"]
        exI [of _ "p @ replicate 12 0"]) (simp add: nic_nlp_def mac_send_nlp_def timers_def nic_inv_def mac_ok_def)
qed

lemma length_payload_buf: "length (payload_buf n) \<le> 64"
  by (simp add: payload_buf_def write_fmt_le)

lemma nic_udp_broadcast_step:
  assumes line: "EthTx.drains (env_line E)" and inv: "nic_inv cf s"
  shows "\<exists>s' ws. nic_udp_broadcast E now s = Some s' \<and> nic_inv cf s' \<and> broadcast_words now s ws
    \<and> sent (mac_tx (nic_mac s')) = sent (mac_tx (nic_mac s)) @ ws
    \<and> timers s' = (nlp_at s, if udp_at s \<le> now then udp_at s + 200000 else udp_at s, log_at s,
        nlps_sent s, if udp_at s \<le> now then udp_sent s + 1 else udp_sent s, log_tick s)"
proof (cases "udp_at s \<le> now")
  case False
  with inv show ?thesis
    by (intro exI [of _ s] exI [of _ "[]"]) (simp add: nic_udp_broadcast_def timers_def broadcast_words_def)
next
  case True
  let ?tx = "mac_tx (nic_mac s)"
  have ep: "endpoint_ok endpoint" by (simp add: endpoint_ok_def endpoint_def OUR_MAC_def)
  have fit: "length (payload_buf (udp_sent s)) + 54 \<le> length (raw_frame ?tx)"
    using length_payload_buf [of "udp_sent s"] inv by (simp add: nic_inv_def mac_ok_def MAX_TX_FRAME_def)
  obtain tx' where tx': "send_udp_broadcast (env_line E) ?tx endpoint (payload_buf (udp_sent s)) = Some tx'"
    "length (raw_frame tx') = length (raw_frame ?tx)"
    "sent tx' = sent ?tx @ encode (udp_frame_bytes endpoint (payload_buf (udp_sent s)) (ip_identifier ?tx)) @ [0xAAA] @ replicate 12 0"
    using send_udp_broadcast_ok [OF line ep fit] by blast
  have "broadcast_words now s (encode (udp_frame_bytes endpoint (payload_buf (udp_sent s)) (ip_identifier ?tx)) @ [0xAAA] @ replicate 12 0)"
    using True by (auto simp: broadcast_words_def)
  with True tx' inv show ?thesis
    by (intro exI [of _ "s\<lparr>udp_at := udp_at s + 200000, nic_mac := (nic_mac s)\<lparr>mac_tx := tx'\<rparr>, udp_sent := udp_sent s + 1\<rparr>"]
        exI [of _ "encode (udp_frame_bytes endpoint (payload_buf (udp_sent s)) (ip_identifier ?tx)) @ [0xAAA] @ replicate 12 0"])
      (simp add: nic_udp_broadcast_def mac_send_udp_broadcast_def timers_def nic_inv_def mac_ok_def)
qed

lemma nic_log_step:
  assumes plain: "\<not> diag F" and inv: "nic_inv cf s"
  shows "\<exists>s' lines. nic_log F E now ct s = Some (lines, s') \<and> nic_inv cf s' \<and> nic_mac s' = nic_mac s
    \<and> (lines \<noteq> [] \<longleftrightarrow> log_at s \<le> now)
    \<and> timers s' = (nlp_at s, udp_at s, if log_at s \<le> now then log_at s + 1000000 else log_at s,
        if log_at s \<le> now then 0 else nlps_sent s, udp_sent s, if log_at s \<le> now then log_tick s + 1 else log_tick s)"
proof (cases "log_at s \<le> now")
  case False
  with inv show ?thesis by (simp add: nic_log_def timers_def)
next
  case True
  then show ?thesis
    using plain inv
    by (cases "wan_dhcp F"; cases "fd_bench F")
      (simp_all add: nic_log_def nic_status_def snapshot_rx_stats_def sink_report_def log_lines_def Let_def
        timers_def nic_inv_def)
qed

text \<open>The outcome of a pass.\<close>

definition pass_ok ::
  "('c, 'h, 'w, 'u, 'e, 't) nic_env \<Rightarrow> ('w \<Rightarrow> 'c config) \<Rightarrow> u64 \<Rightarrow> ('c, 'h, 'w, 'u, 't) nic
     \<Rightarrow> ('c, 'h, 'w, 'u, 't) nic \<Rightarrow> string list \<Rightarrow> bool" where
  "pass_ok E cf now s s' lines \<longleftrightarrow> nic_inv cf s' \<and> (lines \<noteq> [] \<longleftrightarrow> log_at s \<le> now)
     \<and> timers s' = (if nlp_at s \<le> now then nlp_at s + 16000 else nlp_at s,
          if udp_at s \<le> now then udp_at s + 200000 else udp_at s,
          if log_at s \<le> now then log_at s + 1000000 else log_at s,
          if log_at s \<le> now then 0 else if nlp_at s \<le> now then nlps_sent s + 1 else nlps_sent s,
          if udp_at s \<le> now then udp_sent s + 1 else udp_sent s,
          if log_at s \<le> now then log_tick s + 1 else log_tick s)
     \<and> (\<exists>mac rest pulse udp. env_poll E (sint now) (nic_mac s, nic_rx s, nic_world s, nic_udp s, nic_tcp s, nic_sink s)
            = Some (mac, rest) \<and> pulse_words now s pulse \<and> broadcast_words now s udp
          \<and> sent (mac_tx (nic_mac s')) = sent (mac_tx mac) @ pulse @ udp)"

lemma words_cong:
  "timers s = timers s' \<Longrightarrow> pulse_words now s ws = pulse_words now s' ws"
  "timers s = timers s' \<Longrightarrow> broadcast_words now s ws = broadcast_words now s' ws"
  by (simp_all add: timers_def pulse_words_def broadcast_words_def)

lemma main_pass_ok:
  assumes line: "EthTx.drains (env_line E)" and poll: "nic_poll_ok E cf" and laws: "wan_laws (env_wan E) cf queued"
    and plain: "\<not> diag F" and inv: "nic_inv cf s"
  shows "\<exists>r. main_pass F E now ct s = Some r \<and> (case r of
      Reboot k \<Rightarrow> pr_pending (env_usb E (reset_iface s)) = Some k
    | Running s' lines \<Rightarrow> pr_pending (env_usb E (reset_iface s)) = None \<and> pass_ok E cf now s s' lines)"
proof (cases "pr_pending (env_usb E (reset_iface s))")
  case (Some k)
  then show ?thesis by (simp add: main_pass_def take_pending_reboot_def Let_def)
next
  case None
  define s0 where "s0 = (if fd_bench F then s\<lparr>fd_loop_iters := fd_loop_iters s + 1\<rparr> else s)
    \<lparr>reset_iface := snd (take_pending_reboot (env_usb E (reset_iface s)))\<rparr>"
  have s0: "nic_inv cf s0" "timers s0 = timers s" "(nic_mac s0, nic_rx s0, nic_world s0, nic_udp s0, nic_tcp s0, nic_sink s0)
      = (nic_mac s, nic_rx s, nic_world s, nic_udp s, nic_tcp s, nic_sink s)"
    using inv by (simp_all add: s0_def nic_inv_def timers_def)
  obtain s1 where 1: "nic_poll E now s0 = Some s1" "nic_inv cf s1" "timers s1 = timers s0"
    using nic_poll_step [OF poll s0(1)] by blast
  obtain s2 where 2: "nic_lease F E s1 = Some s2" "nic_inv cf s2" "timers s2 = timers s1" "nic_mac s2 = nic_mac s1"
    using nic_lease_step [OF laws 1(2)] by blast
  define s3 where "s3 = nic_services F E s2"
  have 3: "nic_inv cf s3" "timers s3 = timers s2" "nic_mac s3 = nic_mac s2"
    using 2(2) by (simp_all add: s3_def nic_services_step)
  obtain s4 pulse where 4: "nic_nlp E now s3 = Some s4" "nic_inv cf s4" "pulse_words now s3 pulse"
    "sent (mac_tx (nic_mac s4)) = sent (mac_tx (nic_mac s3)) @ pulse"
    "timers s4 = (if nlp_at s3 \<le> now then nlp_at s3 + 16000 else nlp_at s3, udp_at s3, log_at s3,
        if nlp_at s3 \<le> now then nlps_sent s3 + 1 else nlps_sent s3, udp_sent s3, log_tick s3)"
    using nic_nlp_step [OF line 3(1)] by blast
  obtain s5 udp where 5: "nic_udp_broadcast E now s4 = Some s5" "nic_inv cf s5" "broadcast_words now s4 udp"
    "sent (mac_tx (nic_mac s5)) = sent (mac_tx (nic_mac s4)) @ udp"
    "timers s5 = (nlp_at s4, if udp_at s4 \<le> now then udp_at s4 + 200000 else udp_at s4, log_at s4,
        nlps_sent s4, if udp_at s4 \<le> now then udp_sent s4 + 1 else udp_sent s4, log_tick s4)"
    using nic_udp_broadcast_step [OF line 4(2)] by blast
  define s6 where "s6 = nic_ping F E now s5"
  have 6: "nic_inv cf s6" "timers s6 = timers s5" "nic_mac s6 = nic_mac s5"
    using nic_ping_step [OF laws 5(2)] by (simp_all add: s6_def)
  obtain s7 lines where 7: "nic_log F E now ct s6 = Some (lines, s7)" "nic_inv cf s7" "nic_mac s7 = nic_mac s6"
    "lines \<noteq> [] \<longleftrightarrow> log_at s6 \<le> now"
    "timers s7 = (nlp_at s6, udp_at s6, if log_at s6 \<le> now then log_at s6 + 1000000 else log_at s6,
        if log_at s6 \<le> now then 0 else nlps_sent s6, udp_sent s6, if log_at s6 \<le> now then log_tick s6 + 1 else log_tick s6)"
    using nic_log_step [OF plain 6(1)] by blast
  have run: "main_pass F E now ct s = Some (Running s7 lines)"
    using None 1(1) 2(1) 4(1) 5(1) 7(1)
    by (cases "fd_bench F") (simp_all add: main_pass_def take_pending_reboot_def Let_def s0_def s3_def s6_def)
  have t3: "timers s3 = timers s" using 3(2) 2(3) 1(3) s0(2) by simp
  have pw: "pulse_words now s pulse" using 4(3) words_cong(1) [OF t3] by simp
  have "udp_at s4 = udp_at s" "udp_sent s4 = udp_sent s" using 4(5) t3 by (simp_all add: timers_def)
  then have bw: "broadcast_words now s udp" using 5(3) unfolding broadcast_words_def by presburger
  have tm: "timers s7 = (if nlp_at s \<le> now then nlp_at s + 16000 else nlp_at s,
      if udp_at s \<le> now then udp_at s + 200000 else udp_at s,
      if log_at s \<le> now then log_at s + 1000000 else log_at s,
      if log_at s \<le> now then 0 else if nlp_at s \<le> now then nlps_sent s + 1 else nlps_sent s,
      if udp_at s \<le> now then udp_sent s + 1 else udp_sent s,
      if log_at s \<le> now then log_tick s + 1 else log_tick s)" and lg: "log_at s6 = log_at s"
    using 7(5) 6(2) 5(5) 4(5) t3 by (simp_all add: timers_def)
  obtain mac rest where p: "env_poll E (sint now) (nic_mac s, nic_rx s, nic_world s, nic_udp s, nic_tcp s, nic_sink s)
      = Some (mac, rest)" "nic_mac s1 = mac"
    using 1(1) s0(3) by (auto simp: nic_poll_def bind_eq_Some_conv)
  have "sent (mac_tx (nic_mac s7)) = sent (mac_tx mac) @ pulse @ udp"
    using 7(3) 6(3) 5(4) 4(4) 3(3) 2(4) p(2) by simp
  moreover have "(lines \<noteq> []) = (log_at s \<le> now)" using 7(4) lg by (simp only:)
  ultimately have "pass_ok E cf now s s7 lines"
    unfolding pass_ok_def using 7(2) tm pw bw p(1)
    by (intro conjI exI [of _ mac] exI [of _ rest] exI [of _ pulse] exI [of _ udp]) assumption+
  with run None show ?thesis by simp
qed

section \<open>The schedule\<close>

text \<open>Runs of the loop from power-up at \<open>now0\<close> with at most \<open>d\<close> microseconds between passes, and interrupts that change the
  receive statics in between; \<open>prev\<close> is the time of the last pass, \<open>n\<close> the number of pulses so far.\<close>

inductive nic_reach ::
  "features \<Rightarrow> ('c, 'h, 'w, 'u, 'e, 't) nic_env \<Rightarrow> ('w \<Rightarrow> 'c config) \<Rightarrow> nat \<Rightarrow> u64
     \<Rightarrow> ('c, 'h, 'w, 'u, 't) nic \<Rightarrow> u64 \<Rightarrow> nat \<Rightarrow> bool"
  for F E cf d now0 where
  start: "mac_ok mac \<Longrightarrow> cf w = ([], None, []) \<Longrightarrow> unat now0 < 2 ^ 63 \<Longrightarrow>
    nic_reach F E cf d now0 (nic_start mac st w u t k i ok now0) now0 0"
| pass: "nic_reach F E cf d now0 s prev n \<Longrightarrow> unat prev \<le> unat now \<Longrightarrow> unat now \<le> unat prev + d \<Longrightarrow>
    unat now < 2 ^ 63 \<Longrightarrow> main_pass F E now ct s = Some (Running s' lines) \<Longrightarrow>
    nic_reach F E cf d now0 s' now (if nlp_at s \<le> now then n + 1 else n)"
| irq: "nic_reach F E cf d now0 s prev n \<Longrightarrow> nic_reach F E cf d now0 (s\<lparr>nic_rx := st\<rparr>) prev n"

definition on_schedule :: "u64 \<Rightarrow> ('c, 'h, 'w, 'u, 't) nic \<Rightarrow> u64 \<Rightarrow> nat \<Rightarrow> bool" where
  "on_schedule now0 s prev n \<longleftrightarrow> unat (nlp_at s) = unat now0 + 16000 * n \<and> unat prev \<le> unat (nlp_at s)
     \<and> unat (nlp_at s) \<le> unat prev + 16000"

lemma nic_reach_inv:
  assumes line: "EthTx.drains (env_line E)" and poll: "nic_poll_ok E cf" and laws: "wan_laws (env_wan E) cf queued"
    and plain: "\<not> diag F" and d: "d \<le> 16000"
    and reach: "nic_reach F E cf d now0 s prev n"
  shows "nic_inv cf s \<and> on_schedule now0 s prev n \<and> unat prev < 2 ^ 63"
  using reach
proof induction
  case (start mac w st u t k i ok)
  then show ?case using synced_new by (simp add: nic_start_def nic_inv_def on_schedule_def)
next
  case (pass s prev n now ct s' lines)
  then have inv: "nic_inv cf s" and sch: "on_schedule now0 s prev n" by simp_all
  from main_pass_ok [OF line poll laws plain inv, of now ct] pass.hyps have ok: "pass_ok E cf now s s' lines" by auto
  then have inv': "nic_inv cf s'" and at: "nlp_at s' = (if nlp_at s \<le> now then nlp_at s + 16000 else nlp_at s)"
    by (simp_all add: pass_ok_def timers_def)
  have small: "unat (nlp_at s) + 16000 < 2 ^ 64" using sch pass.hyps(4) pass.IH by (simp add: on_schedule_def)
  have plus: "unat (nlp_at s + 16000) = unat (nlp_at s) + 16000"
    by (subst unat_add_lem [THEN iffD1]) (use small in simp_all)
  have "on_schedule now0 s' now (if nlp_at s \<le> now then n + 1 else n)"
    using sch d pass.hyps(2-4) plus unfolding on_schedule_def at by (auto simp: word_le_nat_alt)
  with inv' pass.hyps(4) show ?case by simp
next
  case (irq s prev n st)
  then show ?case by (simp add: nic_inv_def on_schedule_def)
qed

text \<open>The deadline moves by 16 ms from the deadline, not from the pass: after a stall the pulses that were missed go out in
  consecutive passes, back to back.\<close>

lemma pulses_after_a_stall:
  assumes "nic_nlp E now s = Some s'" and "nlp_at s \<le> now" and "nlp_at s + 16000 \<le> now"
    and "nic_nlp E now s' = Some s''"
  shows "nlps_sent s'' = nlps_sent s + 2"
  using assms by (auto simp: nic_nlp_def bind_eq_Some_conv)

section \<open>Properties\<close>


text \<open>A board whose stack is idle, on the scripted WAN of the examples.\<close>

definition idle_echo :: "(unit, unit) echo_socket" where
  "idle_echo = \<lparr>echo_is_open = (\<lambda>s. True), echo_bind = (\<lambda>s p. s), echo_recv_slice = (\<lambda>s n. (None, s)),
     echo_send_slice = (\<lambda>s bs e. s)\<rparr>"

definition idle_env :: "(ipv4 \<times> nat, nat, script, unit, unit, bytes \<times> nat) nic_env" where
  "idle_env = \<lparr>env_line = idle_line, env_poll = (\<lambda>i. Some), env_udp = idle_echo, env_tcp = buffer_socket, env_wan = script_net,
     env_usb = id, env_show = (\<lambda>c. [])\<rparr>"

definition wired_board :: "(ipv4 \<times> nat, nat, script, unit, bytes \<times> nat) nic" where
  "wired_board = nic_start (mac_new (tx_new 0)) rx_boot (script_start []) () ([], 0) ([], 0) 2 True 5"


end
