(* ===== verification/Validator.thy ===== *)
theory Validator
  imports Dpll
begin

text \<open>
  The offline validator of the decoder, \<^verbatim>\<open>tools/dpll-rust/src/main.rs\<close>: it decodes every capture of a corpus, checks the
  FCS with a CRC of its own, and counts wrong payload bytes by position. The captures are a parameter, in the order
  of their names; reading the directory and printing are left out, so the result is the exit code, \<^const>\<open>None\<close> if the
  decoder reads outside a capture. The numbers of files and of good frames are unbounded.
\<close>

section \<open>The code\<close>

definition POLY_REVERSED :: u32 where "POLY_REVERSED = 0xEDB88320"

definition val_crc_bit :: "u32 \<Rightarrow> u32" where
  "val_crc_bit c = (if c AND 1 \<noteq> 0 then drop_bit 1 c XOR POLY_REVERSED else drop_bit 1 c)"

definition val_crc32 :: "bytes \<Rightarrow> u32" where
  "val_crc32 data = foldl (\<lambda>c b. (val_crc_bit ^^ 8) (c XOR ucast b)) 0xFFFFFFFF data XOR 0xFFFFFFFF"

definition fcs_ok :: "bytes \<Rightarrow> bool" where
  "fcs_ok frame =
     (if length frame < 18 then False
      else
        (let ethertype = be16 (frame ! 12) (frame ! 13);
             frame_len = (if ethertype = 0x0800 then
                 (let ip_total = unat (be16 (frame ! 16) (frame ! 17)) in max (14 + ip_total + 4) 64)
               else length frame)
         in if frame_len < 18 \<or> length frame < frame_len then False
            else
              (let computed = val_crc32 (take (frame_len - 4) frame);
                   stored = le32 (frame ! (frame_len - 4)) (frame ! (frame_len - 3))
                     (frame ! (frame_len - 2)) (frame ! (frame_len - 1))
               in computed = stored)))"

definition BIN_SIZE :: nat where "BIN_SIZE = 184"

record scores =
  n_total :: nat
  n_ok :: nat
  bins_err :: "u32 list"
  bins_tot :: "u32 list"

definition no_scores :: scores where
  "no_scores = \<lparr>n_total = 0, n_ok = 0, bins_err = replicate 8 0, bins_tot = replicate 8 0\<rparr>"

definition score_byte :: "bytes \<Rightarrow> nat \<Rightarrow> scores \<Rightarrow> scores" where
  "score_byte frame j s =
     (let b = min (j div BIN_SIZE) 7;
          s = s\<lparr>bins_tot := (bins_tot s)[b := bins_tot s ! b + 1]\<rparr>
      in if frame ! (42 + j) \<noteq> of_nat j then s\<lparr>bins_err := (bins_err s)[b := bins_err s ! b + 1]\<rparr> else s)"

definition score_file :: "bytes \<Rightarrow> scores \<Rightarrow> scores option" where
  "score_file raw s = do {
     let s = s\<lparr>n_total := n_total s + 1\<rparr>;
     r \<leftarrow> decode_frame_edge_track raw;
     case r of
       None \<Rightarrow> Some s
     | Some frame \<Rightarrow>
         if fcs_ok frame then
           (let s = s\<lparr>n_ok := n_ok s + 1\<rparr>
            in if 46 \<le> length frame
               then Some (fold (score_byte frame) [0..<min (length frame - 42 - 4) 1472] s)
               else Some s)
         else Some s
   }"

primrec score_files :: "bytes list \<Rightarrow> scores \<Rightarrow> scores option" where
  "score_files [] s = Some s"
| "score_files (raw # raws) s = Option.bind (score_file raw s) (score_files raws)"

text \<open>The exit code: 2 without captures, 0 for a pass, 1 otherwise.\<close>

definition validator_main :: "bytes list \<Rightarrow> nat option" where
  "validator_main corpus =
     (if corpus = [] then Some 2
      else do {
        s \<leftarrow> score_files corpus no_scores;
        let passed = (n_ok s = n_total s \<and> 0 < n_total s \<and> list_all (\<lambda>e. e = 0) (bins_err s));
        Some (if passed then 0 else 1)
      })"

section \<open>The checks are the firmware's\<close>

lemma val_crc_bit_eq: "val_crc_bit = step_bit"
  by (simp add: fun_eq_iff val_crc_bit_def step_bit_def POLY_REVERSED_def)

lemma update_foldl: "update c data = foldl step_byte c data"
  by (induction data arbitrary: c) simp_all

lemma val_crc32_eq: "val_crc32 data = crc32_ieee802_3 data"
  by (simp add: val_crc32_def crc32_ieee802_3_def finalize_def update_foldl val_crc_bit_eq step_byte_def [abs_def])

text \<open>The validator refuses frames whose IP length exceeds them, where the firmware falls back to the whole frame; ARP apart,
  whatever it accepts the firmware accepts with the length it derives.\<close>

lemma fcs_ok_verify:
  assumes "fcs_ok f" and "be16 (f ! 12) (f ! 13) \<noteq> 0x0806"
  shows "verify_fcs f (derive_frame_len f)"
proof (cases "be16 (f ! 12) (f ! 13) = 0x0800")
  case True
  with assms(1) show ?thesis
    by (auto simp: fcs_ok_def derive_frame_len_def verify_fcs_def val_crc32_eq Let_def not_less split: if_splits)
next
  case False
  with assms show ?thesis
    by (auto simp: fcs_ok_def derive_frame_len_def verify_fcs_def val_crc32_eq Let_def split: if_splits)
qed

section \<open>Counting\<close>

definition err_sum :: "scores \<Rightarrow> nat" where
  "err_sum s = sum_list (map unat (bins_err s))"

definition wrong_bytes :: "bytes \<Rightarrow> nat" where
  "wrong_bytes frame = length (filter (\<lambda>j. frame ! (42 + j) \<noteq> of_nat j) [0..<min (length frame - 42 - 4) 1472])"

lemma err_sum_bump:
  fixes es :: "u32 list"
  assumes "b < length es" and "sum_list (map unat es) + 1 < 2 ^ 32"
  shows "sum_list (map unat (es[b := es ! b + 1])) = sum_list (map unat es) + 1"
proof -
  have "unat (es ! b) \<le> sum_list (map unat es)" using assms(1) by (intro member_le_sum_list) auto
  with assms(2) have "unat (es ! b + 1) = unat (es ! b) + 1"
    by (subst unat_add_lem [THEN iffD1]) simp_all
  note one = this
  have "sum_list (map unat (es[b := x])) + unat (es ! b) = sum_list (map unat es) + unat x" for x
    using assms(1) by (induction es arbitrary: b) (auto split: nat.splits)
  from this [of "es ! b + 1"] one show ?thesis by linarith
qed

lemma score_byte_step:
  assumes "length (bins_err s) = 8" and "err_sum s + 1 < 2 ^ 32"
  shows "length (bins_err (score_byte f j s)) = 8 \<and> n_ok (score_byte f j s) = n_ok s \<and> n_total (score_byte f j s) = n_total s
    \<and> err_sum (score_byte f j s) = err_sum s + (if f ! (42 + j) \<noteq> of_nat j then 1 else 0)"
  using assms err_sum_bump [of "min (j div BIN_SIZE) 7" "bins_err s"]
  by (simp add: score_byte_def Let_def err_sum_def)

lemma score_bytes:
  "length (bins_err s) = 8 \<Longrightarrow> err_sum s + length js < 2 ^ 32 \<Longrightarrow>
     length (bins_err (fold (score_byte f) js s)) = 8 \<and> n_ok (fold (score_byte f) js s) = n_ok s
     \<and> n_total (fold (score_byte f) js s) = n_total s
     \<and> err_sum (fold (score_byte f) js s) = err_sum s + length (filter (\<lambda>j. f ! (42 + j) \<noteq> of_nat j) js)"
proof (induction js arbitrary: s)
  case (Cons j js)
  have "err_sum s + 1 < 2 ^ 32" using Cons.prems(2) by simp
  note b = score_byte_step [OF Cons.prems(1) this, of f j]
  then have "err_sum (score_byte f j s) + length js < 2 ^ 32" using Cons.prems(2) by (simp split: if_splits)
  with Cons.IH [of "score_byte f j s"] b show ?case by simp
qed simp

text \<open>What a file adds: a frame counts as good, and its wrong bytes are counted.\<close>

definition good_file :: "bytes \<Rightarrow> bool" where
  "good_file raw \<longleftrightarrow> (\<exists>frame. decode_frame_edge_track raw = Some (Some frame) \<and> fcs_ok frame)"

definition file_errors :: "bytes \<Rightarrow> nat" where
  "file_errors raw = (case decode_frame_edge_track raw of
     Some (Some frame) \<Rightarrow> if fcs_ok frame then wrong_bytes frame else 0 | _ \<Rightarrow> 0)"

lemma file_errors_le: "file_errors raw \<le> 1472"
  unfolding file_errors_def wrong_bytes_def
  by (auto split: option.split intro: order_trans [OF length_filter_le])

lemma score_file_ok:
  assumes "raw \<noteq> []" and "length (bins_err s) = 8" and "err_sum s + 1472 < 2 ^ 32"
  shows "\<exists>s'. score_file raw s = Some s' \<and> length (bins_err s') = 8 \<and> n_total s' = n_total s + 1
    \<and> n_ok s' = n_ok s + (if good_file raw then 1 else 0) \<and> err_sum s' = err_sum s + file_errors raw"
proof -
  obtain r where r: "decode_frame_edge_track raw = Some r" using decode_total [OF assms(1)] by blast
  show ?thesis
  proof (cases "\<exists>frame. r = Some frame \<and> fcs_ok frame")
    case False
    then show ?thesis using r assms(2)
      by (cases r) (auto simp: score_file_def good_file_def file_errors_def err_sum_def)
  next
    case True
    then obtain frame where f: "r = Some frame" "fcs_ok frame" by blast
    let ?s = "s\<lparr>n_total := n_total s + 1, n_ok := n_ok s + 1\<rparr>" and ?js = "[0..<min (length frame - 42 - 4) 1472]"
    have "length (bins_err ?s) = 8" "err_sum ?s + length ?js < 2 ^ 32" using assms(2,3) by (simp_all add: err_sum_def)
    note b = score_bytes [OF this, of frame]
    have "err_sum ?s = err_sum s" by (simp add: err_sum_def)
    moreover have "wrong_bytes frame = 0" if "\<not> 46 \<le> length frame" using that by (simp add: wrong_bytes_def)
    ultimately show ?thesis
      using r f b assms(2)
      by (cases "46 \<le> length frame") (simp_all add: score_file_def good_file_def file_errors_def wrong_bytes_def)
  qed
qed

lemma score_files_ok:
  "[] \<notin> set raws \<Longrightarrow> length (bins_err s) = 8 \<Longrightarrow> err_sum s + 1472 * length raws < 2 ^ 32 \<Longrightarrow>
     \<exists>s'. score_files raws s = Some s' \<and> length (bins_err s') = 8 \<and> n_total s' = n_total s + length raws
       \<and> n_ok s' = n_ok s + length (filter good_file raws) \<and> err_sum s' = err_sum s + sum_list (map file_errors raws)"
proof (induction raws arbitrary: s)
  case (Cons raw raws)
  have "raw \<noteq> []" "err_sum s + 1472 < 2 ^ 32" using Cons.prems by auto
  from score_file_ok [OF this(1) Cons.prems(2) this(2)] obtain s1 where s1:
    "score_file raw s = Some s1" "length (bins_err s1) = 8" "n_total s1 = n_total s + 1"
    "n_ok s1 = n_ok s + (if good_file raw then 1 else 0)" "err_sum s1 = err_sum s + file_errors raw" by blast
  have "err_sum s1 + 1472 * length raws < 2 ^ 32" using s1(5) file_errors_le [of raw] Cons.prems(3) by simp
  from Cons.IH [OF _ s1(2) this] Cons.prems(1) s1 show ?case by auto
qed simp

lemma wrong_bytes_0:
  "wrong_bytes frame = 0 \<longleftrightarrow> (\<forall>j < min (length frame - 46) 1472. frame ! (42 + j) = of_nat j)"
  by (auto simp: wrong_bytes_def filter_empty_conv)

section \<open>Properties\<close>

text \<open>C39. The validator's verdict: on non-empty captures (fewer than 2^32 / 1472 of them, so that its counters cannot wrap)
  it ends, and it passes exactly if there is a capture and every one decodes to a frame with a right FCS, as its own
  CRC and hence the firmware's finds, whose payload bytes count up from 0.\<close>

theorem validator_verdict:
  assumes "[] \<notin> set corpus" and "1472 * length corpus < 2 ^ 32"
  shows "\<exists>code. validator_main corpus = Some code \<and> (code = 0 \<longleftrightarrow> corpus \<noteq> [] \<and> (\<forall>raw \<in> set corpus.
    \<exists>frame. decode_frame_edge_track raw = Some (Some frame) \<and> fcs_ok frame
      \<and> (\<forall>j < min (length frame - 46) 1472. frame ! (42 + j) = of_nat j)))"
proof (cases "corpus = []")
  case False
  have z: "length (bins_err no_scores) = 8" "err_sum no_scores = 0" by (simp_all add: no_scores_def err_sum_def)
  from score_files_ok [OF assms(1) z(1)] assms(2) z(2) obtain s where s:
    "score_files corpus no_scores = Some s" "n_total s = length corpus" "n_ok s = length (filter good_file corpus)"
    "err_sum s = sum_list (map file_errors corpus)" by (auto simp: no_scores_def)
  have ok: "n_ok s = n_total s \<longleftrightarrow> (\<forall>raw \<in> set corpus. good_file raw)"
    unfolding s(2,3) by (metis filter_id_conv filter_True length_filter_less nat_neq_iff)
  have err: "list_all (\<lambda>e. e = 0) (bins_err s) \<longleftrightarrow> (\<forall>raw \<in> set corpus. file_errors raw = 0)"
  proof -
    have "list_all (\<lambda>e. e = 0) (bins_err s) \<longleftrightarrow> err_sum s = 0" by (auto simp: err_sum_def list_all_iff unat_eq_0)
    then show ?thesis unfolding s(4) by auto
  qed
  have each: "good_file raw \<and> file_errors raw = 0 \<longleftrightarrow> (\<exists>frame. decode_frame_edge_track raw = Some (Some frame)
      \<and> fcs_ok frame \<and> (\<forall>j < min (length frame - 46) 1472. frame ! (42 + j) = of_nat j))" for raw
    by (auto simp: good_file_def file_errors_def wrong_bytes_0)
  have "n_ok s = n_total s \<and> 0 < n_total s \<and> list_all (\<lambda>e. e = 0) (bins_err s)
      \<longleftrightarrow> (\<forall>raw \<in> set corpus. good_file raw \<and> file_errors raw = 0)"
    using ok err s(2) False by auto
  with False s(1) show ?thesis unfolding each [symmetric] by (simp add: validator_main_def Let_def)
qed (simp add: validator_main_def)

theorem validator_verdict_witness:
  "validator_main [replicate 9 0] = Some 1"
proof -
  have "first_anchor (replicate 9 0) 72 = Some None" by code_simp
  then have d: "decode_frame_edge_track (replicate 9 0) = Some None" by (simp add: decode_frame_edge_track_def)
  obtain code where c: "validator_main [replicate 9 0] = Some code" "code \<noteq> 0"
    using validator_verdict [of "[replicate 9 0]"] d by auto
  have "validator_main [replicate 9 0] = Some 0 \<or> validator_main [replicate 9 0] = Some 1"
    by (simp add: validator_main_def score_file_def d Let_def)
  with c show ?thesis by simp
qed

end
