(* ===== verification/OpenLoop.thy ===== *)
theory OpenLoop
  imports Dpll
begin

text \<open>
  \<^verbatim>\<open>EthRx::decode_frame\<close> of \<^verbatim>\<open>src/eth_rx.rs\<close>, the decoder of the \<^verbatim>\<open>decoder-openloop\<close> build at the default 60 MHz sampling: it
  locks to the first falling edge and reads every bit at a fixed stride of six samples. The outer option is
  \<^const>\<open>None\<close> if a read, checked or unchecked, leaves the buffer. The search for edge and delimiter is EthRx's; here it is
  also shown to be the one the DPLL decoder copies.
\<close>

section \<open>The decoder\<close>

definition SFD_SEARCH_BITS :: nat where "SFD_SEARCH_BITS = 1600"
definition HDR_BYTES :: nat where "HDR_BYTES = 18"

text \<open>The eight reads of a byte, with the running offset.\<close>

primrec pack_bits :: "bytes \<Rightarrow> nat list \<Rightarrow> nat \<Rightarrow> u8 \<Rightarrow> (u8 \<times> nat) option" where
  "pack_bits bs [] off byte = Some (byte, off)"
| "pack_bits bs (j # js) off byte = do {
     s \<leftarrow> sample_bit bs off;
     pack_bits bs js (off + SAMPLES_PER_BIT) (byte OR push_bit j (of_bool s))
   }"

definition declared_len :: "bytes \<Rightarrow> nat \<Rightarrow> nat" where
  "declared_len frame nframe_avail =
     (let etype = be16 (frame ! 12) (frame ! 13)
      in if etype = 0x0800 then max (14 + unat (be16 (frame ! 16) (frame ! 17)) + 4) 64
         else if etype = 0x0806 then 64
         else nframe_avail)"

definition vec_push :: "bytes \<Rightarrow> u8 \<Rightarrow> bytes" where
  "vec_push frame byte = (if length frame < MAX_FRAME_BYTES then frame @ [byte] else frame)"

function pack_frame :: "bytes \<Rightarrow> nat \<Rightarrow> nat \<Rightarrow> nat \<Rightarrow> nat \<Rightarrow> bytes \<Rightarrow> bytes option" where
  "pack_frame bs nframe_avail nframe i off frame =
     (if i < nframe then
        (case pack_bits bs [0..<8] off 0 of
           None \<Rightarrow> None
         | Some (byte, off) \<Rightarrow>
             (let frame = vec_push frame byte; i = i + 1;
                  nframe = (if i = HDR_BYTES then min (declared_len frame nframe_avail) nframe_avail else nframe)
              in pack_frame bs nframe_avail nframe i off frame))
      else Some frame)"
  by pat_completeness auto
termination
  by (relation "measure (\<lambda>(bs, avail, nframe, i, off, frame). max nframe avail - i)") auto

declare pack_frame.simps [simp del]

definition open_loop_decode_frame :: "bytes \<Rightarrow> nat \<Rightarrow> nat \<Rightarrow> bytes option option" where
  "open_loop_decode_frame bs base nbytes =
     (let base_bit = base * 8; buf_bits = length bs * 8
      in if buf_bits \<le> base_bit then Some None
         else
           (let nsamples = min (nbytes * 8) (buf_bits - base_bit)
            in do {
              fo \<leftarrow> find_first_falling_edge bs base_bit nsamples;
              case fo of
                None \<Rightarrow> Some None
              | Some f \<Rightarrow> do {
                  so \<leftarrow> find_sfd_end bs base_bit f nsamples SFD_SEARCH_BITS;
                  case so of
                    None \<Rightarrow> Some None
                  | Some sfd_end \<Rightarrow>
                      (let start_bit = sfd_end + 1;
                           limit = base_bit + nsamples;
                           first_off = base_bit + f + HB1_CENTER_OFFSET + SAMPLES_PER_BIT * start_bit;
                           avail_bits = (if first_off < limit
                             then (limit - 1 - first_off) div SAMPLES_PER_BIT + 1 else 0);
                           nframe_avail = min (avail_bits div 8) MAX_FRAME_BYTES
                       in map_option Some (pack_frame bs nframe_avail nframe_avail 0 first_off []))
                }
            }))"

section \<open>Reads\<close>

lemma sample_bit_val: "i < 8 * length bs \<Longrightarrow> sample_bit bs i = Some (samp bs i)"
  by (simp add: sample_bit_def samp_def less_mult_imp_div_less mult.commute)

text \<open>The byte at an offset: eight samples, six apart.\<close>

definition stride_byte :: "bytes \<Rightarrow> nat \<Rightarrow> u8" where
  "stride_byte bs off = horner_sum of_bool 2 (map (\<lambda>j. samp bs (off + 6 * j)) [0..<8])"

lemma bit_stride_byte: "j < 8 \<Longrightarrow> bit (stride_byte bs off) j = samp bs (off + 6 * j)"
  by (simp add: stride_byte_def bit_horner_sum_bit_word_iff)

lemma pack_bits_val:
  "off + 6 * n \<le> 8 * length bs + 5 \<Longrightarrow> m + n = 8 \<Longrightarrow>
     \<exists>b. pack_bits bs [m..<m + n] off byte = Some (b, off + 6 * n)
       \<and> (\<forall>j. bit b j = (bit byte j \<or> m \<le> j \<and> j < m + n \<and> samp bs (off + 6 * (j - m))))"
proof (induction n arbitrary: m off byte)
  case (Suc n)
  let ?b = "byte OR push_bit m (of_bool (samp bs off))"
  have "off < 8 * length bs" using Suc.prems(1) by simp
  note s = sample_bit_val [OF this]
  obtain b where b: "pack_bits bs [Suc m..<Suc m + n] (off + 6) ?b = Some (b, off + 6 + 6 * n)"
    "\<forall>j. bit b j = (bit ?b j \<or> Suc m \<le> j \<and> j < Suc m + n \<and> samp bs (off + 6 + 6 * (j - Suc m)))"
    using Suc.IH [of "off + 6" "Suc m" ?b] Suc.prems by auto
  have "bit b j = (bit byte j \<or> m \<le> j \<and> j < m + Suc n \<and> samp bs (off + 6 * (j - m)))" for j
  proof -
    consider "j < m" | "j = m" | "Suc m \<le> j" by linarith
    then show ?thesis
    proof cases
      case 3
      then have e: "6 + 6 * (j - Suc m) = 6 * (j - m)" by simp
      have "\<not> bit (push_bit m (of_bool (samp bs off)) :: u8) j" using 3 by (auto simp: bit_simps)
      then show ?thesis using 3 b(2) e by (simp add: bit_or_iff add.assoc)
    qed (use b(2) Suc.prems(2) in \<open>auto simp: bit_simps\<close>)
  qed
  moreover have "[m..<m + Suc n] = m # [Suc m..<Suc m + n]" by (simp add: upt_conv_Cons)
  ultimately show ?case using s b(1) by (intro exI [of _ b]) (simp add: SAMPLES_PER_BIT_def)
qed auto

lemma pack_byte:
  assumes "off + 43 \<le> 8 * length bs"
  shows "pack_bits bs [0..<8] off 0 = Some (stride_byte bs off, off + 48)"
proof -
  obtain b where b: "pack_bits bs [0..<8] off 0 = Some (b, off + 48)"
    "\<forall>j. bit b j = (j < 8 \<and> samp bs (off + 6 * j))"
    using pack_bits_val [of off 8 bs 0 0] assms by auto
  have "b = stride_byte bs off" by (rule bit_word_eqI) (simp add: b(2) bit_stride_byte)
  with b(1) show ?thesis by simp
qed

text \<open>What the loop returns: the bytes at a stride of 48 samples, as many as the header announces and the run holds.\<close>

definition stride_bytes :: "bytes \<Rightarrow> nat \<Rightarrow> nat \<Rightarrow> bytes" where
  "stride_bytes bs off n = map (\<lambda>i. stride_byte bs (off + 48 * i)) [0..<n]"

definition open_len :: "bytes \<Rightarrow> nat \<Rightarrow> nat \<Rightarrow> nat" where
  "open_len bs off avail =
     (if 18 \<le> avail then min (declared_len (stride_bytes bs off 18) avail) avail else avail)"

lemma length_stride_bytes [simp]: "length (stride_bytes bs off n) = n"
  by (simp add: stride_bytes_def)

lemma stride_bytes_Suc: "stride_bytes bs off (Suc n) = stride_bytes bs off n @ [stride_byte bs (off + 48 * n)]"
  by (simp add: stride_bytes_def)

lemma declared_len_ge: "18 \<le> avail \<Longrightarrow> 18 \<le> min (declared_len frame avail) avail"
  by (auto simp: declared_len_def Let_def)

lemma pack_frame_val:
  assumes avail: "avail \<le> MAX_FRAME_BYTES" and room: "0 < avail \<longrightarrow> off + 48 * avail \<le> 8 * length bs + 5"
  shows "i \<le> nframe \<Longrightarrow> nframe = (if i < 18 then avail else open_len bs off avail) \<Longrightarrow>
    pack_frame bs avail nframe i (off + 48 * i) (stride_bytes bs off i) = Some (stride_bytes bs off (open_len bs off avail))"
proof (induction "avail - i" arbitrary: i nframe)
  case 0
  have "open_len bs off avail \<le> avail" by (simp add: open_len_def)
  with 0 have "nframe = i" "open_len bs off avail = i" by (auto simp: open_len_def split: if_splits)
  then show ?case by (simp add: pack_frame.simps)
next
  case (Suc n)
  show ?case
  proof (cases "i < nframe")
    case False
    then have "nframe = open_len bs off avail" "nframe = i"
      using Suc.prems by (auto simp: open_len_def split: if_splits)
    then show ?thesis by (simp add: pack_frame.simps)
  next
    case True
    have i: "i < avail" using Suc.hyps(2) by simp
    have "off + 48 * i + 43 \<le> 8 * length bs" using room i by auto
    note byte = pack_byte [OF this]
    have push: "vec_push (stride_bytes bs off i) (stride_byte bs (off + 48 * i)) = stride_bytes bs off (Suc i)"
      using i avail by (simp add: vec_push_def stride_bytes_Suc)
    then have push17: "i = 17 \<longrightarrow> vec_push (stride_bytes bs off 17) (stride_byte bs (off + 816)) = stride_bytes bs off 18"
      by auto
    define nf where "nf = (if Suc i = 18 then min (declared_len (stride_bytes bs off (Suc i)) avail) avail else nframe)"
    have nf: "nf = (if Suc i < 18 then avail else open_len bs off avail)" "Suc i \<le> nf"
      using Suc.prems True i declared_len_ge [of avail "stride_bytes bs off 18"]
      by (auto simp: nf_def open_len_def split: if_splits)
    have "pack_frame bs avail nframe i (off + 48 * i) (stride_bytes bs off i)
        = pack_frame bs avail nf (Suc i) (off + 48 * Suc i) (stride_bytes bs off (Suc i))"
      using True push17 by (subst pack_frame.simps) (simp add: byte push nf_def HDR_BYTES_def Let_def add.assoc add.commute [of 48 "48 * i"])
    also have "\<dots> = Some (stride_bytes bs off (open_len bs off avail))"
      using Suc.hyps nf by (intro Suc.hyps(1)) auto
    finally show ?thesis .
  qed
qed

section \<open>The decoder by its samples\<close>

lemma find_first_falling_edge_total':
  "base < 8 * length bs \<Longrightarrow> base + nsamples \<le> 8 * length bs \<Longrightarrow> \<exists>r. find_first_falling_edge bs base nsamples = Some r"
  using sample_bit_val [of base bs] falling_edge_loop_total [of "[1..<nsamples]" base bs]
  by (auto simp: find_first_falling_edge_def)

lemma avail_fits:
  assumes "avail = min ((if off < limit then (limit - 1 - off) div 6 + 1 else 0) div 8) MAX_FRAME_BYTES" and "0 < avail"
  shows "off + 48 * avail \<le> limit + 5"
proof -
  have lt: "off < limit" using assms by (cases "off < limit") simp_all
  have "avail \<le> ((limit - 1 - off) div 6 + 1) div 8" using assms(1) lt by simp
  then have "8 * avail \<le> 8 * (((limit - 1 - off) div 6 + 1) div 8)" by simp
  also have "\<dots> \<le> (limit - 1 - off) div 6 + 1" by (rule times_div_less_eq_dividend)
  finally have "6 * (8 * avail) \<le> 6 * ((limit - 1 - off) div 6) + 6" by simp
  also have "\<dots> \<le> limit - 1 - off + 6" using times_div_less_eq_dividend [of 6 "limit - 1 - off"] by simp
  finally show ?thesis using lt by simp
qed

lemma open_loop_val:
  assumes base: "base < length bs" and n: "nsamples = min (nbytes * 8) (length bs * 8 - base * 8)"
    and f: "find_first_falling_edge bs (base * 8) nsamples = Some (Some f)"
    and sfd: "find_sfd_end bs (base * 8) f nsamples 1600 = Some (Some e)"
    and off: "off = base * 8 + f + 4 + 6 * (e + 1)"
    and avail: "avail = min ((if off < base * 8 + nsamples then (base * 8 + nsamples - 1 - off) div 6 + 1 else 0) div 8)
      MAX_FRAME_BYTES"
  shows "open_loop_decode_frame bs base nbytes = Some (Some (stride_bytes bs off (open_len bs off avail)))"
proof -
  have lim: "base * 8 + nsamples \<le> 8 * length bs" using base n by simp
  have "avail \<le> MAX_FRAME_BYTES" "0 < avail \<longrightarrow> off + 48 * avail \<le> 8 * length bs + 5"
    using avail avail_fits [OF avail] lim by auto
  from pack_frame_val [OF this, of 0 avail]
  have "pack_frame bs avail avail 0 off [] = Some (stride_bytes bs off (open_len bs off avail))"
    by (simp add: stride_bytes_def)
  moreover have "\<not> length bs * 8 \<le> base * 8" using base by simp
  ultimately show ?thesis
    unfolding open_loop_decode_frame_def Let_def if_not_P [OF \<open>\<not> length bs * 8 \<le> base * 8\<close>] n [symmetric] f
      SFD_SEARCH_BITS_def SAMPLES_PER_BIT_def HB1_CENTER_OFFSET_def
    by (simp only: sfd bind.bind_lunit option.case off [symmetric] avail [symmetric] option.map)
qed

text \<open>The two copies of the search agree.\<close>

lemma falling_edge_loop_eq:
  "\<forall>i \<in> set is. i < 8 * length bs \<Longrightarrow> falling_edge_loop bs 0 is p = find_f_loop bs is (of_bool p)"
  by (induction "is" arbitrary: p) (auto simp: sample_bit_val sample_checked_val)

lemma find_first_falling_edge_eq:
  "bs \<noteq> [] \<Longrightarrow> find_first_falling_edge bs 0 (8 * length bs) = find_f bs (8 * length bs)"
  by (simp add: find_first_falling_edge_def find_f_def sample_bit_val sample_checked_val falling_edge_loop_eq)

lemma data_bit_eq:
  "find_sfd_read bs (8 * length bs) f k = map_option (map_option of_bool) (data_bit bs 0 f k (8 * length bs))"
  by (simp add: find_sfd_read_def data_bit_def HB1_CENTER_OFFSET_def SAMPLES_PER_BIT_def Let_def sample_bit_val sample_checked_val)

lemma sfd_loop_eq:
  "sfd_loop bs 0 f (8 * length bs) ks p = find_sfd_loop bs (8 * length bs) f ks (of_bool p)"
proof (induction ks arbitrary: p)
  case (Cons k ks)
  then show ?case
    by (cases "data_bit bs 0 f k (8 * length bs)") (auto simp: data_bit_eq split: option.split)
qed simp

lemma find_sfd_end_eq: "find_sfd_end bs 0 f (8 * length bs) 1600 = find_sfd bs (8 * length bs) f"
  by (cases "data_bit bs 0 f 0 (8 * length bs)")
    (auto simp: find_sfd_end_def find_sfd_def data_bit_eq sfd_loop_eq split: option.split)


lemma open_loop_total:
  "\<exists>r. open_loop_decode_frame bs base nbytes = Some r \<and> (\<forall>frame. r = Some frame \<longrightarrow>
     length frame \<le> MAX_FRAME_BYTES \<and> (\<exists>off. frame = stride_bytes bs off (length frame)
       \<and> (frame \<noteq> [] \<longrightarrow> off + 48 * length frame \<le> 8 * min (length bs) (base + nbytes) + 5)))"
proof (cases "base < length bs")
  case False
  then show ?thesis by (simp add: open_loop_decode_frame_def)
next
  case True
  define ns where "ns = min (nbytes * 8) (length bs * 8 - base * 8)"
  have lim: "base * 8 < 8 * length bs" "base * 8 + ns \<le> 8 * length bs" using True unfolding ns_def by linarith+
  have upto: "base * 8 + ns = 8 * min (length bs) (base + nbytes)"
    using True unfolding ns_def by (cases "base + nbytes \<le> length bs") (auto simp: min_def)
  from find_first_falling_edge_total' [OF lim(1,2)] obtain fo where fo: "find_first_falling_edge bs (base * 8) ns = Some fo" ..
  have no: "\<not> length bs * 8 \<le> base * 8" using True by simp
  show ?thesis
  proof (cases fo)
    case None
    with fo no show ?thesis by (simp add: open_loop_decode_frame_def Let_def ns_def)
  next
    case f: (Some f)
    from find_sfd_end_total [OF lim(2), of f 1600] obtain so where so: "find_sfd_end bs (base * 8) f ns 1600 = Some so" ..
    show ?thesis
    proof (cases so)
      case None
      with fo f so no show ?thesis by (simp add: open_loop_decode_frame_def Let_def ns_def SFD_SEARCH_BITS_def)
    next
      case e: (Some e)
      define off where "off = base * 8 + f + 4 + 6 * (e + 1)"
      define avail where "avail = min ((if off < base * 8 + ns then (base * 8 + ns - 1 - off) div 6 + 1 else 0) div 8) MAX_FRAME_BYTES"
      have le: "open_len bs off avail \<le> avail" "avail \<le> MAX_FRAME_BYTES" by (simp add: open_len_def, simp add: avail_def)
      have "off + 48 * open_len bs off avail \<le> base * 8 + ns + 5" if "0 < open_len bs off avail"
        using avail_fits [OF avail_def] le(1) that by linarith
      moreover have "stride_bytes bs off (open_len bs off avail) \<noteq> [] \<longrightarrow> 0 < open_len bs off avail"
        by (auto simp: stride_bytes_def)
      ultimately show ?thesis
        unfolding open_loop_val [OF True ns_def fo [unfolded f] so [unfolded e] off_def avail_def] upto [symmetric]
        using order_trans [OF le] by auto
    qed
  qed
qed


section \<open>Signals it locks to\<close>

text \<open>Reads at a fixed stride that stay in the first halves of their bits see the bits.\<close>

lemma locked_read:
  "manchester buf s cs \<Longrightarrow> locked i s cs \<Longrightarrow> k < length cs \<Longrightarrow>
     samp buf (i + 6 * k) = fst (cs ! k) \<and> i + 6 * k < s + wave_len cs"
proof (induction cs arbitrary: i s k)
  case (Cons c cs)
  obtain d a b where c: "c = (d, a, b)" by (cases c)
  show ?case
  proof (cases k)
    case 0
    have h: "\<forall>i < a. samp buf (s + i) = d" "s \<le> i" "i < s + a" using Cons.prems(1,2) by (simp_all add: c)
    then have "samp buf (s + (i - s)) = d" by (elim allE [of _ "i - s"]) simp
    with h show ?thesis by (simp add: c 0)
  next
    case (Suc k')
    with Cons.IH [of "s + a + b" "i + 6" k'] Cons.prems show ?thesis by (simp add: c add.assoc)
  qed
qed simp

lemma locked_append: "locked i s (xs @ ys) \<longleftrightarrow> locked i s xs \<and> locked (i + 6 * length xs) (s + wave_len xs) ys"
  by (induction xs arbitrary: i s) (auto simp: add.assoc)

lemma nth_concat_bits: "i < length fr \<Longrightarrow> j < 8 \<Longrightarrow> concat (map bits_of fr) ! (8 * i + j) = bit (fr ! i) j"
proof (induction fr arbitrary: i)
  case (Cons b fr)
  have l: "length (bits_of b) = 8" by (simp add: bits_of_def)
  show ?case
  proof (cases i)
    case 0
    with Cons.prems l show ?thesis by (simp add: nth_append bits_of_def)
  next
    case (Suc i')
    with Cons.IH [of i'] Cons.prems l show ?thesis by (simp add: nth_append)
  qed
qed simp

lemma length_concat_bits: "length (concat (map bits_of fr)) = 8 * length fr"
  by (induction fr) (simp_all add: bits_of_def)

lemma stride_bytes_read:
  assumes "\<And>k. k < 8 * length fr \<Longrightarrow> samp bs (off + 6 * k) = concat (map bits_of fr) ! k" and "n \<le> length fr"
  shows "stride_bytes bs off n = take n fr"
proof (rule nth_equalityI)
  fix i assume "i < length (stride_bytes bs off n)"
  then have i: "i < n" "i < length fr" using assms(2) by simp_all
  have "stride_byte bs (off + 48 * i) = fr ! i"
  proof (rule bit_word_eqI)
    fix j assume "j < LENGTH(8)"
    then have j: "j < 8" by simp
    have "off + 48 * i + 6 * j = off + 6 * (8 * i + j)" by simp
    moreover have "8 * i + j < 8 * length fr" using i(2) j by simp
    ultimately show "bit (stride_byte bs (off + 48 * i)) j = bit (fr ! i) j"
      using assms(1) [of "8 * i + j"] nth_concat_bits [OF i(2) j] bit_stride_byte [OF j] by metis
  qed
  with i assms(2) show "stride_bytes bs off n ! i = take n fr ! i" by (simp add: stride_bytes_def)
qed (use assms(2) in simp)

text \<open>The length a header announces, for the two types the decoder knows.\<close>

definition announced :: "bytes \<Rightarrow> nat" where
  "announced fr = declared_len fr 0"

definition known_type :: "bytes \<Rightarrow> bool" where
  "known_type fr \<longleftrightarrow> be16 (fr ! 12) (fr ! 13) \<in> {0x0800, 0x0806}"

lemma open_loop_decodes_wave:
  assumes wave: "frame_wave buf p a b pre dat"
    and pre: "map fst pre = preamble_bits (Suc n)" "2 * Suc n < 1600"
    and lock: "locked (p + a + 4) (p + a + b) (pre @ dat)"
    and dat: "map fst dat = concat (map bits_of fr)"
    and len: "known_type fr" "18 \<le> length fr" "announced fr \<le> length fr" "announced fr \<le> MAX_FRAME_BYTES"
  shows "open_loop_decode_frame buf 0 (length buf) = Some (Some (take (announced fr) fr))"
proof -
  let ?ns = "8 * length buf" and ?f = "p + a" and ?s = "p + a + b + wave_len pre"
  define off where "off = 0 * 8 + ?f + 4 + 6 * (2 * Suc n + 1)"
  have w: "manchester buf (p + a + b) pre" "manchester buf ?s dat" "?s + wave_len dat + 2 \<le> ?ns"
    using wave by (simp_all add: frame_wave_def manchester_append)
  have l: "length pre = 2 * Suc n + 1" using pre(1) by (metis length_map length_preamble_bits)
  have lock': "locked (?f + 4) (p + a + b) pre" "locked off ?s dat"
    using lock l by (simp_all add: locked_append off_def)
  have ld: "length dat = 8 * length fr" using dat length_concat_bits by (metis length_map)
  have read: "samp buf (off + 6 * k) = concat (map bits_of fr) ! k" "off + 6 * k + 2 < ?ns" if "k < 8 * length fr" for k
  proof -
    note r = locked_read [OF w(2) lock'(2), of k]
    with that ld show "off + 6 * k + 2 < ?ns" using w(3) by auto
    have "fst (dat ! k) = map fst dat ! k" using that ld by simp
    with r that ld dat show "samp buf (off + 6 * k) = concat (map bits_of fr) ! k" by simp
  qed
  have ne: "buf \<noteq> []" using w(3) by auto
  define ns where "ns = min (length buf * 8) (length buf * 8 - 0 * 8)"
  have ns: "ns = ?ns" by (simp add: ns_def)
  have f: "find_first_falling_edge buf (0 * 8) ns = Some (Some ?f)"
    using frame_wave_f [OF wave] find_first_falling_edge_eq [OF ne] ns by simp
  have sfd: "find_sfd_end buf (0 * 8) ?f ns 1600 = Some (Some (2 * Suc n))"
    using find_sfd_hit [OF pre(1) w(1) lock'(1) _ pre(2)] w(3) by (simp add: find_sfd_end_eq ns)
  define avail where "avail = min ((if off < 0 * 8 + ns then (0 * 8 + ns - 1 - off) div 6 + 1 else 0) div 8) MAX_FRAME_BYTES"
  have "off + 6 * (8 * length fr - 1) + 2 < ?ns" using read(2) [of "8 * length fr - 1"] len(2) by simp
  then have "6 * (8 * length fr - 1) \<le> ns - 1 - off" "off < ns" unfolding ns by linarith+
  then have "8 * length fr - 1 \<le> (ns - 1 - off) div 6" by (simp add: less_eq_div_iff_mult_less_eq mult.commute)
  then have "8 * length fr \<le> (ns - 1 - off) div 6 + 1" by linarith
  then have "min (length fr) MAX_FRAME_BYTES \<le> avail"
    using \<open>off < ns\<close> div_le_mono [of "8 * length fr" _ 8] by (auto simp: avail_def)
  then have av: "18 \<le> avail" "announced fr \<le> avail" using len by (auto simp: MAX_FRAME_BYTES_def)
  have "stride_bytes buf off 18 = take 18 fr" by (rule stride_bytes_read [OF read(1) len(2)])
  then have "open_len buf off avail = announced fr"
    using av len(1) by (auto simp: open_len_def announced_def declared_len_def known_type_def Let_def)
  moreover have "stride_bytes buf off (announced fr) = take (announced fr) fr"
    by (rule stride_bytes_read [OF read(1) len(3)])
  ultimately show ?thesis
    using open_loop_val [OF _ ns_def f sfd off_def avail_def] ne by simp
qed


text \<open>On a capture at the nominal rate both decoders return the frame that was sent.\<close>

lemma decoders_agree:
  assumes ws: "ws = replicate p idle @ cell_samples (True # preamble_bits (Suc n) @ concat (map bits_of fr)) @ post"
    and post: "9 \<le> length post" and n: "2 * Suc n < 1600" and size: "length ws < 2 ^ 32"
    and ip: "be16 (fr ! 12) (fr ! 13) = 0x0800" and len: "18 \<le> length fr" "length fr = announced fr" "length fr \<le> MAX_FRAME_BYTES"
  shows "open_loop_decode_frame (capture ws) 0 (length (capture ws)) = Some (Some fr)
    \<and> decode_frame_edge_track (capture ws) = Some (Some fr)"
proof
  note wave = frame_wave_exact [OF ws post]
  have "locked (p + 3 + 4) (p + 3 + 3) (exact (preamble_bits (Suc n)) @ exact (concat (map bits_of fr)))"
    unfolding exact_simps(3) [symmetric] by (rule locked_exact) simp_all
  from open_loop_decodes_wave [OF wave exact_simps(4) n this exact_simps(4)] ip len
  show "open_loop_decode_frame (capture ws) 0 (length (capture ws)) = Some (Some fr)" by (simp add: known_type_def)
  have "frame_cap fr = announced fr"
    using ip len by (simp add: frame_cap_def announced_def declared_len_def)
  moreover have "fr \<noteq> []" using len(1) by auto
  ultimately show "decode_frame_edge_track (capture ws) = Some (Some fr)"
    using decode_capture [OF ws post n _ size] len(2) by auto
qed

section \<open>Properties\<close>

lemma open_loop_total_frame:
  "\<exists>r. open_loop_decode_frame bs base nbytes = Some r \<and> (case r of
     None \<Rightarrow> True
   | Some frame \<Rightarrow> length frame \<le> MAX_FRAME_BYTES \<and> (\<exists>off. frame = stride_bytes bs off (length frame)
       \<and> (frame = [] \<or> off + 48 * (length frame - 1) + 42 < 8 * min (length bs) (base + nbytes))))"
proof -
  obtain r where r: "open_loop_decode_frame bs base nbytes = Some r" "\<forall>frame. r = Some frame \<longrightarrow>
     length frame \<le> MAX_FRAME_BYTES \<and> (\<exists>off. frame = stride_bytes bs off (length frame)
       \<and> (frame \<noteq> [] \<longrightarrow> off + 48 * length frame \<le> 8 * min (length bs) (base + nbytes) + 5))"
    using open_loop_total by blast
  show ?thesis
  proof (cases r)
    case (Some frame)
    with r(2) obtain off where off: "length frame \<le> MAX_FRAME_BYTES" "frame = stride_bytes bs off (length frame)"
      "frame \<noteq> [] \<longrightarrow> off + 48 * length frame \<le> 8 * min (length bs) (base + nbytes) + 5" by auto
    have "frame = [] \<or> off + 48 * (length frame - 1) + 42 < 8 * min (length bs) (base + nbytes)"
      using off(3) by (cases frame) auto
    with r(1) off(1,2) Some show ?thesis by auto
  qed (use r(1) in simp)
qed

text \<open>C38. The open-loop decoder answers on every buffer and every run in it, including runs that reach past the end: no read,
  checked or unchecked, leaves the buffer. A frame has at most 1600 bytes, which are the samples at a fixed stride from one
  offset, all of them inside the run. And it decodes what it can lock to: a capture in which the fixed stride stays in the first
  half of every bit, preamble and data alike, gives the bytes that were sent, up to the length the header announces. Unlike the
  DPLL decoder it does not follow the edges, so drift must not add up to half a bit over the frame.\<close>

theorem open_loop_decodes:
  "(\<exists>r. open_loop_decode_frame buf base nbytes = Some r \<and> (case r of
      None \<Rightarrow> True
    | Some frame \<Rightarrow> length frame \<le> MAX_FRAME_BYTES \<and> (\<exists>off. frame = stride_bytes buf off (length frame)
        \<and> (frame = [] \<or> off + 48 * (length frame - 1) + 42 < 8 * min (length buf) (base + nbytes)))))
    \<and> (frame_wave buf p a b pre dat \<and> base = 0 \<and> nbytes = length buf
       \<and> map fst pre = preamble_bits (Suc n) \<and> 2 * Suc n < 1600
       \<and> locked (p + a + 4) (p + a + b) (pre @ dat) \<and> map fst dat = concat (map bits_of fr)
       \<and> known_type fr \<and> 18 \<le> length fr \<and> announced fr \<le> length fr \<and> announced fr \<le> MAX_FRAME_BYTES
       \<longrightarrow> open_loop_decode_frame buf base nbytes = Some (Some (take (announced fr) fr)))"
  (is "?sound \<and> (?wave \<longrightarrow> ?decodes)")
proof (intro conjI impI)
  show ?sound by (rule open_loop_total_frame)
  assume w: ?wave
  from w have b: "base = 0 \<and> nbytes = length buf" by (elim conjE) (intro conjI)
  from w show ?decodes unfolding conjunct1 [OF b] conjunct2 [OF b] by (elim conjE) (rule open_loop_decodes_wave)
qed

theorem open_loop_decodes_witness:
  "let buf = capture (replicate 5 True @ cell_samples (True # preamble_bits (Suc 30)
      @ concat (map bits_of sample_frame)) @ replicate 20 True)
   in open_loop_decode_frame buf 0 (length buf) = Some (Some sample_frame)"
proof -
  let ?d = "concat (map bits_of sample_frame)"
  let ?ws = "replicate 5 True @ cell_samples (True # preamble_bits (Suc 30) @ ?d) @ replicate 20 True"
  have l: "length sample_frame = 64" by (simp add: sample_frame_def)
  have a: "announced sample_frame = 64" "known_type sample_frame" by code_simp+
  have "open_loop_decode_frame (capture ?ws) 0 (length (capture ?ws)) = Some (Some (take (announced sample_frame) sample_frame))"
  proof (rule conjunct2 [OF open_loop_decodes [where n = 30 and dat = "exact ?d"], THEN mp], intro conjI)
    show "frame_wave (capture ?ws) 5 3 3 (exact (preamble_bits (Suc 30))) (exact ?d)"
      by (rule frame_wave_exact [OF refl]) simp
    show "locked (5 + 3 + 4) (5 + 3 + 3) (exact (preamble_bits (Suc 30)) @ exact ?d)"
      unfolding exact_simps(3) [symmetric] by (rule locked_exact) simp_all
  qed (simp_all add: a l MAX_FRAME_BYTES_def)
  then show ?thesis by (simp add: a(1) l)
qed

end
