(* ===== verification/Clock.thy ===== *)
theory Clock
  imports Prelude Complex_Main "HOL-Library.Log_Nat"
begin

text \<open>
  Start-up: the clock divider of the state machines (\<^verbatim>\<open>src/pio_util.rs\<close>).
\<close>

section \<open>Single-precision numbers\<close>

text \<open>Positive \<^verbatim>\<open>f32\<close> values as rationals: a result is rounded to 24 significant bits, ties to even.\<close>

definition f32_exp :: "rat \<Rightarrow> int" where
  "f32_exp x = (if 1 \<le> x then int (floorlog 2 (nat \<lfloor>x\<rfloor>)) - 1 else - int (floorlog 2 (nat (\<lceil>1 / x\<rceil> - 1))))"

definition f32_ulp :: "rat \<Rightarrow> rat" where
  "f32_ulp x = 2 powi (f32_exp x - 23)"

definition round_even :: "rat \<Rightarrow> int" where
  "round_even y = (let n = \<lfloor>y\<rfloor>; d = y - of_int n in if d < 1 / 2 \<or> d = 1 / 2 \<and> even n then n else n + 1)"

definition f32 :: "rat \<Rightarrow> rat" where
  "f32 x = (if x = 0 then 0 else of_int (round_even (x / f32_ulp x)) * f32_ulp x)"

definition sat_cast :: "nat \<Rightarrow> rat \<Rightarrow> nat" where
  "sat_cast m x = min m (nat \<lfloor>x\<rfloor>)"

definition clock_divider :: "u32 \<Rightarrow> rat \<Rightarrow> u16 \<times> u8" where
  "clock_divider sys_clk_hz target_hz =
     (let ratio = f32 (f32 (of_nat (unat sys_clk_hz)) / target_hz);
          div_int = of_nat (sat_cast 0xFFFF ratio);
          div_frac = of_nat (sat_cast 0xFF (f32 (f32 (ratio - of_nat (unat div_int)) * 256)))
      in (div_int, div_frac))"

lemma floorlog_bounds:
  assumes "0 < n"
  shows "2 ^ (floorlog 2 n - 1) \<le> n" and "n < 2 ^ floorlog 2 n" and "0 < floorlog 2 n"
proof -
  show "0 < floorlog 2 n" using assms by (simp add: floorlog_def)
qed (use floorlog_bounds [of n 2] assms in auto)

lemma f32_exp_bounds:
  assumes "0 < x"
  shows "2 powi f32_exp x \<le> x \<and> x < 2 powi (f32_exp x + 1)"
proof (cases "1 \<le> x")
  case True
  define n where "n = nat \<lfloor>x\<rfloor>"
  have n: "0 < n" "of_nat n \<le> x" "x < of_nat n + 1" using True unfolding n_def by linarith+
  note b = floorlog_bounds [OF n(1)]
  have e: "f32_exp x + 1 = int (floorlog 2 n)" "f32_exp x = int (floorlog 2 n - 1)" using True b(3) by (simp_all add: f32_exp_def n_def)
  have "(2::rat) ^ (floorlog 2 n - 1) \<le> of_nat n" using b(1) by (metis of_nat_le_iff of_nat_numeral of_nat_power)
  moreover have "of_nat n + 1 \<le> (2::rat) ^ floorlog 2 n" using b(2) by (metis Suc_leI of_nat_Suc add.commute of_nat_le_iff of_nat_numeral of_nat_power)
  ultimately show ?thesis using n unfolding e(1) unfolding e(2) power_int_of_nat by linarith
next
  case False
  define c where "c = nat (\<lceil>1 / x\<rceil> - 1)"
  have x: "1 < 1 / x" using False assms by simp
  then have c: "0 < c" "of_nat c < 1 / x" "1 / x \<le> of_nat c + 1" unfolding c_def by linarith+
  note b = floorlog_bounds [OF c(1)]
  have e: "f32_exp x + 1 = - int (floorlog 2 c - 1)" "f32_exp x = - int (floorlog 2 c)" using False b(3) by (simp_all add: f32_exp_def c_def)
  have "(2::rat) ^ (floorlog 2 c - 1) \<le> of_nat c" using b(1) by (metis of_nat_le_iff of_nat_numeral of_nat_power)
  then have l: "(2::rat) ^ (floorlog 2 c - 1) < 1 / x" using c by linarith
  have "of_nat c + 1 \<le> (2::rat) ^ floorlog 2 c" using b(2) by (metis Suc_leI of_nat_Suc add.commute of_nat_le_iff of_nat_numeral of_nat_power)
  then have u: "1 / x \<le> (2::rat) ^ floorlog 2 c" using c by linarith
  show ?thesis unfolding e(1) unfolding e(2) power_int_minus power_int_of_nat using l u assms by (simp add: field_simps)
qed


text \<open>Values with at most 24 significant bits are kept.\<close>

definition f32_value :: "rat \<Rightarrow> bool" where
  "f32_value x \<longleftrightarrow> (\<exists>(m::nat) k. m \<le> 2 ^ 24 \<and> x = of_nat m * 2 powi k)"

lemma round_even_of_int [simp]: "round_even (of_int n) = n"
  by (simp add: round_even_def)

lemma round_even_error: "\<bar>of_int (round_even y) - y\<bar> \<le> 1 / 2"
proof -
  have "of_int \<lfloor>y\<rfloor> \<le> y" "y < of_int \<lfloor>y\<rfloor> + 1" by linarith+
  then show ?thesis unfolding round_even_def Let_def abs_le_iff by (simp split: if_splits) linarith?
qed

lemma powi_le_imp: "(2::rat) powi a \<le> 2 powi b \<Longrightarrow> a \<le> b"
  using power_int_strict_increasing [of b a "2::rat"] by fastforce

lemma powi_less_imp: "(2::rat) powi a < 2 powi b \<Longrightarrow> a < b"
  using power_int_increasing [of b a "2::rat"] by fastforce

lemma powi_split: "a \<le> b \<Longrightarrow> (2::rat) powi b = of_int (2 ^ nat (b - a)) * 2 powi a"
  using power_int_add [of "2::rat" "b - a" a] by (simp add: power_int_def)

lemma f32_ulp_pos [simp]: "0 < f32_ulp x"
  by (simp add: f32_ulp_def)

lemma f32_ulp_nonzero [simp]: "f32_ulp x \<noteq> 0" "\<bar>f32_ulp x\<bar> = f32_ulp x"
  using f32_ulp_pos [of x] by (auto simp del: f32_ulp_pos)

lemma f32_exact:
  assumes "f32_value x"
  shows "f32 x = x"
proof (cases "x = 0")
  case False
  obtain m :: nat and k where m: "m \<le> 2 ^ 24" "x = of_nat m * 2 powi k" using assms by (auto simp: f32_value_def)
  have "0 < m" using m(2) False by (cases m) auto
  then have x: "0 < x" by (simp add: m(2))
  have "(of_nat m :: rat) \<le> 2 ^ 24" using m(1) by (metis of_nat_le_iff of_nat_numeral of_nat_power)
  then have "x \<le> 2 ^ 24 * 2 powi k" by (simp add: m(2))
  also have "\<dots> = 2 powi (24 + k)" by (simp add: power_int_add)
  finally have e: "f32_exp x \<le> 24 + k" using f32_exp_bounds [OF x] powi_le_imp order_trans by blast
  have "\<exists>n::int. x = of_int n * f32_ulp x"
  proof (cases "f32_exp x - 23 \<le> k")
    case True
    have "2 powi k = of_int (2 ^ nat (k - (f32_exp x - 23))) * f32_ulp x" unfolding f32_ulp_def by (rule powi_split [OF True])
    with m(2) have "x = of_int (int m * 2 ^ nat (k - (f32_exp x - 23))) * f32_ulp x" by simp
    then show ?thesis by (rule exI)
  next
    case False
    then have k: "f32_exp x = 24 + k" using e by simp
    have "2 ^ 24 * 2 powi k \<le> x" using f32_exp_bounds [OF x] unfolding k by (simp add: power_int_add)
    then have "x = 2 powi f32_exp x" using \<open>x \<le> 2 ^ 24 * 2 powi k\<close> unfolding k by (simp add: power_int_add)
    then have "x = of_int (2 ^ 23) * f32_ulp x" unfolding f32_ulp_def using powi_split [of "f32_exp x - 23" "f32_exp x"] by simp
    then show ?thesis by blast
  qed
  then obtain n :: int where n: "x = of_int n * f32_ulp x" by blast
  then have "x / f32_ulp x = of_int n" by (simp add: field_simps)
  then show ?thesis using n False by (simp add: f32_def)
qed (simp add: f32_def)

text \<open>Rounding moves a value by at most 2^-24 of it and gives a value with 24 significant bits.\<close>

lemma f32_error:
  assumes "0 < x"
  shows "\<bar>f32 x - x\<bar> \<le> x / 2 ^ 24"
proof -
  let ?u = "f32_ulp x"
  have "f32 x - x = (of_int (round_even (x / ?u)) - x / ?u) * ?u"
    using assms f32_ulp_pos [of x] by (simp add: f32_def left_diff_distrib)
  then have "\<bar>f32 x - x\<bar> = \<bar>of_int (round_even (x / ?u)) - x / ?u\<bar> * ?u" by (simp add: abs_mult)
  also have "\<dots> \<le> 1 / 2 * ?u" using round_even_error [of "x / ?u"] f32_ulp_pos [of x] by (intro mult_right_mono) linarith+
  also have "\<dots> \<le> x / 2 ^ 24"
  proof -
    have "2 powi (24 + (f32_exp x - 24)) \<le> x" using f32_exp_bounds [OF assms] by simp
    then have "2 ^ 24 * 2 powi (f32_exp x - 24) \<le> x" by (subst (asm) power_int_add) simp_all
    moreover have "?u = 2 * 2 powi (f32_exp x - 24)"
      unfolding f32_ulp_def using powi_split [of "f32_exp x - 24" "f32_exp x - 23"] by simp
    ultimately show ?thesis by (simp add: field_simps)
  qed
  finally show ?thesis .
qed

lemma f32_is_value:
  assumes "0 < x"
  shows "f32_value (f32 x)" and "0 \<le> f32 x"
proof -
  let ?u = "f32_ulp x" and ?n = "round_even (x / f32_ulp x)"
  have "x < 2 ^ 24 * ?u" using f32_exp_bounds [OF assms] powi_split [of "f32_exp x - 23" "f32_exp x + 1"] by (simp add: f32_ulp_def)
  then have y: "0 < x / ?u" "x / ?u < 2 ^ 24" using assms by (simp_all add: field_simps)
  then have n: "0 \<le> ?n" "?n \<le> 2 ^ 24" unfolding round_even_def Let_def by (auto simp: le_floor_iff floor_less_iff)
  then have "f32 x = of_nat (nat ?n) * 2 powi (f32_exp x - 23)" "nat ?n \<le> 2 ^ 24"
    using assms by (simp_all add: f32_def f32_ulp_def nat_le_iff)
  then show "f32_value (f32 x)" "0 \<le> f32 x" unfolding f32_value_def by (blast, simp)
qed

section \<open>The divider\<close>

lemma f32_value_of_nat: "n \<le> 2 ^ 24 \<Longrightarrow> f32_value (of_nat n * 2 powi k)"
  by (auto simp: f32_value_def)

text \<open>The fraction of a value is a value, and so is 256 times one: the divider loses nothing there.\<close>

lemma f32_value_frac:
  assumes v: "f32_value x" and x: "0 \<le> x"
  shows "f32_value (x - of_nat (nat \<lfloor>x\<rfloor>))"
proof -
  obtain m :: nat and k where m: "m \<le> 2 ^ 24" "x = of_nat m * 2 powi k" using v by (auto simp: f32_value_def)
  have fl: "0 \<le> \<lfloor>x\<rfloor>" "of_nat (nat \<lfloor>x\<rfloor>) = (of_int \<lfloor>x\<rfloor> :: rat)" using x by simp_all
  show ?thesis
  proof (cases "0 \<le> k")
    case True
    then have "(2::rat) powi k = of_int (2 ^ nat k)" by (simp add: power_int_def)
    with m(2) have "x = of_int (int m * 2 ^ nat k)" by simp
    then have "\<lfloor>x\<rfloor> = int m * 2 ^ nat k" by (simp only: floor_of_int)
    then have "x - of_nat (nat \<lfloor>x\<rfloor>) = 0" using fl(2) \<open>x = of_int (int m * 2 ^ nat k)\<close> by (simp only:)
    then show ?thesis unfolding f32_value_def by (intro exI [of _ 0]) simp
  next
    case False
    define p where "p = (2::int) ^ nat (- k)"
    have one: "of_int p * 2 powi k = (1::rat)" using False by (simp add: p_def power_int_def flip: power_mult_distrib)
    define z where "z = \<lfloor>x\<rfloor>"
    have "of_int z = of_int z * (of_int p * (2::rat) powi k)" unfolding one by simp
    then have d: "x - of_int z = of_int (int m - z * p) * 2 powi k" unfolding m(2) by (simp add: left_diff_distrib mult.assoc)
    have "0 \<le> x - of_int z" by (simp add: z_def)
    moreover have "(0::rat) < 2 powi k" by simp
    ultimately have "(0::rat) \<le> of_int (int m - z * p)" unfolding d zero_le_mult_iff by linarith
    then have ge: "0 \<le> int m - z * p" by (simp only: of_int_0_le_iff)
    have "0 \<le> z * p" using fl(1) by (simp add: p_def z_def)
    then have "nat (int m - z * p) \<le> m" by simp
    moreover have "int m - z * p = int (nat (int m - z * p))" using ge by simp
    ultimately obtain n where n: "int m - z * p = int n" "n \<le> m" by blast
    have "x - of_nat (nat \<lfloor>x\<rfloor>) = of_int (int m - z * p) * 2 powi k" using d unfolding fl(2) z_def .
    then have "x - of_nat (nat \<lfloor>x\<rfloor>) = of_nat n * 2 powi k" unfolding n(1) by simp
    moreover have "n \<le> 2 ^ 24" using n(2) m(1) by linarith
    ultimately show ?thesis unfolding f32_value_def by blast
  qed
qed

lemma f32_value_256: "f32_value x \<Longrightarrow> f32_value (x * 256)"
proof -
  assume "f32_value x"
  then obtain m :: nat and k where m: "m \<le> 2 ^ 24" "x = of_nat m * 2 powi k" by (auto simp: f32_value_def)
  have "x * 256 = of_nat m * 2 powi (k + 8)" by (simp add: m(2) power_int_add)
  then show ?thesis using m(1) by (simp add: f32_value_of_nat)
qed

lemma divider_of_value:
  assumes v: "f32_value D" and D: "0 \<le> D" "D < 65536" and d: "f32 (f32 (of_nat (unat sys)) / target) = D"
    and r: "clock_divider sys target = (i, f)"
  shows "unat i = nat \<lfloor>D\<rfloor>" and "unat f = nat \<lfloor>(D - of_nat (unat i)) * 256\<rfloor>"
proof -
  have fl: "0 \<le> \<lfloor>D\<rfloor>" "\<lfloor>D\<rfloor> < 65536" using D by (simp_all add: floor_less_iff)
  then have "nat \<lfloor>D\<rfloor> \<le> 65535" by linarith
  then have c: "sat_cast 0xFFFF D = nat \<lfloor>D\<rfloor>" by (simp add: sat_cast_def)
  then have i: "i = of_nat (nat \<lfloor>D\<rfloor>)" using r unfolding clock_divider_def d Let_def c by simp
  moreover have "nat \<lfloor>D\<rfloor> < 2 ^ 16" using \<open>nat \<lfloor>D\<rfloor> \<le> 65535\<close> by simp
  ultimately show u: "unat i = nat \<lfloor>D\<rfloor>" by (simp add: unsigned_of_nat take_bit_eq_mod)
  let ?x = "D - of_nat (unat i)"
  have frac: "0 \<le> ?x" "?x < 1" unfolding u using fl by linarith+
  have x: "f32_value ?x" unfolding u by (rule f32_value_frac [OF v D(1)])
  have "f32 (f32 ?x * 256) = ?x * 256" by (simp only: f32_exact [OF x] f32_exact [OF f32_value_256 [OF x]])
  moreover have fx: "0 \<le> \<lfloor>?x * 256\<rfloor>" "\<lfloor>?x * 256\<rfloor> < 256" using frac by (simp_all add: floor_less_iff)
  ultimately have "f = of_nat (nat \<lfloor>?x * 256\<rfloor>)" 
    using r unfolding clock_divider_def d Let_def c i [symmetric] by (simp add: sat_cast_def nat_le_iff min_absorb2)
  moreover have "nat \<lfloor>?x * 256\<rfloor> < 2 ^ 8" using fx by (simp add: nat_less_iff)
  ultimately show "unat f = nat \<lfloor>?x * 256\<rfloor>" by (simp only: unsigned_of_nat take_bit_eq_mod) simp
qed

lemma near_trans: "\<bar>a - b\<bar> \<le> u \<Longrightarrow> \<bar>b - c\<bar> \<le> v \<Longrightarrow> \<bar>a - c\<bar> \<le> u + v" for a b c u v :: rat
  by linarith

lemma ratio_error:
  assumes "0 < s" and "0 < t"
  shows "0 < f32 s" and "\<bar>f32 (f32 s / t) - s / t\<bar> \<le> s / t / 2 ^ 22"
proof -
  have e: "\<bar>f32 s - s\<bar> \<le> s / 2 ^ 24" by (rule f32_error [OF assms(1)])
  have "s - f32 s \<le> s / 16777216" using abs_le_D2 [OF e] by simp
  then show pos: "0 < f32 s" using assms(1) by linarith
  have "\<bar>f32 s / t - s / t\<bar> = \<bar>f32 s - s\<bar> / t" using assms(2) by (simp add: diff_divide_distrib [symmetric] abs_divide)
  also have "\<dots> \<le> s / 2 ^ 24 / t" by (rule divide_right_mono [OF e]) (use assms in simp)
  finally have "\<bar>f32 s / t - s / t\<bar> \<le> (s / t) / 2 ^ 24" by (simp add: field_simps)
  moreover have "\<bar>f32 (f32 s / t) - f32 s / t\<bar> \<le> (f32 s / t) / 2 ^ 24" by (rule f32_error) (use pos assms in simp)
  moreover have "0 < s / t" using assms by simp
  ultimately show "\<bar>f32 (f32 s / t) - s / t\<bar> \<le> s / t / 2 ^ 22" by (simp add: abs_le_iff) linarith?
qed

lemma of_nat_div_mod: "(of_nat k :: rat) = 256 * of_nat (k div 256) + of_nat (k mod 256)"
proof -
  have "(of_nat k :: rat) = of_nat (256 * (k div 256) + k mod 256)" by (simp only: mult_div_mod_eq)
  then show ?thesis by (simp only: of_nat_add of_nat_mult of_nat_numeral)
qed

lemma divider_exact:
  assumes "f32_value (of_nat (unat sys))" and "0 < target" and "of_nat (unat sys) / target = of_nat k / 256" and "k < 65536 * 256"
  shows "clock_divider sys target = (of_nat (k div 256), of_nat (k mod 256))"
proof -
  define D :: rat where "D = of_nat k / 256"
  have "D = of_nat k * 2 powi (- 8)" by (simp add: D_def power_int_def power_one_over)
  moreover have "k \<le> 2 ^ 24" using assms(4) by simp
  ultimately have v: "f32_value D" unfolding f32_value_def by blast
  have D: "0 \<le> D" "D < 65536" using assms(4) by (simp_all add: D_def)
  have d: "f32 (f32 (of_nat (unat sys)) / target) = D"
    unfolding f32_exact [OF assms(1)] assms(3) D_def [symmetric] by (rule f32_exact [OF v])
  obtain i f where r: "clock_divider sys target = (i, f)" by (cases "clock_divider sys target") blast
  have "\<lfloor>D\<rfloor> = int (k div 256)" using floor_divide_of_nat_eq [of k 256, where 'a = rat] by (simp add: D_def)
  then have i: "unat i = k div 256" using divider_of_value(1) [OF v D d r] by simp
  note k = of_nat_div_mod [of k]
  have "(D - of_nat (k div 256)) * 256 = of_nat k - 256 * of_nat (k div 256)" by (simp add: D_def left_diff_distrib)
  then have "(D - of_nat (unat i)) * 256 = of_nat (k mod 256)" using k unfolding i by simp
  then have f: "unat f = k mod 256" using divider_of_value(2) [OF v D d r] by simp
  show ?thesis unfolding r i [symmetric] f [symmetric] by simp
qed

text \<open>Every divider of the firmware, at both system clocks: transmitter, sampler and carrier detector, gSPI.\<close>

lemma firmware_dividers:
  "clock_divider 240000000 20000000 = (12, 0)" "clock_divider 240000000 60000000 = (4, 0)" "clock_divider 240000000 30000000 = (8, 0)"
  "clock_divider 150000000 20000000 = (7, 128)" "clock_divider 150000000 60000000 = (2, 128)" "clock_divider 150000000 30000000 = (5, 0)"
proof -
  have v: "f32_value 240000000" unfolding f32_value_def by (rule exI [of _ 937500], rule exI [of _ 8]) simp
  have w: "f32_value 150000000" unfolding f32_value_def by (rule exI [of _ 1171875], rule exI [of _ 7]) simp
  show "clock_divider 240000000 20000000 = (12, 0)" using divider_exact [of 240000000 20000000 3072] v by simp
  show "clock_divider 240000000 60000000 = (4, 0)" using divider_exact [of 240000000 60000000 1024] v by simp
  show "clock_divider 240000000 30000000 = (8, 0)" using divider_exact [of 240000000 30000000 2048] v by simp
  show "clock_divider 150000000 20000000 = (7, 128)" using divider_exact [of 150000000 20000000 1920] w by simp
  show "clock_divider 150000000 60000000 = (2, 128)" using divider_exact [of 150000000 60000000 640] w by simp
  show "clock_divider 150000000 30000000 = (5, 0)" using divider_exact [of 150000000 30000000 1280] w by simp
qed

section \<open>Property\<close>

text \<open>C37. The divider is within 1/256, and the rounding of two single-precision operations, of the ratio of the clocks; it is the ratio
  itself when the clocks are single-precision values whose ratio is a multiple of 1/256 with 24 bits.\<close>

theorem clock_divider_accurate:
  assumes "0 < sys_clk_hz" and "0 < target_hz" and "of_nat (unat sys_clk_hz) / target_hz < 65535"
    and "clock_divider sys_clk_hz target_hz = (div_int, div_frac)"
  shows "\<bar>of_nat (unat div_int) + of_nat (unat div_frac) / 256 - of_nat (unat sys_clk_hz) / target_hz\<bar>
      \<le> 1 / 256 + of_nat (unat sys_clk_hz) / target_hz / 2 ^ 22
    \<and> (f32_value (of_nat (unat sys_clk_hz)) \<and> (\<exists>k. of_nat (unat sys_clk_hz) / target_hz = of_nat k / 256)
       \<longrightarrow> of_nat (unat div_int) + of_nat (unat div_frac) / 256 = of_nat (unat sys_clk_hz) / target_hz)"
proof -
  let ?s = "of_nat (unat sys_clk_hz) :: rat"
  let ?q = "?s / target_hz"
  define D where "D = f32 (f32 ?s / target_hz)"
  have s: "0 < ?s" using assms(1) by (simp only: of_nat_0_less_iff) (simp add: word_less_nat_alt)
  note e = ratio_error [OF s assms(2)]
  have q: "0 < ?q" using s assms(2) by (rule divide_pos_pos)
  have v: "f32_value D" "0 \<le> D" unfolding D_def by (intro f32_is_value divide_pos_pos e(1) assms(2))+
  have "\<bar>D - ?q\<bar> \<le> ?q / 4194304" using e(2) unfolding D_def [symmetric] by simp
  then have "D \<le> ?q * (4194305 / 4194304)" by (simp add: abs_le_iff)
  also have "\<dots> < 65535 * (4194305 / 4194304)" by (rule mult_strict_right_mono [OF assms(3)]) simp
  finally have "D < 65536" by simp
  note r = divider_of_value [OF v this D_def [symmetric] assms(4)]
  have i: "of_nat (unat div_int) \<le> D" "D < of_nat (unat div_int) + 1" unfolding r(1) using v(2) by linarith+
  have f: "of_nat (unat div_frac) \<le> (D - of_nat (unat div_int)) * 256" "(D - of_nat (unat div_int)) * 256 < of_nat (unat div_frac) + 1"
  proof -
    have "0 \<le> (D - of_nat (unat div_int)) * 256" using i by simp
    then show "of_nat (unat div_frac) \<le> (D - of_nat (unat div_int)) * 256" "(D - of_nat (unat div_int)) * 256 < of_nat (unat div_frac) + 1"
      unfolding r(2) by linarith+
  qed
  have "of_nat (unat div_int) + of_nat (unat div_frac) / 256 = ?q" if "f32_value ?s" "?q = of_nat k / 256" for k
  proof -
    have k: "k < 65536 * 256" using assms(3) unfolding that(2) by (simp add: field_simps)
    have "unat div_int = k div 256" "unat div_frac = k mod 256"
      using divider_exact [OF that(1) assms(2) that(2) k] k unfolding assms(4)
      by (simp_all add: unsigned_of_nat take_bit_eq_mod)
    then have "(of_nat k :: rat) = 256 * of_nat (unat div_int) + of_nat (unat div_frac)" using of_nat_div_mod [of k] by (simp only:)
    then show ?thesis unfolding that(2) by simp
  qed
  moreover have "\<bar>of_nat (unat div_int) + of_nat (unat div_frac) / 256 - D\<bar> \<le> 1 / 256" using f by (simp add: abs_le_iff field_simps)
  ultimately show ?thesis using near_trans e(2) unfolding D_def [symmetric] by blast
qed

text \<open>The transmitter at 150 MHz: seven and a half clocks a symbol.\<close>

theorem clock_divider_accurate_witness:
  "clock_divider 150000000 20000000 = (7, 128) \<and> of_nat (unat (7 :: u16)) + of_nat (unat (128 :: u8)) / 256 = (150000000 / 20000000 :: rat)"
proof -
  have w: "f32_value 150000000" unfolding f32_value_def by (rule exI [of _ 1171875], rule exI [of _ 7]) simp
  have k: "\<exists>k. (150000000 / 20000000 :: rat) = of_nat k / 256" by (rule exI [of _ 1920]) simp
  show ?thesis
    using conjunct2 [OF clock_divider_accurate [of 150000000 20000000 7 128]] firmware_dividers(4) w k by simp
qed

end
