(* ===== verification/Pio.thy ===== *)
theory Pio
  imports Link
begin

text \<open>
  The state machine programs of the PIO blocks: the symbol sender and the carrier detector that \<^verbatim>\<open>EthTx::new\<close> loads
  (\<^verbatim>\<open>src/eth_tx.rs\<close>) and the gSPI program of \<^verbatim>\<open>build_gspi_sm\<close> (\<^verbatim>\<open>src/wireless.rs\<close>), with an interpreter for the
  instructions they use, one cycle at a time. Addresses are relative to the program; a jump outside it is \<^const>\<open>None\<close>.
  The level a machine reads in a cycle and the words the processor writes are parameters. Shift thresholds are 32 bits,
  refilling and pushing automatic, as the three set-ups have it. Dividers, pin numbers and pull directions are left out.
\<close>

section \<open>The machine\<close>

datatype pio_reg = PINS | PINDIRS | REG_X | REG_Y | REG_PC

datatype pio_cond = ALWAYS | X_DEC | Y_DEC | PIN_HIGH

datatype pio_op =
    OUT pio_reg nat
  | IN_PIN
  | SET pio_reg u32
  | JMP pio_cond nat
  | IRQ_SET
  | IRQ_CLEAR
  | NOP

type_synonym pio_instr = "pio_op \<times> bool option"

record pio_cfg =
  auto_pull :: bool
  out_right :: bool
  in_right :: bool
  rx_depth :: nat

record pio_sm =
  sm_pc :: nat
  sm_x :: u32
  sm_y :: u32
  osr :: u32
  osr_n :: nat
  isr :: u32
  isr_n :: nat
  data_pin :: bool
  data_dir :: bool
  side_pin :: bool
  irq0 :: bool
  tx_q :: "u32 list"
  rx_q :: "u32 list"

definition sm_start :: pio_sm where
  "sm_start = \<lparr>sm_pc = 0, sm_x = 0, sm_y = 0, osr = 0, osr_n = 32, isr = 0, isr_n = 0, data_pin = False,
     data_dir = True, side_pin = False, irq0 = False, tx_q = [], rx_q = []\<rparr>"

text \<open>A machine with automatic pull takes a word into the output register as soon as the old one is used up and one is there: an
  \<^verbatim>\<open>out\<close> that uses it up refills it, one that finds it empty spends the cycle on that, other instructions refill on the side.\<close>

definition refill :: "pio_sm \<Rightarrow> pio_sm" where
  "refill s = (if 32 \<le> osr_n s then
     (case tx_q s of [] \<Rightarrow> s | w # ws \<Rightarrow> s\<lparr>osr := w, osr_n := 0, tx_q := ws\<rparr>) else s)"

definition set_reg :: "pio_reg \<Rightarrow> u32 \<Rightarrow> nat \<Rightarrow> pio_sm \<Rightarrow> pio_sm" where
  "set_reg d v next_pc s =
     (case d of
        PINS \<Rightarrow> s\<lparr>data_pin := bit v 0, sm_pc := next_pc\<rparr>
      | PINDIRS \<Rightarrow> s\<lparr>data_dir := bit v 0, sm_pc := next_pc\<rparr>
      | REG_X \<Rightarrow> s\<lparr>sm_x := v, sm_pc := next_pc\<rparr>
      | REG_Y \<Rightarrow> s\<lparr>sm_y := v, sm_pc := next_pc\<rparr>
      | REG_PC \<Rightarrow> s\<lparr>sm_pc := unat v\<rparr>)"

definition pio_exec :: "pio_cfg \<Rightarrow> pio_op \<Rightarrow> bool \<Rightarrow> nat \<Rightarrow> pio_sm \<Rightarrow> pio_sm" where
  "pio_exec c op pin next_pc s =
     (case op of
        OUT d n \<Rightarrow>
          if 32 \<le> osr_n s then refill s
          else
            (let v = (if out_right c then take_bit n (osr s) else drop_bit (32 - n) (osr s));
                 s = s\<lparr>osr := (if out_right c then drop_bit n (osr s) else push_bit n (osr s)),
                       osr_n := min 32 (osr_n s + n)\<rparr>
             in set_reg d v next_pc (refill s))
      | IN_PIN \<Rightarrow>
          (let s = (if isr_n s < 32
                    then s\<lparr>isr := (if in_right c then push_bit 31 (of_bool pin) OR drop_bit 1 (isr s)
                              else push_bit 1 (isr s) OR of_bool pin), isr_n := isr_n s + 1\<rparr>
                    else s)
           in if isr_n s < 32 then s\<lparr>sm_pc := next_pc\<rparr>
              else if length (rx_q s) < rx_depth c
              then s\<lparr>rx_q := rx_q s @ [isr s], isr := 0, isr_n := 0, sm_pc := next_pc\<rparr>
              else s)
      | SET d v \<Rightarrow> set_reg d v next_pc s
      | JMP b a \<Rightarrow>
          (case b of
             ALWAYS \<Rightarrow> s\<lparr>sm_pc := a\<rparr>
           | X_DEC \<Rightarrow> s\<lparr>sm_pc := (if sm_x s \<noteq> 0 then a else next_pc), sm_x := sm_x s - 1\<rparr>
           | Y_DEC \<Rightarrow> s\<lparr>sm_pc := (if sm_y s \<noteq> 0 then a else next_pc), sm_y := sm_y s - 1\<rparr>
           | PIN_HIGH \<Rightarrow> s\<lparr>sm_pc := (if pin then a else next_pc)\<rparr>)
      | IRQ_SET \<Rightarrow> s\<lparr>irq0 := True, sm_pc := next_pc\<rparr>
      | IRQ_CLEAR \<Rightarrow> s\<lparr>irq0 := False, sm_pc := next_pc\<rparr>
      | NOP \<Rightarrow> s\<lparr>sm_pc := next_pc\<rparr>)"

fun is_out :: "pio_op \<Rightarrow> bool" where
  "is_out (OUT d n) = True"
| "is_out op = False"

definition pio_cycle :: "pio_cfg \<Rightarrow> pio_instr list \<Rightarrow> bool \<Rightarrow> pio_sm \<Rightarrow> pio_sm option" where
  "pio_cycle c prog pin s =
     (if sm_pc s < length prog then
        (case prog ! sm_pc s of (op, side) \<Rightarrow>
           (let s = (case side of None \<Rightarrow> s | Some b \<Rightarrow> s\<lparr>side_pin := b\<rparr>);
                s = (if auto_pull c \<and> \<not> is_out op then refill s else s)
            in Some (pio_exec c op pin (if sm_pc s + 1 = length prog then 0 else sm_pc s + 1) s)))
      else None)"

text \<open>The state after \<open>n\<close> cycles and the words taken out of the receive FIFO so far. Before cycle \<open>t\<close> the words \<open>arr t\<close> are
  written to the machine and up to \<open>rd t\<close> are taken from it; in cycle \<open>t\<close> the pin has the level \<open>p t\<close>.\<close>

primrec pio_run ::
  "pio_cfg \<Rightarrow> pio_instr list \<Rightarrow> (nat \<Rightarrow> bool) \<Rightarrow> (nat \<Rightarrow> u32 list) \<Rightarrow> (nat \<Rightarrow> nat) \<Rightarrow> nat
     \<Rightarrow> pio_sm \<Rightarrow> (pio_sm \<times> u32 list) option" where
  "pio_run c prog p arr rd 0 s = Some (s, [])"
| "pio_run c prog p arr rd (Suc n) s = do {
     (s, got) \<leftarrow> pio_run c prog p arr rd n s;
     s' \<leftarrow> pio_cycle c prog (p n) (s\<lparr>tx_q := tx_q s @ arr n, rx_q := drop (rd n) (rx_q s)\<rparr>);
     Some (s', got @ take (rd n) (rx_q s))
   }"

lemma pio_run_step:
  "pio_run c prog p arr rd n s0 = Some (s, got) \<Longrightarrow>
     pio_cycle c prog (p n) (s\<lparr>tx_q := tx_q s @ arr n, rx_q := drop (rd n) (rx_q s)\<rparr>) = Some s' \<Longrightarrow>
     pio_run c prog p arr rd (Suc n) s0 = Some (s', got @ take (rd n) (rx_q s))"
  by simp

section \<open>The programs\<close>

definition tx_program :: "pio_instr list" where
  "tx_program = [(OUT REG_PC 2, Some False), (OUT REG_PC 2, Some False), (OUT REG_PC 2, Some True)]"

definition tx_cfg :: pio_cfg where
  "tx_cfg = \<lparr>auto_pull = True, out_right = True, in_right = True, rx_depth = 0\<rparr>"

definition cs_program :: "pio_instr list" where
  "cs_program =
     [(SET REG_X 8, None),
      (JMP PIN_HIGH 5, None),
      (JMP PIN_HIGH 9, None),
      (JMP X_DEC 2, None),
      (JMP ALWAYS 11, None),
      (JMP PIN_HIGH 7, None),
      (JMP ALWAYS 9, None),
      (JMP X_DEC 5, None),
      (JMP ALWAYS 11, None),
      (IRQ_SET, None),
      (JMP ALWAYS 0, None),
      (IRQ_CLEAR, None),
      (JMP ALWAYS 0, None)]"

definition cs_cfg :: pio_cfg where
  "cs_cfg = \<lparr>auto_pull = False, out_right = True, in_right = True, rx_depth = 4\<rparr>"

text \<open>The sampler of \<^verbatim>\<open>EthRx::new\<close>.\<close>

definition rx_program :: "pio_instr list" where
  "rx_program = [(IN_PIN, None)]"

definition rx_cfg :: pio_cfg where
  "rx_cfg = \<lparr>auto_pull = False, out_right = True, in_right = True, rx_depth = 8\<rparr>"

section \<open>The symbol sender\<close>

text \<open>All words that have been written before cycle \<open>n\<close>.\<close>

definition written :: "(nat \<Rightarrow> u32 list) \<Rightarrow> nat \<Rightarrow> u32 list" where
  "written arr n = concat (map arr [0..<n])"

lemma written_simps [simp]: "written arr 0 = []" "written arr (Suc n) = written arr n @ arr n"
  by (simp_all add: written_def)

text \<open>The words arrive in time: word \<open>k\<close> is there when word \<open>k - 1\<close> has been shifted out.\<close>

definition fed_in_time :: "(nat \<Rightarrow> u32 list) \<Rightarrow> u32 list \<Rightarrow> bool" where
  "fed_in_time arr ws \<longleftrightarrow> (\<forall>n. \<exists>m. written arr n = take m ws)
     \<and> (\<forall>k < length ws. k < length (written arr (16 * k + 1)))"

definition symbols :: "u32 list \<Rightarrow> nat list" where
  "symbols ws = concat (map half_bits ws)"

lemma symbols_nth: "k < length ws \<Longrightarrow> j < 16 \<Longrightarrow> symbols ws ! (16 * k + j) = unat (drop_bit (2 * j) (ws ! k) AND 3)"
proof (induction ws arbitrary: k)
  case (Cons w ws)
  have l: "length (half_bits w) = 16" by (simp add: half_bits_def)
  show ?case
  proof (cases k)
    case 0
    with Cons.prems l show ?thesis by (simp add: symbols_def nth_append half_bits_def)
  next
    case (Suc k')
    with Cons.IH [of k'] Cons.prems l show ?thesis by (simp add: symbols_def nth_append)
  qed
qed simp

lemma length_symbols [simp]: "length (symbols ws) = 16 * length ws"
  by (induction ws) (simp_all add: symbols_def half_bits_def)

lemma symbols_empty [simp]: "symbols ws = [] \<longleftrightarrow> ws = []"
proof -
  have "length (symbols ws) = 0 \<longleftrightarrow> ws = []" unfolding length_symbols by simp
  then show ?thesis by (simp only: length_0_conv)
qed

lemma tx_cycle:
  "sm_pc s < 3 \<Longrightarrow> pio_cycle tx_cfg tx_program pin s =
    Some (let s = s\<lparr>side_pin := (sm_pc s = 2)\<rparr>
          in if 32 \<le> osr_n s then refill s
             else (refill (s\<lparr>osr := drop_bit 2 (osr s), osr_n := min 32 (osr_n s + 2)\<rparr>))\<lparr>sm_pc := unat (take_bit 2 (osr s))\<rparr>)"
  by (auto simp: pio_cycle_def tx_program_def pio_exec_def tx_cfg_def set_reg_def Let_def nth_Cons' less_Suc_eq numeral_3_eq_3)


lemma fed_nth:
  assumes "fed_in_time arr ws" and "k < length (written arr n)"
  shows "written arr n ! k = ws ! k" and "k < length ws"
proof -
  obtain m where "written arr n = take m ws" using assms(1) by (auto simp: fed_in_time_def)
  with assms(2) show "written arr n ! k = ws ! k" and "k < length ws" by auto
qed

lemma written_mono: "m \<le> n \<Longrightarrow> length (written arr m) \<le> length (written arr n)"
  by (induction n) (auto simp: le_Suc_eq)

lemma fed_by: "fed_in_time arr ws \<Longrightarrow> k < length ws \<Longrightarrow> 16 * k < n \<Longrightarrow> k < length (written arr n)"
  using written_mono [of "16 * k + 1" n arr] by (fastforce simp: fed_in_time_def)

lemma refill_word:
  "32 \<le> osr_n s \<Longrightarrow> k < length q \<Longrightarrow> tx_q s = drop k q \<Longrightarrow> refill s = s\<lparr>osr := q ! k, osr_n := 0, tx_q := drop (Suc k) q\<rparr>"
  by (simp add: refill_def Cons_nth_drop_Suc [symmetric])

definition tx_at :: "u32 list \<Rightarrow> (nat \<Rightarrow> u32 list) \<Rightarrow> nat \<Rightarrow> pio_sm \<Rightarrow> bool" where
  "tx_at ws arr m s \<longleftrightarrow>
     osr_n s = 2 * (m mod 16) \<and> osr s = drop_bit (2 * (m mod 16)) (ws ! (m div 16))
     \<and> tx_q s = drop (Suc (m div 16)) (written arr (Suc m))
     \<and> sm_pc s = (if m = 0 then 0 else symbols ws ! (m - 1)) \<and> rx_q s = []
     \<and> (2 \<le> m \<longrightarrow> side_pin s = (symbols ws ! (m - 2) = 2))"

text \<open>Waiting for a word with the line low: the state at power-up, and again behind every burst that ends in idle symbols.\<close>

definition tx_idle :: "pio_sm \<Rightarrow> bool" where
  "tx_idle s \<longleftrightarrow> sm_pc s = 0 \<and> osr_n s = 32 \<and> tx_q s = [] \<and> rx_q s = []"

lemma tx_at_start:
  assumes fed: "fed_in_time arr ws" and ne: "ws \<noteq> []" and idle: "tx_idle s0"
  shows "\<exists>s. pio_run tx_cfg tx_program p arr rd 1 s0 = Some (s, []) \<and> tx_at ws arr 0 s"
proof -
  have l: "0 < length (written arr 1)" using fed_by [OF fed, of 0 1] ne by simp
  let ?s = "s0\<lparr>tx_q := arr 0, rx_q := [], side_pin := False\<rparr>"
  have "refill ?s = ?s\<lparr>osr := written arr 1 ! 0, osr_n := 0, tx_q := drop (Suc 0) (written arr 1)\<rparr>"
    using idle by (intro refill_word [OF _ l]) (simp_all add: tx_idle_def)
  moreover have "written arr 1 ! 0 = ws ! 0" by (rule fed_nth(1) [OF fed l])
  moreover have "pio_cycle tx_cfg tx_program (p 0) (s0\<lparr>tx_q := arr 0, rx_q := []\<rparr>) = Some (refill ?s)"
    using idle by (subst tx_cycle) (simp_all add: tx_idle_def)
  ultimately show ?thesis using idle by (simp add: tx_at_def tx_idle_def)
qed

lemma fed_length: "fed_in_time arr ws \<Longrightarrow> length (written arr n) \<le> length ws"
proof -
  assume "fed_in_time arr ws"
  then obtain m where "written arr n = take m ws" by (auto simp: fed_in_time_def)
  then show ?thesis by simp
qed

lemma fed_done:
  assumes "fed_in_time arr ws" and "16 * length ws \<le> n"
  shows "arr n = []"
proof -
  have "length ws \<le> length (written arr n)"
    using fed_by [OF assms(1), of "length ws - 1" n] assms(2) by (cases "length ws") simp_all
  moreover have "length (written arr n) + length (arr n) \<le> length ws"
    using fed_length [OF assms(1), of "Suc n"] by simp
  ultimately have "length (arr n) = 0" by linarith
  then show ?thesis by simp
qed

lemma tx_at_step:
  assumes fed: "fed_in_time arr ws" and sym: "\<forall>h \<in> set (symbols ws). h < 3"
    and m: "m < 16 * length ws" and at: "tx_at ws arr m s"
  shows "\<exists>s'. pio_cycle tx_cfg tx_program pin (s\<lparr>tx_q := tx_q s @ arr (Suc m), rx_q := drop r (rx_q s)\<rparr>) = Some s'
    \<and> sm_pc s' = symbols ws ! m \<and> rx_q s' = [] \<and> (1 \<le> m \<longrightarrow> side_pin s' = (symbols ws ! (m - 1) = 2))
    \<and> (if Suc m < 16 * length ws then tx_at ws arr (Suc m) s' else osr_n s' = 32 \<and> tx_q s' = [])"
proof -
  define k j where "k = m div 16" and "j = m mod 16"
  have kj: "m = 16 * k + j" "j < 16" "k < length ws" using m by (simp_all add: k_def j_def)
  let ?q = "written arr (Suc (Suc m))"
  let ?s = "s\<lparr>tx_q := tx_q s @ arr (Suc m), rx_q := drop r (rx_q s)\<rparr>"
  have "k < length (written arr (Suc m))" using fed_by [OF fed kj(3), of "Suc m"] kj(1) by simp
  then have q: "tx_q s @ arr (Suc m) = drop (Suc k) ?q" using at by (simp add: tx_at_def k_def)
  have pc: "sm_pc ?s < 3" using at sym m by (auto simp: tx_at_def)
  have out: "unat (take_bit 2 (osr s)) = symbols ws ! m"
    using at symbols_nth [OF kj(3,2)] by (simp add: tx_at_def kj(1) [symmetric] k_def [symmetric] j_def [symmetric]
        take_bit_eq_mask mask_eq_exp_minus_1)
  have run: "pio_cycle tx_cfg tx_program pin ?s = Some ((refill (?s\<lparr>side_pin := (sm_pc s = 2), osr := drop_bit 2 (osr s),
      osr_n := min 32 (osr_n s + 2)\<rparr>))\<lparr>sm_pc := symbols ws ! m\<rparr>)"
    using at kj(2) out by (subst tx_cycle [OF pc]) (simp add: tx_at_def j_def [symmetric])
  show ?thesis
  proof (cases "j = 15")
    case False
    then have d: "Suc m div 16 = k" "Suc m mod 16 = Suc j" "Suc m < 16 * length ws" using kj by auto
    have "\<not> 32 \<le> min 32 (osr_n s + 2)" using at False kj(2) by (simp add: tx_at_def j_def [symmetric])
    then show ?thesis
      using at d q unfolding run
      by (auto simp: refill_def tx_at_def k_def [symmetric] j_def [symmetric] drop_bit_drop_bit)
  next
    case True
    then have d: "Suc m div 16 = Suc k" "Suc m mod 16 = 0" using kj by auto
    show ?thesis
    proof (cases "Suc m < 16 * length ws")
      case False
      then have "length ws = Suc k" using kj True by linarith
      then have "drop (Suc k) ?q = []" using fed_length [OF fed, of "Suc (Suc m)"] by (simp del: written_simps)
      then show ?thesis
        using at False q True unfolding run by (auto simp: refill_def tx_at_def j_def [symmetric] simp del: written_simps)
    next
      case more: True
      have k1: "Suc k < length ws" using more kj True by linarith
      have l: "Suc k < length ?q" by (rule fed_by [OF fed k1]) (use kj True in simp)
      have "refill (?s\<lparr>side_pin := (sm_pc s = 2), osr := drop_bit 2 (osr s), osr_n := min 32 (osr_n s + 2)\<rparr>)
          = ?s\<lparr>side_pin := (sm_pc s = 2), osr := ?q ! Suc k, osr_n := 0, tx_q := drop (Suc (Suc k)) ?q\<rparr>"
        using at q True by (subst refill_word [OF _ l]) (simp_all add: tx_at_def j_def [symmetric] del: written_simps)
      then show ?thesis
        using at d more fed_nth(1) [OF fed l] unfolding run
        by (auto simp: tx_at_def simp del: written_simps)
    qed
  qed
qed


lemma tx_run:
  assumes fed: "fed_in_time arr ws" and sym: "\<forall>h \<in> set (symbols ws). h < 3" and ne: "ws \<noteq> []" and idle: "tx_idle s0"
  shows "m < 16 * length ws \<Longrightarrow> \<exists>s. pio_run tx_cfg tx_program p arr rd (Suc m) s0 = Some (s, []) \<and> tx_at ws arr m s"
proof (induction m)
  case 0
  then show ?case using tx_at_start [OF fed ne idle, of p rd] by simp
next
  case (Suc m)
  then obtain s where s: "pio_run tx_cfg tx_program p arr rd (Suc m) s0 = Some (s, [])" "tx_at ws arr m s" by auto
  from tx_at_step [OF fed sym _ s(2), of "p (Suc m)" "rd (Suc m)"] Suc.prems s show ?case
    by (auto simp: tx_at_def [of ws arr m])
qed

lemma tx_run_end:
  assumes fed: "fed_in_time arr ws" and sym: "\<forall>h \<in> set (symbols ws). h < 3" and ne: "ws \<noteq> []" and idle: "tx_idle s0"
  shows "\<exists>s. pio_run tx_cfg tx_program p arr rd (16 * length ws + 1 + n) s0 = Some (s, [])
    \<and> sm_pc s = last (symbols ws) \<and> osr_n s = 32 \<and> tx_q s = [] \<and> rx_q s = []
    \<and> side_pin s = (symbols ws ! (if n = 0 then 16 * length ws - 2 else 16 * length ws - 1) = 2)"
proof (induction n)
  case 0
  define m where "m = 16 * length ws - 1"
  have m: "m < 16 * length ws" "Suc m = 16 * length ws" "1 \<le> m" using ne by (cases ws; simp add: m_def)+
  obtain s where s: "pio_run tx_cfg tx_program p arr rd (Suc m) s0 = Some (s, [])" "tx_at ws arr m s"
    using tx_run [OF fed sym ne idle m(1)] by blast
  from tx_at_step [OF fed sym m(1) s(2), of "p (Suc m)" "rd (Suc m)"] obtain s' where
    cyc: "pio_cycle tx_cfg tx_program (p (Suc m)) (s\<lparr>tx_q := tx_q s @ arr (Suc m), rx_q := drop (rd (Suc m)) (rx_q s)\<rparr>) = Some s'"
    and st: "sm_pc s' = symbols ws ! m" "rx_q s' = []" "side_pin s' = (symbols ws ! (m - 1) = 2)" "osr_n s' = 32" "tx_q s' = []"
    using m(2,3) by auto
  have e: "symbols ws ! m = last (symbols ws)"
    using ne by (simp add: last_conv_nth m_def)
  have e: "symbols ws ! m = last (symbols ws)" "16 * length ws - 2 = m - 1" "16 * length ws + 1 + 0 = Suc (Suc m)" using e m(2,3) by linarith+
  have "rx_q s = []" using s(2) by (simp add: tx_at_def)
  then have "pio_run tx_cfg tx_program p arr rd (Suc (Suc m)) s0 = Some (s', [])"
    using pio_run_step [OF s(1) cyc] by simp
  with st e show ?case by (simp only: e) simp
next
  case (Suc n)
  then obtain s where s: "pio_run tx_cfg tx_program p arr rd (16 * length ws + 1 + n) s0 = Some (s, [])"
    "sm_pc s = last (symbols ws)" "osr_n s = 32" "tx_q s = []" "rx_q s = []" by blast
  have ne': "symbols ws \<noteq> []" using ne by simp
  then have "sm_pc s < 3" using sym s(2) last_in_set by metis
  have arr: "arr (16 * length ws + 1 + n) = []" by (rule fed_done [OF fed]) simp
  have last: "last (symbols ws) = symbols ws ! (16 * length ws - 1)" using ne' by (simp add: last_conv_nth)
  have "pio_cycle tx_cfg tx_program (p (16 * length ws + 1 + n))
      (s\<lparr>tx_q := tx_q s @ arr (16 * length ws + 1 + n), rx_q := drop (rd (16 * length ws + 1 + n)) (rx_q s)\<rparr>)
      = Some (s\<lparr>tx_q := [], rx_q := [], side_pin := (sm_pc s = 2)\<rparr>)"
    using s(3-5) arr \<open>sm_pc s < 3\<close> by (subst tx_cycle) (simp_all add: refill_def)
  from pio_run_step [OF s(1) this] have "pio_run tx_cfg tx_program p arr rd (Suc (16 * length ws + 1 + n)) s0
      = Some (s\<lparr>tx_q := [], rx_q := [], side_pin := (sm_pc s = 2)\<rparr>, [])"
    using s(5) by simp
  moreover have "16 * length ws + 1 + Suc n = Suc (16 * length ws + 1 + n)" by simp
  ultimately show ?case using s(2,3) last by (simp only:) simp
qed


lemma tx_levels:
  assumes fed: "fed_in_time arr ws" and sym: "\<forall>h \<in> set (symbols ws). h < 3" and ne: "ws \<noteq> []" and idle: "tx_idle s0"
  shows "\<exists>s. pio_run tx_cfg tx_program p arr rd (n + 3) s0 = Some (s, [])
    \<and> side_pin s = (symbols ws ! min n (16 * length ws - 1) = 2)
    \<and> (16 * length ws \<le> n \<and> last (symbols ws) = 0 \<longrightarrow> tx_idle s)"
proof -
  have l: "16 \<le> 16 * length ws" using ne by (cases ws) simp_all
  consider "Suc n < 16 * length ws" | "Suc n = 16 * length ws" | "16 * length ws \<le> n" by linarith
  then show ?thesis
  proof cases
    case 1
    obtain s where s: "pio_run tx_cfg tx_program p arr rd (Suc (Suc n)) s0 = Some (s, [])" "tx_at ws arr (Suc n) s"
      using tx_run [OF fed sym ne idle 1] by blast
    from tx_at_step [OF fed sym 1 s(2), of "p (Suc (Suc n))" "rd (Suc (Suc n))"] obtain s' where
      c: "pio_cycle tx_cfg tx_program (p (Suc (Suc n)))
        (s\<lparr>tx_q := tx_q s @ arr (Suc (Suc n)), rx_q := drop (rd (Suc (Suc n))) (rx_q s)\<rparr>) = Some s'"
      and s': "side_pin s' = (symbols ws ! n = 2)" by auto
    have "rx_q s = []" using s(2) by (simp add: tx_at_def)
    then have "pio_run tx_cfg tx_program p arr rd (n + 3) s0 = Some (s', [])"
      using pio_run_step [OF s(1) c] by (simp add: numeral_3_eq_3)
    moreover have "min n (16 * length ws - 1) = n" using 1 by linarith
    ultimately show ?thesis using s' 1 by simp
  next
    case 2
    have e: "n + 3 = 16 * length ws + 1 + 1" "min n (16 * length ws - 1) = 16 * length ws - 1" using 2 by linarith+
    show ?thesis unfolding e using tx_run_end [OF fed sym ne idle, of p rd 1] 2 by auto
  next
    case 3
    define k where "k = n + 2 - 16 * length ws"
    have e: "n + 3 = 16 * length ws + 1 + k" "min n (16 * length ws - 1) = 16 * length ws - 1" "k \<noteq> 0"
      using 3 l by (simp_all add: k_def)
    show ?thesis unfolding e(1,2) using tx_run_end [OF fed sym ne idle, of p rd k] e(3) by (auto simp: tx_idle_def)
  qed
qed

text \<open>What the transmitter queues has no fourth symbol and ends low.\<close>

lemma symbols_append [simp]: "symbols (xs @ ys) = symbols xs @ symbols ys"
  by (simp add: symbols_def)

lemma symbols_encode: "h \<in> set (symbols (encode bs)) \<Longrightarrow> h < 3"
  by (auto simp: symbols_def encode_def table_halves manchester_halves_def split: if_splits)

lemma on_wire_symbols:
  "\<forall>h \<in> set (symbols (on_wire bs)). h < 3" "last (symbols (on_wire bs)) = 0" "on_wire bs \<noteq> []"
proof -
  have t: "symbols ([0xAAA] @ replicate 12 0) = replicate 6 2 @ replicate 202 0" by code_simp
  define e where "e = encode (replicate 7 0x55 @ [0xD5] @ bs)"
  have w: "symbols (on_wire bs) = symbols e @ replicate 6 2 @ replicate 202 0"
    unfolding on_wire_def e_def [symmetric] symbols_append [of e] t by (rule refl)
  have "h < 3" if "h \<in> set (symbols e)" for h using that unfolding e_def by (rule symbols_encode)
  then show "\<forall>h \<in> set (symbols (on_wire bs)). h < 3" unfolding w by auto
  show "last (symbols (on_wire bs)) = 0" unfolding w by simp
  show "on_wire bs \<noteq> []" by (simp add: on_wire_def)
qed

section \<open>The carrier detector\<close>

text \<open>The line as the detector reads it, one level a cycle. It is active over \<open>[a, n)\<close> if no level lasts a single cycle there
  or 18 cycles and more; it is quiet if it keeps one level.\<close>

definition active_on :: "(nat \<Rightarrow> bool) \<Rightarrow> nat \<Rightarrow> nat \<Rightarrow> bool" where
  "active_on p a n \<longleftrightarrow> (\<forall>t \<ge> a. t + 2 < n \<longrightarrow> p t = p (t + 2) \<longrightarrow> p (t + 1) = p t)
     \<and> (\<forall>t \<ge> a. t + 18 \<le> n \<longrightarrow> (\<exists>j < 18. p (t + j) \<noteq> p t))"

definition quiet_on :: "(nat \<Rightarrow> bool) \<Rightarrow> nat \<Rightarrow> nat \<Rightarrow> bool" where
  "quiet_on p a n \<longleftrightarrow> (\<forall>t \<ge> a. t < n \<longrightarrow> p t = p a)"

text \<open>One cycle, at every address.\<close>

lemma cs_cycle:
  "sm_pc s = 0 \<Longrightarrow> pio_cycle cs_cfg cs_program pin s = Some (s\<lparr>sm_x := 8, sm_pc := 1\<rparr>)"
  "sm_pc s = 1 \<Longrightarrow> pio_cycle cs_cfg cs_program pin s = Some (s\<lparr>sm_pc := (if pin then 5 else 2)\<rparr>)"
  "sm_pc s = 2 \<Longrightarrow> pio_cycle cs_cfg cs_program pin s = Some (s\<lparr>sm_pc := (if pin then 9 else 3)\<rparr>)"
  "sm_pc s = 3 \<Longrightarrow> pio_cycle cs_cfg cs_program pin s
     = Some (s\<lparr>sm_pc := (if sm_x s \<noteq> 0 then 2 else 4), sm_x := sm_x s - 1\<rparr>)"
  "sm_pc s = 4 \<Longrightarrow> pio_cycle cs_cfg cs_program pin s = Some (s\<lparr>sm_pc := 11\<rparr>)"
  "sm_pc s = 5 \<Longrightarrow> pio_cycle cs_cfg cs_program pin s = Some (s\<lparr>sm_pc := (if pin then 7 else 6)\<rparr>)"
  "sm_pc s = 6 \<Longrightarrow> pio_cycle cs_cfg cs_program pin s = Some (s\<lparr>sm_pc := 9\<rparr>)"
  "sm_pc s = 7 \<Longrightarrow> pio_cycle cs_cfg cs_program pin s
     = Some (s\<lparr>sm_pc := (if sm_x s \<noteq> 0 then 5 else 8), sm_x := sm_x s - 1\<rparr>)"
  "sm_pc s = 8 \<Longrightarrow> pio_cycle cs_cfg cs_program pin s = Some (s\<lparr>sm_pc := 11\<rparr>)"
  "sm_pc s = 9 \<Longrightarrow> pio_cycle cs_cfg cs_program pin s = Some (s\<lparr>irq0 := True, sm_pc := 10\<rparr>)"
  "sm_pc s = 10 \<Longrightarrow> pio_cycle cs_cfg cs_program pin s = Some (s\<lparr>sm_pc := 0\<rparr>)"
  "sm_pc s = 11 \<Longrightarrow> pio_cycle cs_cfg cs_program pin s = Some (s\<lparr>irq0 := False, sm_pc := 12\<rparr>)"
  "sm_pc s = 12 \<Longrightarrow> pio_cycle cs_cfg cs_program pin s = Some (s\<lparr>sm_pc := 0\<rparr>)"
  by (simp_all add: pio_cycle_def cs_program_def cs_cfg_def pio_exec_def set_reg_def)


text \<open>The detector takes no words and gives none; this is its state after \<open>n\<close> cycles on the line \<open>p\<close>.\<close>

definition cs_state :: "(nat \<Rightarrow> bool) \<Rightarrow> nat \<Rightarrow> pio_sm" where
  "cs_state p n = fst (the (pio_run cs_cfg cs_program p (\<lambda>_. []) (\<lambda>_. 0) n sm_start))"

definition cs_ok :: "pio_sm \<Rightarrow> bool" where
  "cs_ok s \<longleftrightarrow> sm_pc s < 13 \<and> (sm_pc s \<in> {1, 2, 3, 5, 7} \<longrightarrow> unat (sm_x s) \<le> 8)"

text \<open>The number of cycles until the program starts over, at most.\<close>

definition cs_rank :: "pio_sm \<Rightarrow> nat" where
  "cs_rank s = (if sm_pc s = 0 then 0 else if sm_pc s \<in> {10, 12} then 1 else if sm_pc s \<in> {9, 11} then 2
     else if sm_pc s \<in> {4, 6, 8} then 3 else if sm_pc s \<in> {3, 7} then 4 + 2 * unat (sm_x s)
     else if sm_pc s \<in> {2, 5} then 5 + 2 * unat (sm_x s) else 6 + 2 * unat (sm_x s))"

lemma pc_cases:
  assumes "pc < (13 :: nat)"
  obtains "pc = 0" | "pc = 1" | "pc = 2" | "pc = 3" | "pc = 4" | "pc = 5" | "pc = 6" | "pc = 7" | "pc = 8" | "pc = 9"
    | "pc = 10" | "pc = 11" | "pc = 12"
  using assms by (auto simp: less_Suc_eq eval_nat_numeral)

lemma cs_step:
  assumes "cs_ok s"
  shows "\<exists>s'. pio_cycle cs_cfg cs_program pin s = Some s' \<and> cs_ok s' \<and> (sm_pc s \<noteq> 0 \<longrightarrow> cs_rank s' < cs_rank s)"
proof -
  have x: "Suc (2 * (unat (sm_x s) - Suc 0)) < 2 * unat (sm_x s)" if "sm_x s \<noteq> 0"
  proof -
    have "0 < unat (sm_x s)" using that by (simp add: unat_gt_0)
    then show ?thesis by linarith
  qed
  have "sm_pc s < 13" using assms by (simp add: cs_ok_def)
  then show ?thesis
    by (cases rule: pc_cases) (use assms in \<open>auto simp: cs_cycle cs_ok_def cs_rank_def unat_minus_one x\<close>)
qed

lemma cs_rank_le: "cs_ok s \<Longrightarrow> cs_rank s \<le> 22"
  by (auto simp: cs_ok_def cs_rank_def elim: pc_cases)

lemma cs_state_0 [simp]: "cs_state p 0 = sm_start"
  by (simp add: cs_state_def)

lemma cs_run:
  "pio_run cs_cfg cs_program p (\<lambda>_. []) (\<lambda>_. 0) n sm_start = Some (cs_state p n, []) \<and> cs_ok (cs_state p n)"
proof (induction n)
  case 0
  then show ?case by (simp add: cs_ok_def sm_start_def)
next
  case (Suc n)
  then obtain s' where s': "pio_cycle cs_cfg cs_program (p n) (cs_state p n) = Some s'" "cs_ok s'"
    using cs_step by blast
  with Suc have "pio_run cs_cfg cs_program p (\<lambda>_. []) (\<lambda>_. 0) (Suc n) sm_start = Some (s', [])" by simp
  with s'(2) show ?case by (simp add: cs_state_def del: pio_run.simps)
qed

lemma cs_state_Suc: "pio_cycle cs_cfg cs_program (p n) (cs_state p n) = Some (cs_state p (Suc n))"
proof -
  have "pio_run cs_cfg cs_program p (\<lambda>_. []) (\<lambda>_. 0) (Suc n) sm_start
      = Option.bind (pio_cycle cs_cfg cs_program (p n) (cs_state p n)) (\<lambda>s. Some (s, []))"
    using cs_run [of p n] by simp
  with cs_run [of p "Suc n"] show ?thesis by (auto simp: bind_eq_Some_conv simp del: pio_run.simps)
qed

lemma cs_restarts: "\<exists>m \<ge> a. m \<le> a + cs_rank (cs_state p a) \<and> sm_pc (cs_state p m) = 0"
proof (induction "cs_rank (cs_state p a)" arbitrary: a rule: less_induct)
  case less
  show ?case
  proof (cases "sm_pc (cs_state p a) = 0")
    case False
    then have r: "cs_rank (cs_state p (Suc a)) < cs_rank (cs_state p a)"
      using cs_step [of "cs_state p a" "p a"] cs_run [of p a] cs_state_Suc [of p a] by auto
    from less [OF r] obtain m where "Suc a \<le> m" "m \<le> Suc a + cs_rank (cs_state p (Suc a))" "sm_pc (cs_state p m) = 0"
      by blast
    with r show ?thesis by (intro exI [of _ m]) simp
  qed auto
qed

text \<open>Between restarts: the machine has watched one level \<open>lv\<close> since cycle \<open>c\<close>.\<close>

definition watching :: "(nat \<Rightarrow> bool) \<Rightarrow> nat \<Rightarrow> nat \<Rightarrow> nat \<Rightarrow> nat \<Rightarrow> bool \<Rightarrow> pio_sm \<Rightarrow> bool" where
  "watching p m n c i lv s \<longleftrightarrow> m < c \<and> i \<le> 8 \<and> sm_x s = of_nat (8 - i) \<and> p c = lv
     \<and> (sm_pc s = (if lv then 5 else 2) \<and> n = c + 1 + 2 * i \<and> (\<forall>t. c \<le> t \<and> t + 1 < n \<longrightarrow> p t = lv)
      \<or> sm_pc s = (if lv then 7 else 3) \<and> n = c + 2 + 2 * i \<and> (\<forall>t. c \<le> t \<and> t < n \<longrightarrow> p t = lv))
     \<and> (irq0 s \<or> c = m + 1)"

definition busy_inv :: "(nat \<Rightarrow> bool) \<Rightarrow> nat \<Rightarrow> nat \<Rightarrow> pio_sm \<Rightarrow> bool" where
  "busy_inv p m n s \<longleftrightarrow> sm_pc s = 0 \<and> (irq0 s \<or> n = m) \<or> sm_pc s = 1 \<and> sm_x s = 8 \<and> m < n \<and> (irq0 s \<or> n = m + 1)
     \<or> (\<exists>c i lv. watching p m n c i lv s) \<or> sm_pc s = 6 \<and> m < n \<and> (irq0 s \<or> n \<le> m + 19)
     \<or> sm_pc s = 9 \<and> m < n \<and> (irq0 s \<or> n \<le> m + 20) \<or> sm_pc s = 10 \<and> m < n \<and> irq0 s"

lemma small_word_nonzero: "0 < k \<Longrightarrow> k \<le> 8 \<Longrightarrow> (of_nat k :: u32) \<noteq> 0"
  by (auto simp: word_of_nat_eq_0_iff dest: dvd_imp_le)

lemma busy_watching: "watching p m n c i lv s \<Longrightarrow> busy_inv p m n s"
  unfolding busy_inv_def by blast

lemma watching_step:
  assumes act: "active_on p m N" and n: "n < N" and w: "watching p m n c i lv s"
  shows "\<exists>s'. pio_cycle cs_cfg cs_program (p n) s = Some s' \<and> busy_inv p m (Suc n) s'"
proof -
  have w': "m < c" "i \<le> 8" "sm_x s = of_nat (8 - i)" "p c = lv" "irq0 s \<or> c = m + 1" using w by (simp_all add: watching_def)
  consider (test) "sm_pc s = (if lv then 5 else 2)" "n = c + 1 + 2 * i" "\<forall>t. c \<le> t \<and> t + 1 < n \<longrightarrow> p t = lv"
    | (count) "sm_pc s = (if lv then 7 else 3)" "n = c + 2 + 2 * i" "\<forall>t. c \<le> t \<and> t < n \<longrightarrow> p t = lv"
    using w by (auto simp: watching_def)
  then show ?thesis
  proof cases
    case test
    show ?thesis
    proof (cases "p n = lv")
      case False
      then show ?thesis using test w' by (cases lv) (simp_all add: cs_cycle busy_inv_def, auto)
    next
      case True
      have "p (n - 1) = lv"
      proof (cases i)
        case 0
        with test(2) w'(4) show ?thesis by simp
      next
        case (Suc j)
        with test(2) have "p (n - 2) = lv" "m \<le> n - 2" "n - 2 + 2 = n" "n - 2 + 1 = n - 1"
          using test(3) w'(1) by simp_all
        with True act n show ?thesis unfolding active_on_def by metis
      qed
      moreover have "t = n - 1 \<or> t = n \<or> t + 1 < n" if "t < Suc n" for t using that by linarith
      ultimately have "\<forall>t. c \<le> t \<and> t < Suc n \<longrightarrow> p t = lv" using True test(3) by metis
      with test w' True have "watching p m (Suc n) c i lv (s\<lparr>sm_pc := (if lv then 7 else 3)\<rparr>)" by (simp add: watching_def)
      moreover have "pio_cycle cs_cfg cs_program (p n) s = Some (s\<lparr>sm_pc := (if lv then 7 else 3)\<rparr>)"
        using test(1) True by (cases lv) (simp_all add: cs_cycle)
      ultimately show ?thesis using busy_watching by blast
    qed
  next
    case count
    have "i \<noteq> 8"
    proof
      assume "i = 8"
      with count(2) n have "c + 18 \<le> N" by simp
      moreover have "\<forall>t \<ge> m. t + 18 \<le> N \<longrightarrow> (\<exists>j < 18. p (t + j) \<noteq> p t)" using act unfolding active_on_def by blast
      moreover have "m \<le> c" using w'(1) by simp
      ultimately have "\<exists>j < 18. p (c + j) \<noteq> p c" by blast
      then obtain j where j: "j < 18" "p (c + j) \<noteq> p c" by (elim exE conjE) (rule that)
      moreover have "c + j < n" using j(1) count(2) \<open>i = 8\<close> by simp
      ultimately show False using count(3) w'(4) by auto
    qed
    then have i: "8 - i = Suc (8 - Suc i)" "Suc i \<le> 8" using w'(2) by simp_all
    have x: "sm_x s - 1 = of_nat (8 - Suc i)" unfolding w'(3) i(1) by simp
    have "sm_x s \<noteq> 0" unfolding w'(3) by (rule small_word_nonzero) (use i in simp_all)
    then have c: "pio_cycle cs_cfg cs_program (p n) s = Some (s\<lparr>sm_pc := (if lv then 5 else 2), sm_x := of_nat (8 - Suc i)\<rparr>)"
      using count(1) x by (cases lv) (simp_all add: cs_cycle)
    have "watching p m (Suc n) c (Suc i) lv (s\<lparr>sm_pc := (if lv then 5 else 2), sm_x := of_nat (8 - Suc i)\<rparr>)"
      using count w' i by (simp add: watching_def)
    then show ?thesis using c busy_watching by blast
  qed
qed


lemma busy_step:
  assumes act: "active_on p m N" and n: "n < N" "m \<le> n" and inv: "busy_inv p m n s"
  shows "\<exists>s'. pio_cycle cs_cfg cs_program (p n) s = Some s' \<and> busy_inv p m (Suc n) s'"
proof -
  consider (watch) c i lv where "watching p m n c i lv s" | (start) "sm_pc s = 0" "irq0 s \<or> n = m"
    | (base) "sm_pc s = 1" "sm_x s = 8" "m < n" "irq0 s \<or> n = m + 1" | (edge) "sm_pc s = 6" "m < n" "irq0 s \<or> n \<le> m + 19"
    | (found) "sm_pc s = 9" "m < n" "irq0 s \<or> n \<le> m + 20" | (again) "sm_pc s = 10" "m < n" "irq0 s"
    using inv by (auto simp: busy_inv_def)
  then show ?thesis
  proof cases
    case watch
    then show ?thesis by (rule watching_step [OF act n(1)])
  next
    case base
    have "watching p m (Suc n) n 0 (p n) (s\<lparr>sm_pc := (if p n then 5 else 2)\<rparr>)" using base by (auto simp: watching_def)
    then show ?thesis using base(1) busy_watching by (auto simp: cs_cycle)
  qed (use n in \<open>auto simp: cs_cycle busy_inv_def\<close>)
qed

lemma cs_busy:
  assumes act: "active_on p m N" and start: "sm_pc (cs_state p m) = 0"
  shows "m + k \<le> N \<Longrightarrow> busy_inv p m (m + k) (cs_state p (m + k))"
proof (induction k)
  case 0
  then show ?case using start by (simp add: busy_inv_def)
next
  case (Suc k)
  then show ?case using busy_step [OF act, of "m + k"] cs_state_Suc [of p "m + k"] by fastforce
qed

lemma watching_flag: "watching p m n c i lv s \<Longrightarrow> irq0 s \<or> n \<le> m + 19"
  unfolding watching_def by (elim conjE disjE) simp_all

lemma busy_flag:
  assumes "busy_inv p m n s" and "m + 21 \<le> n"
  shows "irq0 s"
proof (cases "\<exists>c i lv. watching p m n c i lv s")
  case True
  then show ?thesis using watching_flag assms(2) by fastforce
next
  case False
  then show ?thesis using assms by (auto simp: busy_inv_def)
qed

text \<open>The same for a quiet line.\<close>

inductive idle_inv :: "bool \<Rightarrow> nat \<Rightarrow> nat \<Rightarrow> pio_sm \<Rightarrow> bool" for lv m where
  start: "sm_pc s = 0 \<Longrightarrow> \<not> irq0 s \<or> n = m \<Longrightarrow> idle_inv lv m n s"
| base: "sm_pc s = 1 \<Longrightarrow> sm_x s = 8 \<Longrightarrow> \<not> irq0 s \<or> n = m + 1 \<Longrightarrow> idle_inv lv m n s"
| test: "sm_pc s = (if lv then 5 else 2) \<Longrightarrow> i \<le> 8 \<Longrightarrow> sm_x s = of_nat (8 - i) \<Longrightarrow> \<not> irq0 s \<or> n = m + 2 + 2 * i
    \<Longrightarrow> idle_inv lv m n s"
| count: "sm_pc s = (if lv then 7 else 3) \<Longrightarrow> i \<le> 8 \<Longrightarrow> sm_x s = of_nat (8 - i) \<Longrightarrow> \<not> irq0 s \<or> n = m + 3 + 2 * i
    \<Longrightarrow> idle_inv lv m n s"
| full: "sm_pc s = 4 \<or> sm_pc s = 8 \<Longrightarrow> \<not> irq0 s \<or> n = m + 20 \<Longrightarrow> idle_inv lv m n s"
| clear: "sm_pc s = 11 \<Longrightarrow> \<not> irq0 s \<or> n = m + 21 \<Longrightarrow> idle_inv lv m n s"
| again: "sm_pc s = 12 \<Longrightarrow> \<not> irq0 s \<Longrightarrow> idle_inv lv m n s"

lemma idle_step:
  assumes "idle_inv lv m n s"
  shows "\<exists>s'. pio_cycle cs_cfg cs_program lv s = Some s' \<and> idle_inv lv m (Suc n) s'"
  using assms
proof cases
  case start
  then have "idle_inv lv m (Suc n) (s\<lparr>sm_x := 8, sm_pc := 1\<rparr>)" by (intro idle_inv.base) auto
  with start show ?thesis by (simp add: cs_cycle)
next
  case base
  then have "idle_inv lv m (Suc n) (s\<lparr>sm_pc := (if lv then 5 else 2)\<rparr>)" by (intro idle_inv.test [of _ lv 0]) auto
  with base show ?thesis by (simp add: cs_cycle)
next
  case (test i)
  then have "idle_inv lv m (Suc n) (s\<lparr>sm_pc := (if lv then 7 else 3)\<rparr>)" by (intro idle_inv.count [of _ lv i]) auto
  moreover have "pio_cycle cs_cfg cs_program lv s = Some (s\<lparr>sm_pc := (if lv then 7 else 3)\<rparr>)"
    using test(1) by (cases lv) (simp_all add: cs_cycle)
  ultimately show ?thesis by blast
next
  case (count i)
  show ?thesis
  proof (cases "i = 8")
    case True
    then have "pio_cycle cs_cfg cs_program lv s = Some (s\<lparr>sm_pc := (if lv then 8 else 4), sm_x := sm_x s - 1\<rparr>)"
      using count(1,3) by (cases lv) (simp_all add: cs_cycle)
    moreover have "idle_inv lv m (Suc n) (s\<lparr>sm_pc := (if lv then 8 else 4), sm_x := sm_x s - 1\<rparr>)"
      using count(4) True by (intro idle_inv.full) auto
    ultimately show ?thesis by blast
  next
    case False
    then have i: "8 - i = Suc (8 - Suc i)" "Suc i \<le> 8" using count(2) by simp_all
    have x: "sm_x s - 1 = of_nat (8 - Suc i)" unfolding count(3) i(1) by simp
    have nz: "sm_x s \<noteq> 0" unfolding count(3) by (rule small_word_nonzero) (use i in simp_all)
    have "idle_inv lv m (Suc n) (s\<lparr>sm_pc := (if lv then 5 else 2), sm_x := of_nat (8 - Suc i)\<rparr>)"
      using count(4) i(2) by (intro idle_inv.test [of _ lv "Suc i"]) auto
    moreover have "pio_cycle cs_cfg cs_program lv s = Some (s\<lparr>sm_pc := (if lv then 5 else 2), sm_x := of_nat (8 - Suc i)\<rparr>)"
      using count(1) nz x by (cases lv) (simp_all add: cs_cycle)
    ultimately show ?thesis by blast
  qed
next
  case full
  then have "idle_inv lv m (Suc n) (s\<lparr>sm_pc := 11\<rparr>)" by (intro idle_inv.clear) auto
  with full show ?thesis by (auto simp: cs_cycle)
next
  case clear
  have "idle_inv lv m (Suc n) (s\<lparr>irq0 := False, sm_pc := 12\<rparr>)" by (intro idle_inv.again) auto
  with clear show ?thesis by (simp add: cs_cycle)
next
  case again
  then have "idle_inv lv m (Suc n) (s\<lparr>sm_pc := 0\<rparr>)" by (intro idle_inv.start) auto
  with again show ?thesis by (simp add: cs_cycle)
qed

lemma cs_quiet:
  assumes quiet: "quiet_on p m N" and start: "sm_pc (cs_state p m) = 0"
  shows "m + k \<le> N \<Longrightarrow> idle_inv (p m) m (m + k) (cs_state p (m + k))"
proof (induction k)
  case 0
  then show ?case using start by (auto intro: idle_inv.start)
next
  case (Suc k)
  then have "idle_inv (p m) m (m + k) (cs_state p (m + k))" by simp
  then obtain s' where s': "pio_cycle cs_cfg cs_program (p m) (cs_state p (m + k)) = Some s'" "idle_inv (p m) m (Suc (m + k)) s'"
    using idle_step by blast
  have e: "p (m + k) = p m" using quiet [unfolded quiet_on_def, rule_format, of "m + k"] Suc.prems by simp
  have "s' = cs_state p (Suc (m + k))" using s'(1) cs_state_Suc [of p "m + k"] unfolding e by simp
  with s'(2) show ?case by simp
qed

lemma idle_flag:
  assumes "idle_inv lv m n s" and "m + 22 \<le> n"
  shows "\<not> irq0 s"
  using assms(1)
proof cases
  case start
  moreover have "n \<noteq> m" using assms(2) by simp
  ultimately show ?thesis by blast
next
  case base
  moreover have "n \<noteq> m + 1" using assms(2) by simp
  ultimately show ?thesis by blast
next
  case (test i)
  have "n \<noteq> m + 2 + 2 * i" using assms(2) test(2) by simp
  with test(4) show ?thesis by blast
next
  case (count i)
  have "n \<noteq> m + 3 + 2 * i" using assms(2) count(2) by simp
  with count(4) show ?thesis by blast
next
  case full
  moreover have "n \<noteq> m + 20" using assms(2) by simp
  ultimately show ?thesis by blast
next
  case clear
  moreover have "n \<noteq> m + 21" using assms(2) by simp
  ultimately show ?thesis by blast
next
  case again
  then show ?thesis by blast
qed

text \<open>The flag follows the line within 44 cycles.\<close>

lemma active_later: "active_on p a n \<Longrightarrow> a \<le> m \<Longrightarrow> active_on p m n"
  unfolding active_on_def by (meson order_trans)

lemma quiet_later: "quiet_on p a n \<Longrightarrow> a \<le> m \<Longrightarrow> m < n \<Longrightarrow> quiet_on p m n"
  unfolding quiet_on_def by (metis order_trans)

lemma carrier_flag:
  assumes "a + 44 \<le> n"
  shows "(active_on p a n \<longrightarrow> irq0 (cs_state p n)) \<and> (quiet_on p a n \<longrightarrow> \<not> irq0 (cs_state p n))"
proof -
  obtain m where m: "a \<le> m" "m \<le> a + cs_rank (cs_state p a)" "sm_pc (cs_state p m) = 0" using cs_restarts [of a p] by blast
  have "cs_rank (cs_state p a) \<le> 22" using cs_run [of p a] by (intro cs_rank_le) simp
  then have n: "m + 22 \<le> n" "m + (n - m) = n" "m < n" using m(2) assms by linarith+
  have "irq0 (cs_state p n)" if "active_on p a n"
    using cs_busy [OF active_later [OF that m(1)] m(3), of "n - m"] busy_flag [of p m n] n by simp
  moreover have "\<not> irq0 (cs_state p n)" if "quiet_on p a n"
    using cs_quiet [OF quiet_later [OF that m(1) n(3)] m(3), of "n - m"] idle_flag [of "p m" m n] n by simp
  ultimately show ?thesis by blast
qed

text \<open>A signal with three samples to a half-bit is active.\<close>

lemma cell_samples_nth:
  "t < 6 * length ds \<Longrightarrow> cell_samples ds ! t = (if t mod 6 < 3 then ds ! (t div 6) else \<not> ds ! (t div 6))"
proof (induction ds arbitrary: t)
  case (Cons d ds)
  show ?case
  proof (cases "t < 6")
    case True
    then have "t = 0 \<or> t = 1 \<or> t = 2 \<or> t = 3 \<or> t = 4 \<or> t = 5" by linarith
    then show ?thesis by (auto simp: cell_samples_def)
  next
    case False
    then obtain u where u: "t = u + 6" by (metis le_add_diff_inverse2 not_less)
    have "cell_samples (d # ds) ! t = cell_samples ds ! u" by (simp add: cell_samples_def u nth_append)
    moreover have "(u + 6) mod 6 = u mod 6" "(u + 6) div 6 = Suc (u div 6)" by simp_all
    ultimately show ?thesis using Cons.IH [of u] Cons.prems unfolding u by simp
  qed
qed simp

lemma cell_samples_active:
  assumes p: "\<And>t. a \<le> t \<Longrightarrow> t < n \<Longrightarrow> p t = cell_samples ds ! (t - a)" and n: "n \<le> a + 6 * length ds"
  shows "active_on p a n"
  unfolding active_on_def
proof (intro conjI allI impI)
  fix t assume t: "a \<le> t" "t + 2 < n" "p t = p (t + 2)"
  define u where "u = t - a"
  have v: "p (t + j) = (if (u + j) mod 6 < 3 then ds ! ((u + j) div 6) else \<not> ds ! ((u + j) div 6))" if "j \<le> 2" for j
    using p [of "t + j"] cell_samples_nth [of "u + j" ds] t(1,2) that n by (simp add: u_def)
  define q r where "q = u div 6" and "r = u mod 6"
  have u: "u = 6 * q + r" "r < 6" by (simp_all add: q_def r_def)
  have r: "r = 0 \<or> r = 1 \<or> r = 2 \<or> r = 3 \<or> r = 4 \<or> r = 5" using u(2) by linarith
  have w: "p (t + j) = (if (r + j) mod 6 < 3 then ds ! (q + (r + j) div 6) else \<not> ds ! (q + (r + j) div 6))" if "j \<le> 2" for j
  proof -
    have "(u + j) mod 6 = (r + j) mod 6" "(u + j) div 6 = q + (r + j) div 6" unfolding u(1) add.assoc by simp_all
    with v [OF that] show ?thesis by simp
  qed
  from r w [of 0] w [of 1] w [of 2] t(3) show "p (t + 1) = p t"
    by (cases "ds ! q"; cases "ds ! (q + 1)"; elim disjE) simp_all
next
  fix t assume t: "a \<le> t" "t + 18 \<le> n"
  define k where "k = (t - a + 5) div 6"
  have k: "t - a \<le> 6 * k" "6 * k \<le> t - a + 5" unfolding k_def by linarith+
  have v: "p (a + 6 * k + j) = (if j < 3 then ds ! k else \<not> ds ! k)" if "j < 6" for j
  proof -
    have "a + 6 * k + j < n" using k(2) t that by linarith
    then show ?thesis
      using p [of "a + 6 * k + j"] cell_samples_nth [of "6 * k + j" ds] n that by simp
  qed
  define i where "i = a + 6 * k - t"
  have i: "a + 6 * k = t + i" "i \<le> 5" using k t(1) unfolding i_def by linarith+
  have "p (t + i) \<noteq> p (t + (i + 3))" using v [of 0] v [of 3] by (simp add: i(1) add.assoc)
  then have "p (t + i) \<noteq> p t \<or> p (t + (i + 3)) \<noteq> p t" by auto
  then show "\<exists>j < 18. p (t + j) \<noteq> p t"
  proof
    assume "p (t + i) \<noteq> p t" with i(2) show ?thesis by (intro exI [of _ i]) simp
  next
    assume "p (t + (i + 3)) \<noteq> p t" with i(2) show ?thesis by (intro exI [of _ "i + 3"]) simp
  qed
qed

section \<open>The sampler\<close>

text \<open>The word of 32 levels, the first one lowest.\<close>

definition level_word :: "(nat \<Rightarrow> bool) \<Rightarrow> nat \<Rightarrow> u32" where
  "level_word p k = horner_sum of_bool 2 (map (\<lambda>i. p (32 * k + i)) [0..<32])"

lemma bit_level_word: "i < 32 \<Longrightarrow> bit (level_word p k) i = p (32 * k + i)"
  by (simp add: level_word_def bit_horner_sum_bit_word_iff)

lemma rx_cycle:
  "sm_pc s = 0 \<Longrightarrow> isr_n s < 32 \<Longrightarrow> pio_cycle rx_cfg rx_program pin s =
    Some (if isr_n s < 31 then s\<lparr>isr := push_bit 31 (of_bool pin) OR drop_bit 1 (isr s), isr_n := isr_n s + 1\<rparr>
      else if length (rx_q s) < 8
      then s\<lparr>rx_q := rx_q s @ [push_bit 31 (of_bool pin) OR drop_bit 1 (isr s)], isr := 0, isr_n := 0\<rparr>
      else s\<lparr>isr := push_bit 31 (of_bool pin) OR drop_bit 1 (isr s), isr_n := isr_n s + 1\<rparr>)"
  by (auto simp: pio_cycle_def rx_program_def pio_exec_def rx_cfg_def Let_def)

definition rx_at :: "(nat \<Rightarrow> bool) \<Rightarrow> (nat \<Rightarrow> nat) \<Rightarrow> nat \<Rightarrow> pio_sm \<Rightarrow> u32 list \<Rightarrow> bool" where
  "rx_at p rd n s got \<longleftrightarrow> sm_pc s = 0 \<and> isr_n s = n mod 32
     \<and> (\<forall>i < 32. bit (isr s) i \<longleftrightarrow> 32 \<le> i + n mod 32 \<and> p (32 * (n div 32) + (i + n mod 32 - 32)))
     \<and> got @ rx_q s = map (level_word p) [0..<n div 32]
     \<and> length (rx_q s) \<le> 1 \<and> (rx_q s \<noteq> [] \<longrightarrow> (\<forall>t. 32 * (n div 32) \<le> t \<and> t < n \<longrightarrow> rd t = 0))"

lemma rx_step:
  assumes drained: "\<forall>t. \<exists>j < 32. 0 < rd (t + j)" and at: "rx_at p rd n s got"
  shows "\<exists>s'. pio_cycle rx_cfg rx_program (p n) (s\<lparr>tx_q := q, rx_q := drop (rd n) (rx_q s)\<rparr>) = Some s'
    \<and> rx_at p rd (Suc n) s' (got @ take (rd n) (rx_q s))"
proof -
  define k j where "k = n div 32" and "j = n mod 32"
  have n: "n = 32 * k + j" "j < 32" by (simp_all add: k_def j_def)
  let ?s = "s\<lparr>tx_q := q, rx_q := drop (rd n) (rx_q s)\<rparr>" and ?v = "push_bit 31 (of_bool (p n)) OR drop_bit 1 (isr s)"
  have a: "sm_pc s = 0" "isr_n s = j" "\<forall>i < 32. bit (isr s) i \<longleftrightarrow> 32 \<le> i + j \<and> p (32 * k + (i + j - 32))"
    "got @ rx_q s = map (level_word p) [0..<k]" "length (rx_q s) \<le> 1"
    "rx_q s \<noteq> [] \<longrightarrow> (\<forall>t. 32 * k \<le> t \<and> t < n \<longrightarrow> rd t = 0)"
    using at by (simp_all add: rx_at_def k_def j_def)
  have gone: "drop (rd n) (rx_q s) \<noteq> [] \<longrightarrow> rd n = 0" using a(5) by (cases "rx_q s"; cases "rd n") auto
  have v: "bit ?v i \<longleftrightarrow> 32 \<le> i + Suc j \<and> p (32 * k + (i + Suc j - 32))" if "i < 32" for i
  proof (cases "i = 31")
    case True
    have "\<not> bit (isr s) 32" using bit_imp_le_length [of "isr s" 32] by auto
    then show ?thesis using True n(1) by (simp add: bit_simps)
  next
    case False
    then show ?thesis using that a(3) by (auto simp: bit_simps)
  qed
  show ?thesis
  proof (cases "j = 31")
    case False
    then have d: "Suc n div 32 = k" "Suc n mod 32 = Suc j" using n by auto
    have "rx_at p rd (Suc n) (?s\<lparr>isr := ?v, isr_n := Suc j\<rparr>) (got @ take (rd n) (rx_q s))"
      using a gone v unfolding rx_at_def d by (auto simp: less_Suc_eq)
    then show ?thesis using a(1,2) False n(2) by (simp add: rx_cycle)
  next
    case True
    then have d: "Suc n div 32 = Suc k" "Suc n mod 32 = 0" using n by auto
    have empty: "drop (rd n) (rx_q s) = []"
    proof (rule ccontr)
      assume "drop (rd n) (rx_q s) \<noteq> []"
      then have "rd n = 0" "\<forall>t. 32 * k \<le> t \<and> t < n \<longrightarrow> rd t = 0" using gone a(6) by auto
      moreover obtain i where "i < 32" "0 < rd (32 * k + i)" using drained by blast
      ultimately show False using n(1) True by (cases "i = 31") auto
    qed
    then have "got @ take (rd n) (rx_q s) = map (level_word p) [0..<k]" using a(4) append_take_drop_id [of "rd n" "rx_q s"] by simp
    moreover have "?v = level_word p k"
      by (rule bit_word_eqI) (use v True in \<open>simp add: bit_level_word\<close>)
    ultimately have "rx_at p rd (Suc n) (?s\<lparr>rx_q := [?v], isr := 0, isr_n := 0\<rparr>) (got @ take (rd n) (rx_q s))"
      using a(1) n(1) True unfolding rx_at_def d by simp
    then show ?thesis using a(1,2) True empty by (simp add: rx_cycle)
  qed
qed

lemma rx_run:
  assumes "\<forall>t. \<exists>j < 32. 0 < rd (t + j)"
  shows "\<exists>s got. pio_run rx_cfg rx_program p arr rd n sm_start = Some (s, got) \<and> rx_at p rd n s got"
proof (induction n)
  case 0
  then show ?case by (simp add: rx_at_def sm_start_def)
next
  case (Suc n)
  then obtain s got where "pio_run rx_cfg rx_program p arr rd n sm_start = Some (s, got)" "rx_at p rd n s got" by blast
  with rx_step [OF assms, of p n s got "tx_q s @ arr n"] show ?case by auto
qed

text \<open>The bytes of the words, lowest first, are the capture of the levels.\<close>

lemma le32_nth: "r < 4 \<Longrightarrow> j < 8 \<Longrightarrow> bit (to_le32 w ! r) j = bit w (8 * r + j)"
  by (auto simp: to_le32_def less_Suc_eq numeral_eq_Suc bit_simps)

lemma concat_4_nth:
  "(\<And>x. length (f x) = 4) \<Longrightarrow> i < 4 * length xs \<Longrightarrow> concat (map f xs) ! i = f (xs ! (i div 4)) ! (i mod 4)"
proof (induction xs arbitrary: i)
  case (Cons x xs)
  show ?case
  proof (cases "i < 4")
    case False
    then obtain u where u: "i = u + 4" by (metis le_add_diff_inverse2 not_less)
    then have "(u + 4) div 4 = Suc (u div 4)" "(u + 4) mod 4 = u mod 4" by simp_all
    with Cons u show ?thesis by (simp add: nth_append)
  qed (use Cons.prems in \<open>simp add: nth_append\<close>)
qed simp

lemma length_concat_4: "(\<And>x. length (f x) = 4) \<Longrightarrow> length (concat (map f xs)) = 4 * length xs"
  by (induction xs) simp_all

lemma capture_words: "concat (map to_le32 (map (level_word p) [0..<k])) = capture (map p [0..<32 * k])"
proof (rule nth_equalityI)
  show l: "length (concat (map to_le32 (map (level_word p) [0..<k]))) = length (capture (map p [0..<32 * k]))"
    by (simp add: length_concat_4)
  fix i assume "i < length (concat (map to_le32 (map (level_word p) [0..<k])))"
  then have i: "i < 4 * k" by (simp add: length_concat_4)
  show "concat (map to_le32 (map (level_word p) [0..<k])) ! i = capture (map p [0..<32 * k]) ! i"
  proof (rule bit_word_eqI)
    fix j assume "j < LENGTH(8)"
    then have j: "j < 8" by simp
    have "i mod 4 < 4" "8 * (i mod 4) + j < 32" using j by auto
    then have "bit (concat (map to_le32 (map (level_word p) [0..<k])) ! i) j = p (32 * (i div 4) + (8 * (i mod 4) + j))"
      using i j by (simp add: concat_4_nth le32_nth bit_level_word)
    also have "32 * (i div 4) + (8 * (i mod 4) + j) = 8 * i + j"
      using div_mult_mod_eq [of i 4] by linarith
    also have "p (8 * i + j) = bit (capture (map p [0..<32 * k]) ! i) j"
    proof -
      have "8 * i + j < 8 * (length (map p [0..<32 * k]) div 8)" "8 * i + j < 32 * k" using i j by auto
      moreover have "(8 * i + j) div 8 = i" "(8 * i + j) mod 8 = j" using j by simp_all
      ultimately show ?thesis using samp_capture [of "8 * i + j" "map p [0..<32 * k]"] by (simp add: samp_def)
    qed
    finally show "bit (concat (map to_le32 (map (level_word p) [0..<k])) ! i) j = bit (capture (map p [0..<32 * k]) ! i) j" .
  qed
qed

section \<open>From state machine to state machine\<close>

text \<open>The level on the transmit pin during the \<open>n\<close>-th half-bit, and what the pin of a receiver reads three times per half-bit
  when the wires swap the levels and the first half-bit arrives after \<open>d\<close> cycles.\<close>

definition di_level :: "(nat \<Rightarrow> u32 list) \<Rightarrow> pio_sm \<Rightarrow> nat \<Rightarrow> bool" where
  "di_level arr s0 n = (case pio_run tx_cfg tx_program (\<lambda>_. False) arr (\<lambda>_. 0) (n + 3) s0 of
     Some (s, _) \<Rightarrow> side_pin s | None \<Rightarrow> False)"

definition ro_level :: "(nat \<Rightarrow> bool) \<Rightarrow> nat \<Rightarrow> nat \<Rightarrow> bool" where
  "ro_level lv d t = (t < d \<or> \<not> lv ((t - d) div 3))"

lemma di_level_eq:
  assumes "fed_in_time arr ws" and "\<forall>h \<in> set (symbols ws). h < 3" and "ws \<noteq> []" and "tx_idle s0"
  shows "di_level arr s0 n = (symbols ws ! min n (16 * length ws - 1) = 2)"
  using tx_levels [OF assms, of "\<lambda>_. False" "\<lambda>_. 0" n] by (auto simp: di_level_def)

lemma repeat_3_nth: "t < 3 * length hs \<Longrightarrow> concat (map (\<lambda>h. replicate 3 (f h)) hs) ! t = f (hs ! (t div 3))"
proof (induction hs arbitrary: t)
  case (Cons h hs)
  show ?case
  proof (cases "t < 3")
    case False
    then obtain u where u: "t = u + 3" by (metis le_add_diff_inverse2 not_less)
    then have "(u + 3) div 3 = Suc (u div 3)" by simp
    with Cons u show ?thesis by (simp add: nth_append)
  qed (simp add: nth_append)
qed simp

lemma received_samples:
  assumes "fed_in_time arr ws" and "\<forall>h \<in> set (symbols ws). h < 3" and "ws \<noteq> []" and "tx_idle s0"
    and last: "last (symbols ws) = 0" and K: "d + 48 * length ws \<le> N"
  shows "map (ro_level (di_level arr s0) d) [0..<N] = replicate d True @ line_samples ws @ replicate (N - (d + 48 * length ws)) True"
    (is "?l = ?r")
proof (rule nth_equalityI)
  show l: "length ?l = length ?r" using K by (simp add: length_line_samples)
  fix t assume "t < length ?l"
  then have t: "t < N" by simp
  have z: "symbols ws ! (16 * length ws - 1) = 0" using last assms(3) by (simp add: last_conv_nth)
  have "ro_level (di_level arr s0) d t = ?r ! t"
  proof (cases "t < d \<or> d + 48 * length ws \<le> t")
    case True
    then show ?thesis
    proof
      assume "t < d" then show ?thesis by (simp add: ro_level_def nth_append)
    next
      assume "d + 48 * length ws \<le> t"
      then have "min ((t - d) div 3) (16 * length ws - 1) = 16 * length ws - 1" by linarith
      moreover have "\<not> t - d < 48 * length ws" using \<open>d + 48 * length ws \<le> t\<close> by linarith
      ultimately show ?thesis using z t \<open>d + 48 * length ws \<le> t\<close>
        by (simp add: ro_level_def di_level_eq [OF assms(1-4)] nth_append length_line_samples)
    qed
  next
    case False
    then have d: "t - d < 3 * length (symbols ws)" "(t - d) div 3 \<le> 16 * length ws - 1" by auto
    have in_frame: "t - d < 48 * length ws" using False by linarith
    have "line_samples ws ! (t - d) = (symbols ws ! ((t - d) div 3) \<noteq> 2)"
      unfolding line_samples_def symbols_def [symmetric] by (rule repeat_3_nth [OF d(1)])
    then show ?thesis using False d(2) in_frame
      by (simp add: ro_level_def di_level_eq [OF assms(1-4)] nth_append length_line_samples min_absorb1)
  qed
  then show "?l ! t = ?r ! t" using t by simp
qed

lemma received_frame:
  assumes body: "self_describing body" and "tx_idle s0"
    and fed: "fed_in_time arr (on_wire (frame_bytes body))" and rd: "\<forall>t. \<exists>j < 32. 0 < rd (t + j)"
    and N: "d + 48 * length (on_wire (frame_bytes body)) \<le> 32 * K" "32 * K < 2 ^ 32"
  shows "\<exists>s got fr. pio_run rx_cfg rx_program (ro_level (di_level arr s0) d) arr' rd (32 * K) sm_start = Some (s, got)
    \<and> decode_frame_edge_track (concat (map to_le32 (got @ rx_q s))) = Some (Some fr)
    \<and> derive_frame_len fr = max (length body) 60 + 4 \<and> verify_fcs fr (derive_frame_len fr)
    \<and> take (derive_frame_len fr) fr = frame_bytes body"
proof -
  let ?bs = "frame_bytes body" and ?p = "ro_level (di_level arr s0) d"
  obtain s got where run: "pio_run rx_cfg rx_program ?p arr' rd (32 * K) sm_start = Some (s, got)"
    and "rx_at ?p rd (32 * K) s got" using rx_run [OF rd] by blast
  then have words: "concat (map to_le32 (got @ rx_q s)) = capture (map ?p [0..<32 * K])"
    using capture_words [of ?p K] by (simp add: rx_at_def)
  obtain post where w: "line_samples (on_wire ?bs) = cell_samples (True # preamble_bits (Suc 30) @ concat (map bits_of ?bs)) @ post"
    "9 \<le> length post" using line_samples_on_wire [of ?bs] by blast
  define ws where "ws = map ?p [0..<32 * K]"
  define post' where "post' = post @ replicate (32 * K - (d + 48 * length (on_wire ?bs))) True"
  have ws: "ws = replicate d True @ cell_samples (True # preamble_bits (Suc 30) @ concat (map bits_of ?bs)) @ post'"
    using received_samples [OF fed on_wire_symbols(1,3) assms(2) on_wire_symbols(2) N(1)] w(1)
    by (simp add: ws_def post'_def)
  have "?bs \<noteq> []" using length_frame_bytes [of body] by auto
  with decode_capture [OF ws _ _ _ _] w(2) N(2) obtain rest where
    r: "decode_frame_edge_track (capture ws) = Some (Some (take (frame_cap ?bs) ?bs @ rest))"
    "frame_cap ?bs \<le> length ?bs \<longrightarrow> rest = []" by (auto simp: ws_def post'_def)
  have take: "take (frame_cap ?bs) ?bs = ?bs"
    using received_length(2) [OF body r(2)] by (cases "frame_cap ?bs \<le> length ?bs") simp_all
  have dl: "derive_frame_len (?bs @ rest) = max (length body) 60 + 4"
    using received_length(1) [OF body r(2)] by (simp add: length_frame_bytes)
  have "verify_fcs (?bs @ rest) (max (length body) 60 + 4)" by (rule verify_frame_bytes)
  then show ?thesis
    using run words r(1) dl length_frame_bytes [of body]
    by (intro exI [of _ s] exI [of _ got] exI [of _ "?bs @ rest"]) (simp add: ws_def [symmetric] take)
qed

section \<open>Properties\<close>

text \<open>The symbol sender: whatever words are queued, if each is there when the one before has been shifted out and no
  half-bit is the fourth symbol, the data pin has during the \<open>n\<close>-th half-bit time the level of the \<open>n\<close>-th half-bit, low ones first
  in each word, and keeps the last level afterwards; a burst that ends low leaves the machine waiting as it began.\<close>

theorem pio_sends_symbols:
  assumes "fed_in_time arr ws" and "\<forall>h \<in> set (symbols ws). h < 3" and "ws \<noteq> []" and "tx_idle s0"
  shows "\<exists>s. pio_run tx_cfg tx_program p arr rd (n + 3) s0 = Some (s, [])
    \<and> side_pin s = (symbols ws ! min n (16 * length ws - 1) = 2)
    \<and> (16 * length ws \<le> n \<and> last (symbols ws) = 0 \<longrightarrow> tx_idle s)"
  by (rule tx_levels [OF assms])

definition at_once :: "u32 list \<Rightarrow> nat \<Rightarrow> u32 list" where
  "at_once ws t = (if t = 0 then ws else [])"

lemma fed_at_once: "fed_in_time (at_once ws) ws"
proof -
  have w: "written (at_once ws) n = take (if n = 0 then 0 else length ws) ws" for n
    by (induction n) (simp_all add: at_once_def)
  then have "\<exists>m. written (at_once ws) n = take m ws" for n by blast
  moreover have "k < length (written (at_once ws) (16 * k + 1))" if "k < length ws" for k using that by (simp only: w) simp
  ultimately show ?thesis unfolding fed_in_time_def by blast
qed

lemma tx_idle_start: "tx_idle sm_start"
  by (simp add: tx_idle_def sm_start_def)

theorem pio_sends_symbols_witness:
  "\<exists>s. pio_run tx_cfg tx_program (\<lambda>_. False) (at_once (on_wire [1, 2])) (\<lambda>_. 0) 503 sm_start = Some (s, [])
    \<and> \<not> side_pin s \<and> tx_idle s"
proof -
  have l: "length (on_wire [1, 2]) = 23" by (simp add: on_wire_def encode_def)
  have "min 500 (16 * length (on_wire [1, 2]) - 1) = length (symbols (on_wire [1, 2])) - 1" by (simp add: l)
  moreover have "symbols (on_wire [1, 2]) ! (length (symbols (on_wire [1, 2])) - 1) = 0"
    using on_wire_symbols(2,3) [of "[1, 2]"] by (simp add: last_conv_nth del: length_symbols)
  ultimately show ?thesis
    using pio_sends_symbols [OF fed_at_once on_wire_symbols(1,3) tx_idle_start,
        where bs1 = "[1, 2]" and p = "\<lambda>_. False" and rd = "\<lambda>_. 0" and n = 500]
      on_wire_symbols(2) [of "[1, 2]"] by (simp add: l)
qed

text \<open>C22. The carrier detector: on every line it runs forever, and its flag is right 44 cycles (733 ns) after the line became
  active (no level for a single sample or for 18 and more) or quiet, and as long as it stays so. A Manchester
  signal of three samples a half-bit is active.\<close>

theorem carrier_sense_tracks:
  assumes "a + 44 \<le> n"
  shows "pio_run cs_cfg cs_program p (\<lambda>_. []) (\<lambda>_. 0) n sm_start = Some (cs_state p n, [])
    \<and> (active_on p a n \<longrightarrow> irq0 (cs_state p n)) \<and> (quiet_on p a n \<longrightarrow> \<not> irq0 (cs_state p n))
    \<and> ((\<forall>t \<ge> a. t < n \<longrightarrow> p t = cell_samples ds ! (t - a)) \<and> n \<le> a + 6 * length ds \<longrightarrow> irq0 (cs_state p n))"
  using cs_run [of p n] carrier_flag [OF assms, of p] cell_samples_active [of a n p ds] by blast

theorem carrier_sense_tracks_witness:
  "\<not> irq0 (cs_state (\<lambda>_. False) 44) \<and> irq0 (cs_state (\<lambda>t. cell_samples (replicate 10 True) ! t) 50)"
  using carrier_sense_tracks [of 0 44 "\<lambda>_. False"]
    carrier_sense_tracks [of 0 50 "\<lambda>t. cell_samples (replicate 10 True) ! t" "replicate 10 True"]
  by (simp add: quiet_on_def)

text \<open>C2. From processor to processor: a frame that \<open>send_raw_frame\<close> queues, handed to the symbol sender in time, read off the wire by
  the sampler of another board after any delay, with a DMA that empties its FIFO once per word, arrives in memory
  as bytes that decode to the frame that was sent.\<close>

theorem pio_link_round_trip:
  assumes "EthTx.drains hw" and "self_describing body" and sent: "send_raw_frame hw tx body = Some tx'"
    and "tx_idle s0" and fed: "fed_in_time arr (drop (length (sent tx)) (sent tx'))" and "\<forall>t. \<exists>j < 32. 0 < rd (t + j)"
    and N: "d + 48 * length (drop (length (sent tx)) (sent tx')) \<le> 32 * K" "32 * K < 2 ^ 32"
  shows "\<exists>s got fr. pio_run rx_cfg rx_program (ro_level (di_level arr s0) d) arr' rd (32 * K) sm_start = Some (s, got)
    \<and> decode_frame_edge_track (concat (map to_le32 (got @ rx_q s))) = Some (Some fr)
    \<and> derive_frame_len fr = max (length body) 60 + 4 \<and> verify_fcs fr (derive_frame_len fr)
    \<and> take (derive_frame_len fr) fr = frame_bytes body"
proof -
  obtain t l where "send_raw_frame hw tx body = Some (tx\<lparr>clock := t, lfsr := l, sent := sent tx @ on_wire (frame_bytes body)\<rparr>)"
    using send_raw_frame_ok [OF assms(1)] by blast
  with sent have "drop (length (sent tx)) (sent tx') = on_wire (frame_bytes body)" by auto
  with received_frame [OF assms(2,4) _ assms(6)] fed N show ?thesis by simp
qed

theorem pio_link_round_trip_witness:
  "let body = replicate 12 1 @ [8, 6] @ replicate 28 9;
       p = ro_level (di_level (at_once (drop 0 (sent (the (send_raw_frame idle_line (tx_new 0) body))))) sm_start) 5
   in \<exists>s got fr. pio_run rx_cfg rx_program p (\<lambda>_. []) (\<lambda>_. 1) (32 * 128) sm_start = Some (s, got)
    \<and> decode_frame_edge_track (concat (map to_le32 (got @ rx_q s))) = Some (Some fr)
    \<and> derive_frame_len fr = 64 \<and> verify_fcs fr 64 \<and> take 64 fr = frame_bytes body"
proof -
  let ?body = "replicate 12 1 @ [8, 6] @ replicate 28 (9 :: u8)"
  obtain t l where s: "send_raw_frame idle_line (tx_new 0) ?body
      = Some ((tx_new 0)\<lparr>clock := t, lfsr := l, sent := sent (tx_new 0) @ on_wire (frame_bytes ?body)\<rparr>)"
    using send_raw_frame_ok [OF drains_idle_line] by blast
  have e: "sent (tx_new 0) = []" by (simp add: tx_new_def)
  have w: "drop 0 (sent (the (send_raw_frame idle_line (tx_new 0) ?body))) = on_wire (frame_bytes ?body)"
    by (simp only: s option.sel drop_0) (simp add: e)
  have n: "5 + 48 * length (on_wire (frame_bytes ?body)) \<le> 32 * 128"
    by (simp add: on_wire_def encode_def length_frame_bytes)
  have body: "self_describing ?body" by code_simp
  note t = pio_link_round_trip [OF drains_idle_line body s tx_idle_start, where arr = "at_once (on_wire (frame_bytes ?body))"
      and rd = "\<lambda>_. 1" and arr' = "\<lambda>_. []" and d = 5 and K = 128]
  have "\<exists>s got fr. pio_run rx_cfg rx_program (ro_level (di_level (at_once (on_wire (frame_bytes ?body))) sm_start) 5)
        (\<lambda>_. []) (\<lambda>_. 1) (32 * 128) sm_start = Some (s, got)
    \<and> decode_frame_edge_track (concat (map to_le32 (got @ rx_q s))) = Some (Some fr)
    \<and> derive_frame_len fr = max (length ?body) 60 + 4 \<and> verify_fcs fr (derive_frame_len fr)
    \<and> take (derive_frame_len fr) fr = frame_bytes ?body"
    by (rule t) (use n in \<open>simp_all add: e fed_at_once exI [of _ 0]\<close>)
  then obtain s' got fr where "pio_run rx_cfg rx_program (ro_level (di_level (at_once (on_wire (frame_bytes ?body))) sm_start) 5)
        (\<lambda>_. []) (\<lambda>_. 1) (32 * 128) sm_start = Some (s', got)"
    "decode_frame_edge_track (concat (map to_le32 (got @ rx_q s'))) = Some (Some fr)"
    "derive_frame_len fr = 64" "verify_fcs fr 64" "take 64 fr = frame_bytes ?body"
    by (elim exE conjE) (rule that, assumption+, simp_all)
  then show ?thesis unfolding Let_def w by (intro exI conjI)
qed

text \<open>The comment at the program counts 8 iterations, 267 ns, before a quiet line is taken for idle; the counter runs from 8
  down to 0, nine iterations: after the base reading the branch to \<open>idle\<close> is reached in cycle 20, and a level of 17 cycles
  (283 ns) still counts as carrier.\<close>

lemma guard_is_nine_iterations:
  "map (\<lambda>n. sm_pc (cs_state (\<lambda>_. False) n)) [18, 19, 20, 21] = [2, 3, 4, 11]"
  by code_simp

end
