(* ===== verification/Gspi.thy ===== *)
theory Gspi
  imports Pio Board
begin

text \<open>
  The gSPI program of \<^verbatim>\<open>build_gspi_sm\<close> (\<^verbatim>\<open>src/wireless.rs\<close>) on the machine of Pio, one transaction at a time: the words
  that \<^verbatim>\<open>cmd_write\<close> and \<^verbatim>\<open>cmd_read\<close> push (Board) and the bits that cross the bus at the rising edges of the clock. The processor may
  write and read the FIFOs at any time: the machine waits, with the clock standing still.
\<close>

section \<open>The program\<close>

definition gspi_program :: "pio_instr list" where
  "gspi_program =
     [(OUT REG_X 32, Some False),
      (OUT REG_Y 32, Some False),
      (SET PINDIRS 1, Some False),
      (OUT PINS 1, Some False),
      (JMP X_DEC 3, Some True),
      (SET PINDIRS 0, Some False),
      (NOP, Some False),
      (IN_PIN, Some True),
      (JMP Y_DEC 7, Some False)]"

definition gspi_cfg :: pio_cfg where
  "gspi_cfg = \<lparr>auto_pull = True, out_right = False, in_right = False, rx_depth = 4\<rparr>"

section \<open>Bits\<close>

definition msb_bits :: "u32 \<Rightarrow> bool list" where
  "msb_bits w = map (\<lambda>i. bit w (31 - i)) [0..<32]"

definition bus_bits :: "u32 list \<Rightarrow> bool list" where
  "bus_bits ws = concat (map msb_bits ws)"

definition msb_word :: "bool list \<Rightarrow> u32" where
  "msb_word bs = foldl (\<lambda>w b. push_bit 1 w OR of_bool b) 0 bs"

definition in_words :: "bool list \<Rightarrow> u32 list" where
  "in_words S = map (\<lambda>k. msb_word (take 32 (drop (32 * k) S))) [0..<length S div 32]"

lemma length_bus_bits [simp]: "length (bus_bits ws) = 32 * length ws"
  by (induction ws) (simp_all add: bus_bits_def msb_bits_def)

lemma bus_bits_nth: "b < 32 * length ws \<Longrightarrow> bus_bits ws ! b = bit (ws ! (b div 32)) (31 - b mod 32)"
proof (induction ws arbitrary: b)
  case (Cons w ws)
  have l: "length (msb_bits w) = 32" by (simp add: msb_bits_def)
  show ?case
  proof (cases "b < 32")
    case True
    then show ?thesis using l by (simp add: bus_bits_def nth_append msb_bits_def)
  next
    case False
    then obtain u where u: "b = u + 32" by (metis le_add_diff_inverse2 not_less)
    then have "(u + 32) div 32 = Suc (u div 32)" "(u + 32) mod 32 = u mod 32" by simp_all
    with Cons u l show ?thesis by (simp add: bus_bits_def nth_append)
  qed
qed simp

lemma msb_word_snoc: "msb_word (bs @ [b]) = push_bit 1 (msb_word bs) OR of_bool b"
  by (simp add: msb_word_def)

text \<open>A last sample either completes a word or not.\<close>

lemma in_words_snoc:
  "in_words (S @ [b]) = (if Suc (length S) mod 32 = 0 then in_words S @ [msb_word (drop (32 * (length S div 32)) (S @ [b]))] else in_words S)"
proof -
  define k r where "k = length S div 32" and "r = length S mod 32"
  have n: "length S = 32 * k + r" "r < 32" by (simp_all add: k_def r_def)
  have old: "map (\<lambda>k. msb_word (take 32 (drop (32 * k) (S @ [b])))) [0..<k] = in_words S"
    unfolding in_words_def k_def [symmetric] using n by (intro map_cong refl) auto
  show ?thesis
  proof (cases "r = 31")
    case True
    then have "Suc (length S) div 32 = Suc k" "Suc (length S) mod 32 = 0" using n by auto
    moreover have "take 32 (drop (32 * k) (S @ [b])) = drop (32 * k) (S @ [b])" using n True by simp
    ultimately show ?thesis using old unfolding k_def [symmetric] by (simp add: in_words_def [of "S @ [b]"])
  next
    case False
    then have "Suc (length S) div 32 = k" "Suc (length S) mod 32 \<noteq> 0" using n by auto
    then show ?thesis using old by (simp add: in_words_def [of "S @ [b]"])
  qed
qed

lemma in_words_Nil [simp]: "in_words [] = []"
  by (simp add: in_words_def)

section \<open>The output register\<close>

text \<open>\<open>pos\<close> bits of the words \<open>W\<close> have been shifted out, the words \<open>Q\<close> have been written so far.\<close>

definition fetch_at :: "u32 list \<Rightarrow> u32 list \<Rightarrow> nat \<Rightarrow> pio_sm \<Rightarrow> bool" where
  "fetch_at W Q pos s \<longleftrightarrow>
     osr_n s = 32 \<and> pos mod 32 = 0 \<and> pos div 32 \<le> length Q \<and> tx_q s = drop (pos div 32) Q
     \<or> osr_n s = pos mod 32 \<and> pos div 32 < length Q \<and> osr s = push_bit (pos mod 32) (W ! (pos div 32))
       \<and> tx_q s = drop (Suc (pos div 32)) Q"

lemma refill_fields [simp]:
  "sm_pc (refill s) = sm_pc s" "sm_x (refill s) = sm_x s" "sm_y (refill s) = sm_y s" "isr (refill s) = isr s"
  "isr_n (refill s) = isr_n s" "data_pin (refill s) = data_pin s" "data_dir (refill s) = data_dir s"
  "side_pin (refill s) = side_pin s" "rx_q (refill s) = rx_q s" "irq0 (refill s) = irq0 s"
  by (simp_all add: refill_def split: list.split)

lemma fetch_refill:
  assumes "osr_n s = 32" and "pos mod 32 = 0" and "pos div 32 \<le> length Q" and "tx_q s = drop (pos div 32) Q"
    and "Q = take (length Q) W"
  shows "fetch_at W Q pos (refill s)"
proof (cases "pos div 32 < length Q")
  case True
  have "Q ! (pos div 32) = W ! (pos div 32)" using assms(5) True by (metis nth_take)
  then show ?thesis using refill_word [OF _ True assms(4)] assms(1,2) True by (simp add: fetch_at_def)
next
  case False
  then show ?thesis using assms by (simp add: fetch_at_def refill_def)
qed

lemma fetch_cong:
  "osr_n s = osr_n s' \<Longrightarrow> osr s = osr s' \<Longrightarrow> tx_q s = tx_q s' \<Longrightarrow> fetch_at W Q pos s = fetch_at W Q pos s'"
  by (simp add: fetch_at_def)

lemma fetch_arrive:
  assumes "fetch_at W Q pos s" and "osr_n s' = osr_n s" and "osr s' = osr s" and "tx_q s' = tx_q s @ a"
  shows "fetch_at W (Q @ a) pos s'"
  using assms by (auto simp: fetch_at_def)

lemma fetch_stall:
  assumes "fetch_at W Q pos s" and "32 \<le> osr_n s" and "Q = take (length Q) W"
  shows "fetch_at W Q pos (refill s)"
proof -
  have "pos mod 32 < 32" by simp
  then have "osr_n s = 32" "pos mod 32 = 0" "pos div 32 \<le> length Q" "tx_q s = drop (pos div 32) Q"
    using assms(1,2) by (auto simp: fetch_at_def)
  then show ?thesis by (rule fetch_refill [OF _ _ _ _ assms(3)])
qed

lemma fetch_bit:
  assumes at: "fetch_at W Q pos s" and n: "osr_n s < 32" and pre: "Q = take (length Q) W"
  shows "bit (drop_bit 31 (osr s)) 0 = bit (W ! (pos div 32)) (31 - pos mod 32)"
    and "fetch_at W Q (Suc pos) (refill (s\<lparr>osr := push_bit 1 (osr s), osr_n := min 32 (osr_n s + 1)\<rparr>))"
proof -
  have a: "osr_n s = pos mod 32" "pos div 32 < length Q" "osr s = push_bit (pos mod 32) (W ! (pos div 32))"
    "tx_q s = drop (Suc (pos div 32)) Q" using at n by (auto simp: fetch_at_def)
  have "pos mod 32 \<le> 31" by simp
  then show "bit (drop_bit 31 (osr s)) 0 = bit (W ! (pos div 32)) (31 - pos mod 32)"
    unfolding a(3) by (simp add: bit_simps)
  let ?s = "s\<lparr>osr := push_bit 1 (osr s), osr_n := min 32 (osr_n s + 1)\<rparr>"
  show "fetch_at W Q (Suc pos) (refill ?s)"
  proof (cases "pos mod 32 = 31")
    case True
    then have "Suc pos mod 32 = 0" "Suc pos div 32 = Suc (pos div 32)" by (simp_all add: mod_Suc div_Suc)
    then show ?thesis using a True by (intro fetch_refill [OF _ _ _ _ pre]) simp_all
  next
    case False
    then have "Suc pos mod 32 = Suc (pos mod 32)" "Suc pos div 32 = pos div 32" by (simp_all add: mod_Suc div_Suc)
    moreover have "pos mod 32 < 31" using False \<open>pos mod 32 \<le> 31\<close> by linarith
    ultimately show ?thesis using a by (simp add: fetch_at_def refill_def push_bit_push_bit add.commute)
  qed
qed

lemma fetch_word:
  assumes at: "fetch_at W Q pos s" and n: "osr_n s < 32" and pos: "pos mod 32 = 0" and pre: "Q = take (length Q) W"
  shows "osr s = W ! (pos div 32)"
    and "fetch_at W Q (pos + 32) (refill (s\<lparr>osr := push_bit 32 (osr s), osr_n := min 32 (osr_n s + 32)\<rparr>))"
proof -
  have a: "osr_n s = 0" "pos div 32 < length Q" "osr s = W ! (pos div 32)" "tx_q s = drop (Suc (pos div 32)) Q"
    using at n pos by (auto simp: fetch_at_def)
  then show "osr s = W ! (pos div 32)" by simp
  have "(pos + 32) mod 32 = 0" "(pos + 32) div 32 = Suc (pos div 32)" using pos by simp_all
  then show "fetch_at W Q (pos + 32) (refill (s\<lparr>osr := push_bit 32 (osr s), osr_n := min 32 (osr_n s + 32)\<rparr>))"
    using a by (intro fetch_refill [OF _ _ _ _ pre]) simp_all
qed

section \<open>A transaction\<close>

text \<open>The machine after \<open>i\<close> steps of the program, \<open>b\<close> bits driven and \<open>S\<close> sampled; \<open>got\<close> was read from its FIFO before. A bit
  crosses the bus at a rising edge of the clock: the host's, if it drives the line (\<^const>\<open>True\<close>), or the chip's.\<close>

definition txn :: "u32 list \<Rightarrow> nat \<Rightarrow> u32 list" where
  "txn ws m = of_nat (32 * length ws - 1) # of_nat (32 * m - 1) # ws"

definition driven :: "u32 list \<Rightarrow> nat \<Rightarrow> (bool \<times> bool) list" where
  "driven ws b = map (Pair True) (take b (bus_bits ws))"

definition crossed :: "u32 list \<Rightarrow> bool list \<Rightarrow> (bool \<times> bool) list" where
  "crossed ws S = driven ws (32 * length ws) @ map (Pair False) S"

definition gspi_steps :: "u32 list \<Rightarrow> nat \<Rightarrow> nat" where
  "gspi_steps ws m = 5 + 64 * length ws + 64 * m"

inductive gspi_at ::
  "u32 list \<Rightarrow> nat \<Rightarrow> u32 list \<Rightarrow> nat \<Rightarrow> pio_sm \<Rightarrow> u32 list \<Rightarrow> (bool \<times> bool) list \<Rightarrow> bool" for ws m Q where
  head: "i < 3 \<Longrightarrow> sm_pc s = i \<Longrightarrow> \<not> side_pin s \<Longrightarrow> (1 \<le> i \<longrightarrow> sm_x s = of_nat (32 * length ws - 1)) \<Longrightarrow>
    (i = 2 \<longrightarrow> sm_y s = of_nat (32 * m - 1)) \<Longrightarrow> fetch_at (txn ws m) Q (32 * i) s \<Longrightarrow> isr_n s = 0 \<Longrightarrow> isr s = 0 \<Longrightarrow>
    got @ rx_q s = [] \<Longrightarrow> gspi_at ws m Q i s got []"
| put: "b < 32 * length ws \<Longrightarrow> sm_pc s = 3 \<Longrightarrow> data_dir s \<Longrightarrow> sm_x s = of_nat (32 * length ws - 1 - b) \<Longrightarrow>
    sm_y s = of_nat (32 * m - 1) \<Longrightarrow> fetch_at (txn ws m) Q (64 + b) s \<Longrightarrow> isr_n s = 0 \<Longrightarrow> isr s = 0 \<Longrightarrow>
    got @ rx_q s = [] \<Longrightarrow> gspi_at ws m Q (3 + 2 * b) s got (driven ws b)"
| clk: "b < 32 * length ws \<Longrightarrow> sm_pc s = 4 \<Longrightarrow> data_dir s \<Longrightarrow> \<not> side_pin s \<Longrightarrow> data_pin s = bus_bits ws ! b \<Longrightarrow>
    sm_x s = of_nat (32 * length ws - 1 - b) \<Longrightarrow> sm_y s = of_nat (32 * m - 1) \<Longrightarrow>
    fetch_at (txn ws m) Q (64 + Suc b) s \<Longrightarrow> isr_n s = 0 \<Longrightarrow> isr s = 0 \<Longrightarrow> got @ rx_q s = [] \<Longrightarrow>
    gspi_at ws m Q (4 + 2 * b) s got (driven ws b)"
| turn: "sm_pc s = 5 + d \<Longrightarrow> d < 2 \<Longrightarrow> (d = 1 \<longrightarrow> \<not> data_dir s \<and> \<not> side_pin s) \<Longrightarrow> sm_y s = of_nat (32 * m - 1) \<Longrightarrow>
    fetch_at (txn ws m) Q (64 + 32 * length ws) s \<Longrightarrow> isr_n s = 0 \<Longrightarrow> isr s = 0 \<Longrightarrow> got @ rx_q s = [] \<Longrightarrow>
    gspi_at ws m Q (3 + 64 * length ws + d) s got (crossed ws [])"
| samp: "length S < 32 * m \<Longrightarrow> sm_pc s = 7 \<Longrightarrow> \<not> data_dir s \<Longrightarrow> \<not> side_pin s \<Longrightarrow> sm_y s = of_nat (32 * m - 1 - length S) \<Longrightarrow>
    fetch_at (txn ws m) Q (64 + 32 * length ws) s \<Longrightarrow> isr_n s = length S mod 32 \<Longrightarrow>
    isr s = msb_word (drop (32 * (length S div 32)) S) \<Longrightarrow> got @ rx_q s = in_words S \<Longrightarrow>
    gspi_at ws m Q (5 + 64 * length ws + 2 * length S) s got (crossed ws S)"
| hold: "length S < 32 * m \<Longrightarrow> Suc (length S) mod 32 = 0 \<Longrightarrow> sm_pc s = 7 \<Longrightarrow> \<not> data_dir s \<Longrightarrow> side_pin s \<Longrightarrow>
    sm_y s = of_nat (32 * m - 1 - length S) \<Longrightarrow> fetch_at (txn ws m) Q (64 + 32 * length ws) s \<Longrightarrow> isr_n s = 32 \<Longrightarrow>
    isr s = msb_word (drop (32 * (length S div 32)) (S @ [b])) \<Longrightarrow> got @ rx_q s = in_words S \<Longrightarrow>
    gspi_at ws m Q (5 + 64 * length ws + 2 * length S) s got (crossed ws (S @ [b]))"
| count: "length S < 32 * m \<Longrightarrow> sm_pc s = 8 \<Longrightarrow> \<not> data_dir s \<Longrightarrow> sm_y s = of_nat (32 * m - 1 - length S) \<Longrightarrow>
    fetch_at (txn ws m) Q (64 + 32 * length ws) s \<Longrightarrow> isr_n s = Suc (length S) mod 32 \<Longrightarrow>
    isr s = msb_word (drop (32 * (Suc (length S) div 32)) (S @ [b])) \<Longrightarrow> got @ rx_q s = in_words (S @ [b]) \<Longrightarrow>
    gspi_at ws m Q (6 + 64 * length ws + 2 * length S) s got (crossed ws (S @ [b]))"
| over: "length S = 32 * m \<Longrightarrow> sm_pc s = 0 \<Longrightarrow> \<not> side_pin s \<Longrightarrow> fetch_at (txn ws m) Q (64 + 32 * length ws) s \<Longrightarrow>
    isr_n s = 0 \<Longrightarrow> isr s = 0 \<Longrightarrow> got @ rx_q s = in_words S \<Longrightarrow> gspi_at ws m Q (gspi_steps ws m) s got (crossed ws S)"

text \<open>What the processor does between two cycles changes none of that.\<close>

lemma gspi_arrive:
  assumes "gspi_at ws m Q i s got E"
  shows "gspi_at ws m (Q @ a) i (s\<lparr>tx_q := tx_q s @ a, rx_q := drop r (rx_q s)\<rparr>) (got @ take r (rx_q s)) E"
  using assms
proof cases
  case head
  then show ?thesis by (auto intro!: gspi_at.head intro: fetch_arrive)
next
  case (put b)
  show ?thesis unfolding put(1,2) by (rule gspi_at.put) (use put in \<open>auto intro: fetch_arrive\<close>)
next
  case (clk b)
  show ?thesis unfolding clk(1,2) by (rule gspi_at.clk) (use clk in \<open>auto intro: fetch_arrive\<close>)
next
  case (turn d)
  show ?thesis unfolding turn(1,2) by (rule gspi_at.turn) (use turn in \<open>auto intro: fetch_arrive\<close>)
next
  case (samp S)
  show ?thesis unfolding samp(1,2) by (rule gspi_at.samp) (use samp in \<open>auto intro: fetch_arrive\<close>)
next
  case (hold S b)
  show ?thesis unfolding hold(1,2) by (rule gspi_at.hold) (use hold in \<open>auto intro: fetch_arrive\<close>)
next
  case (count S b)
  show ?thesis unfolding count(1,2) by (rule gspi_at.count) (use count in \<open>auto intro: fetch_arrive\<close>)
next
  case (over S)
  show ?thesis unfolding over(1,2) by (rule gspi_at.over) (use over in \<open>auto intro: fetch_arrive\<close>)
qed


text \<open>One cycle, at every address.\<close>

lemma gspi_cycle:
  "sm_pc s = 0 \<Longrightarrow> pio_cycle gspi_cfg gspi_program pin s = Some (let s = s\<lparr>side_pin := False\<rparr> in
     if 32 \<le> osr_n s then refill s
     else (refill (s\<lparr>osr := push_bit 32 (osr s), osr_n := min 32 (osr_n s + 32)\<rparr>))\<lparr>sm_x := osr s, sm_pc := 1\<rparr>)"
  "sm_pc s = 1 \<Longrightarrow> pio_cycle gspi_cfg gspi_program pin s = Some (let s = s\<lparr>side_pin := False\<rparr> in
     if 32 \<le> osr_n s then refill s
     else (refill (s\<lparr>osr := push_bit 32 (osr s), osr_n := min 32 (osr_n s + 32)\<rparr>))\<lparr>sm_y := osr s, sm_pc := 2\<rparr>)"
  "sm_pc s = 2 \<Longrightarrow> pio_cycle gspi_cfg gspi_program pin s
     = Some ((refill (s\<lparr>side_pin := False\<rparr>))\<lparr>data_dir := True, sm_pc := 3\<rparr>)"
  "sm_pc s = 3 \<Longrightarrow> pio_cycle gspi_cfg gspi_program pin s = Some (let s = s\<lparr>side_pin := False\<rparr> in
     if 32 \<le> osr_n s then refill s
     else (refill (s\<lparr>osr := push_bit 1 (osr s), osr_n := min 32 (osr_n s + 1)\<rparr>))
       \<lparr>data_pin := bit (drop_bit 31 (osr s)) 0, sm_pc := 4\<rparr>)"
  "sm_pc s = 4 \<Longrightarrow> pio_cycle gspi_cfg gspi_program pin s
     = Some ((refill (s\<lparr>side_pin := True\<rparr>))\<lparr>sm_pc := (if sm_x s \<noteq> 0 then 3 else 5), sm_x := sm_x s - 1\<rparr>)"
  "sm_pc s = 5 \<Longrightarrow> pio_cycle gspi_cfg gspi_program pin s
     = Some ((refill (s\<lparr>side_pin := False\<rparr>))\<lparr>data_dir := False, sm_pc := 6\<rparr>)"
  "sm_pc s = 6 \<Longrightarrow> pio_cycle gspi_cfg gspi_program pin s = Some ((refill (s\<lparr>side_pin := False\<rparr>))\<lparr>sm_pc := 7\<rparr>)"
  "sm_pc s = 7 \<Longrightarrow> pio_cycle gspi_cfg gspi_program pin s = Some (let s = refill (s\<lparr>side_pin := True\<rparr>);
     s = (if isr_n s < 32 then s\<lparr>isr := push_bit 1 (isr s) OR of_bool pin, isr_n := isr_n s + 1\<rparr> else s)
     in if isr_n s < 32 then s\<lparr>sm_pc := 8\<rparr>
        else if length (rx_q s) < 4 then s\<lparr>rx_q := rx_q s @ [isr s], isr := 0, isr_n := 0, sm_pc := 8\<rparr> else s)"
  "sm_pc s = 8 \<Longrightarrow> pio_cycle gspi_cfg gspi_program pin s
     = Some ((refill (s\<lparr>side_pin := False\<rparr>))\<lparr>sm_pc := (if sm_y s \<noteq> 0 then 7 else 0), sm_y := sm_y s - 1\<rparr>)"
  by (simp_all add: pio_cycle_def gspi_program_def gspi_cfg_def pio_exec_def set_reg_def Let_def)

text \<open>A full register after a cycle means that no word is waiting; other instructions keep their place in the words.\<close>

lemma fetch_refill_any:
  assumes "fetch_at W Q pos s" and "Q = take (length Q) W" and "osr_n s' = osr_n s" "osr s' = osr s" "tx_q s' = tx_q s"
  shows "fetch_at W Q pos (refill s')"
proof (cases "32 \<le> osr_n s")
  case True
  have "fetch_at W Q pos s'" using assms fetch_cong [of s s' W Q pos] by simp
  then show ?thesis by (rule fetch_stall [OF _ _ assms(2)]) (use True assms(3) in simp)
next
  case False
  then have "refill s' = s'" using assms(3) by (simp add: refill_def)
  then show ?thesis using assms fetch_cong [of s s' W Q pos] by simp
qed

lemma fetch_upd [simp]:
  "fetch_at W Q pos (s\<lparr>sm_pc := a\<rparr>) = fetch_at W Q pos s" "fetch_at W Q pos (s\<lparr>sm_x := x\<rparr>) = fetch_at W Q pos s"
  "fetch_at W Q pos (s\<lparr>sm_y := x\<rparr>) = fetch_at W Q pos s" "fetch_at W Q pos (s\<lparr>data_dir := d\<rparr>) = fetch_at W Q pos s"
  "fetch_at W Q pos (s\<lparr>data_pin := d\<rparr>) = fetch_at W Q pos s" "fetch_at W Q pos (s\<lparr>side_pin := d\<rparr>) = fetch_at W Q pos s"
  "fetch_at W Q pos (s\<lparr>isr := v\<rparr>) = fetch_at W Q pos s" "fetch_at W Q pos (s\<lparr>isr_n := n\<rparr>) = fetch_at W Q pos s"
  "fetch_at W Q pos (s\<lparr>rx_q := q\<rparr>) = fetch_at W Q pos s"
  by (simp_all add: fetch_at_def)

lemma count_down:
  assumes "n < 2 ^ 32" and "b < n"
  shows "(of_nat (n - 1 - b) :: u32) \<noteq> 0 \<longleftrightarrow> Suc b < n"
    and "Suc b < n \<Longrightarrow> (of_nat (n - 1 - b) :: u32) - 1 = of_nat (n - 1 - Suc b)"
proof -
  have u: "unat (of_nat k :: u32) = k" if "k < n" for k using that assms(1) by (simp add: unsigned_of_nat take_bit_eq_mod)
  have "(of_nat (n - 1 - b) :: u32) = 0 \<longleftrightarrow> unat (of_nat (n - 1 - b) :: u32) = 0" by (simp add: unat_eq_0)
  also have "\<dots> \<longleftrightarrow> n - 1 - b = 0" using u [of "n - 1 - b"] assms(2) by simp
  finally show "(of_nat (n - 1 - b) :: u32) \<noteq> 0 \<longleftrightarrow> Suc b < n" using assms(2) by auto
  show "(of_nat (n - 1 - b) :: u32) - 1 = of_nat (n - 1 - Suc b)" if "Suc b < n"
  proof -
    have "n - 1 - b = Suc (n - 1 - Suc b)" using that by simp
    then show ?thesis by (simp only: of_nat_Suc) simp
  qed
qed

lemma driven_Suc: "b < 32 * length ws \<Longrightarrow> driven ws (Suc b) = driven ws b @ [(True, bus_bits ws ! b)]"
  by (simp add: driven_def take_Suc_conv_app_nth)

lemma crossed_snoc: "crossed ws (S @ [b]) = crossed ws S @ [(False, b)]"
  by (simp add: crossed_def)

lemma crossed_Nil: "crossed ws [] = driven ws (32 * length ws)"
  by (simp add: crossed_def)

text \<open>What crosses the bus in a cycle.\<close>

definition edge_bit :: "bool \<Rightarrow> pio_sm \<Rightarrow> pio_sm \<Rightarrow> (bool \<times> bool) list" where
  "edge_bit pin s s' = (if \<not> side_pin s \<and> side_pin s' then [(data_dir s', if data_dir s' then data_pin s' else pin)] else [])"

definition gspi_ok :: "u32 list \<Rightarrow> nat \<Rightarrow> u32 list \<Rightarrow> bool" where
  "gspi_ok ws m Q \<longleftrightarrow> 0 < length ws \<and> length ws < 2 ^ 27 \<and> 0 < m \<and> m < 2 ^ 27 \<and> Q = take (length Q) (txn ws m)"

text \<open>The step: the machine goes on, unless a word is missing or the receive FIFO is full.\<close>

definition advances :: "u32 list \<Rightarrow> nat \<Rightarrow> u32 list \<Rightarrow> bool \<Rightarrow> nat \<Rightarrow> pio_sm \<Rightarrow> u32 list \<Rightarrow> (bool \<times> bool) list \<Rightarrow> bool" where
  "advances ws m Q pin i s got E \<longleftrightarrow> (\<exists>s' j. pio_cycle gspi_cfg gspi_program pin s = Some s'
     \<and> gspi_at ws m Q j s' got (E @ edge_bit pin s s')
     \<and> (j = Suc i \<or> j = i \<and> (32 \<le> osr_n s \<and> sm_pc s \<in> {0, 1, 3} \<or> 4 \<le> length (rx_q s))))"

lemma advancesI:
  "pio_cycle gspi_cfg gspi_program pin s = Some s' \<Longrightarrow> gspi_at ws m Q j s' got (E @ edge_bit pin s s') \<Longrightarrow>
     j = Suc i \<or> j = i \<and> (32 \<le> osr_n s \<and> sm_pc s \<in> {0, 1, 3} \<or> 4 \<le> length (rx_q s)) \<Longrightarrow> advances ws m Q pin i s got E"
  unfolding advances_def by blast

lemma step_head:
  assumes ok: "gspi_ok ws m Q" and i: "i < 3" and pc: "sm_pc s = i" and side: "\<not> side_pin s"
    and x: "1 \<le> i \<longrightarrow> sm_x s = of_nat (32 * length ws - 1)" and y: "i = 2 \<longrightarrow> sm_y s = of_nat (32 * m - 1)"
    and fetch: "fetch_at (txn ws m) Q (32 * i) s" and isr: "isr_n s = 0" "isr s = 0" and got: "got @ rx_q s = []"
  shows "advances ws m Q pin i s got []"
proof -
  have pre: "Q = take (length Q) (txn ws m)" using ok by (simp add: gspi_ok_def)
  let ?s = "s\<lparr>side_pin := False\<rparr>" and ?t = "(s\<lparr>side_pin := False\<rparr>)\<lparr>osr := push_bit 32 (osr s), osr_n := min 32 (osr_n s + 32)\<rparr>"
  have fs: "fetch_at (txn ws m) Q (32 * i) ?s" using fetch by simp
  show ?thesis
  proof (cases "32 \<le> osr_n s \<and> i < 2")
    case True
    then have c: "pio_cycle gspi_cfg gspi_program pin s = Some (refill ?s)" using pc by (cases "i = 0") (simp_all add: gspi_cycle)
    have "gspi_at ws m Q i (refill ?s) got ([] @ edge_bit pin s (refill ?s))"
      using fetch_stall [OF fs _ pre] True pc i x y isr got by (simp add: edge_bit_def gspi_at.head)
    then show ?thesis by (rule advancesI [OF c]) (use True pc in auto)
  next
    case False
    then consider "i = 2" | "i = 0" "osr_n s < 32" | "i = 1" "osr_n s < 32" using i by linarith
    then show ?thesis
    proof cases
      case 1
      let ?s' = "(refill ?s)\<lparr>data_dir := True, sm_pc := 3\<rparr>"
      have c: "pio_cycle gspi_cfg gspi_program pin s = Some ?s'" using pc 1 by (simp add: gspi_cycle)
      have "fetch_at (txn ws m) Q 64 (refill ?s)" using fetch_refill_any [OF fetch pre] 1 by simp
      then have "gspi_at ws m Q (3 + 2 * 0) ?s' got (driven ws 0)"
        using ok 1 x y isr got by (intro gspi_at.put) (simp_all add: gspi_ok_def)
      then show ?thesis by (intro advancesI [OF c, where j = 3]) (simp_all add: edge_bit_def driven_def 1)
    next
      case 2
      note w = fetch_word [OF fs _ _ pre]
      let ?s' = "(refill ?t)\<lparr>sm_x := osr s, sm_pc := 1\<rparr>"
      have c: "pio_cycle gspi_cfg gspi_program pin s = Some ?s'" using pc 2 by (simp add: gspi_cycle)
      have "gspi_at ws m Q 1 ?s' got []" by (rule gspi_at.head) (use w 2 isr got in \<open>simp_all add: txn_def\<close>)
      then show ?thesis by (intro advancesI [OF c, where j = 1]) (simp_all add: 2 edge_bit_def)
    next
      case 3
      note w = fetch_word [OF fs _ _ pre]
      let ?s' = "(refill ?t)\<lparr>sm_y := osr s, sm_pc := 2\<rparr>"
      have c: "pio_cycle gspi_cfg gspi_program pin s = Some ?s'" using pc 3 by (simp add: gspi_cycle)
      have "gspi_at ws m Q 2 ?s' got []" by (rule gspi_at.head) (use w 3 isr got x in \<open>simp_all add: txn_def\<close>)
      then show ?thesis by (intro advancesI [OF c, where j = 2]) (simp_all add: 3 edge_bit_def)
    qed
  qed
qed


lemma step_put:
  assumes ok: "gspi_ok ws m Q" and b: "b < 32 * length ws" and pc: "sm_pc s = 3" and dir: "data_dir s"
    and x: "sm_x s = of_nat (32 * length ws - 1 - b)" and y: "sm_y s = of_nat (32 * m - 1)"
    and fetch: "fetch_at (txn ws m) Q (64 + b) s" and isr: "isr_n s = 0" "isr s = 0" and got: "got @ rx_q s = []"
  shows "advances ws m Q pin (3 + 2 * b) s got (driven ws b)"
proof -
  have pre: "Q = take (length Q) (txn ws m)" using ok by (simp add: gspi_ok_def)
  let ?s = "s\<lparr>side_pin := False\<rparr>"
  have fs: "fetch_at (txn ws m) Q (64 + b) ?s" using fetch by simp
  show ?thesis
  proof (cases "32 \<le> osr_n s")
    case True
    then have c: "pio_cycle gspi_cfg gspi_program pin s = Some (refill ?s)" using pc by (simp add: gspi_cycle)
    have "gspi_at ws m Q (3 + 2 * b) (refill ?s) got (driven ws b)"
      by (rule gspi_at.put [OF b]) (use fetch_stall [OF fs _ pre] True pc dir x y isr got in simp_all)
    then show ?thesis by (intro advancesI [OF c]) (use True pc in \<open>auto simp: edge_bit_def\<close>)
  next
    case False
    then have n: "osr_n ?s < 32" by simp
    note w = fetch_bit [OF fs n pre]
    let ?s' = "(refill (?s\<lparr>osr := push_bit 1 (osr s), osr_n := min 32 (osr_n s + 1)\<rparr>))
       \<lparr>data_pin := bit (drop_bit 31 (osr s)) 0, sm_pc := 4\<rparr>"
    have c: "pio_cycle gspi_cfg gspi_program pin s = Some ?s'" using pc False by (simp add: gspi_cycle)
    have e: "64 + b = b + 2 * 32" by simp
    have "(64 + b) div 32 = Suc (Suc (b div 32))" "(64 + b) mod 32 = b mod 32"
      unfolding e by (simp, rule mod_mult_self1)
    then have "bit (drop_bit 31 (osr s)) 0 = bus_bits ws ! b" using w(1) bus_bits_nth [OF b] by (simp add: txn_def)
    then have "gspi_at ws m Q (4 + 2 * b) ?s' got (driven ws b)"
      by (intro gspi_at.clk [OF b]) (use w(2) dir x y isr got in simp_all)
    then show ?thesis by (intro advancesI [OF c, where j = "4 + 2 * b"]) (simp_all add: edge_bit_def)
  qed
qed

lemma step_clk:
  assumes ok: "gspi_ok ws m Q" and b: "b < 32 * length ws" and pc: "sm_pc s = 4" and dir: "data_dir s" "\<not> side_pin s"
    and bit: "data_pin s = bus_bits ws ! b" and x: "sm_x s = of_nat (32 * length ws - 1 - b)" and y: "sm_y s = of_nat (32 * m - 1)"
    and fetch: "fetch_at (txn ws m) Q (64 + Suc b) s" and isr: "isr_n s = 0" "isr s = 0" and got: "got @ rx_q s = []"
  shows "advances ws m Q pin (4 + 2 * b) s got (driven ws b)"
proof -
  have pre: "Q = take (length Q) (txn ws m)" and n: "32 * length ws < 2 ^ 32" using ok by (simp_all add: gspi_ok_def)
  let ?r = "refill (s\<lparr>side_pin := True\<rparr>)"
  let ?s' = "?r\<lparr>sm_pc := (if sm_x s \<noteq> 0 then 3 else 5), sm_x := sm_x s - 1\<rparr>"
  have c: "pio_cycle gspi_cfg gspi_program pin s = Some ?s'" using pc by (simp add: gspi_cycle)
  have e: "driven ws b @ edge_bit pin s ?s' = driven ws (Suc b)" using dir bit by (simp add: edge_bit_def driven_Suc [OF b])
  have f: "fetch_at (txn ws m) Q (64 + Suc b) ?r" by (rule fetch_refill_any [OF fetch pre]) simp_all
  note k = count_down [OF n b]
  show ?thesis
  proof (cases "Suc b < 32 * length ws")
    case True
    have "gspi_at ws m Q (3 + 2 * Suc b) ?s' got (driven ws (Suc b))"
      by (rule gspi_at.put [OF True]) (use True k x y f dir isr got in simp_all)
    then show ?thesis by (intro advancesI [OF c, where j = "3 + 2 * Suc b"]) (simp_all only: e, simp)
  next
    case False
    then have l: "Suc b = 32 * length ws" using b by simp
    have "gspi_at ws m Q (3 + 64 * length ws + 0) ?s' got (crossed ws [])"
      by (rule gspi_at.turn) (use False k x y f isr got l in simp_all)
    moreover have "3 + 64 * length ws + 0 = Suc (4 + 2 * b)" using l by simp
    ultimately show ?thesis by (intro advancesI [OF c, where j = "Suc (4 + 2 * b)"]) (simp_all only: e crossed_Nil l, simp)
  qed
qed

lemma step_turn:
  assumes ok: "gspi_ok ws m Q" and pc: "sm_pc s = 5 + d" "d < 2" and dir: "d = 1 \<longrightarrow> \<not> data_dir s \<and> \<not> side_pin s"
    and y: "sm_y s = of_nat (32 * m - 1)" and fetch: "fetch_at (txn ws m) Q (64 + 32 * length ws) s"
    and isr: "isr_n s = 0" "isr s = 0" and got: "got @ rx_q s = []"
  shows "advances ws m Q pin (3 + 64 * length ws + d) s got (crossed ws [])"
proof -
  have pre: "Q = take (length Q) (txn ws m)" and m: "0 < m" using ok by (simp_all add: gspi_ok_def)
  let ?r = "refill (s\<lparr>side_pin := False\<rparr>)"
  have f: "fetch_at (txn ws m) Q (64 + 32 * length ws) ?r" by (rule fetch_refill_any [OF fetch pre]) simp_all
  show ?thesis
  proof (cases "d = 0")
    case True
    let ?s' = "?r\<lparr>data_dir := False, sm_pc := 6\<rparr>"
    have c: "pio_cycle gspi_cfg gspi_program pin s = Some ?s'" using pc True by (simp add: gspi_cycle)
    have "gspi_at ws m Q (3 + 64 * length ws + 1) ?s' got (crossed ws [])"
      by (rule gspi_at.turn) (use y f isr got in simp_all)
    then show ?thesis by (intro advancesI [OF c, where j = "3 + 64 * length ws + 1"]) (simp_all add: edge_bit_def True)
  next
    case False
    then have d: "d = 1" using pc by simp
    let ?s' = "?r\<lparr>sm_pc := 7\<rparr>"
    have c: "pio_cycle gspi_cfg gspi_program pin s = Some ?s'" using pc d by (simp add: gspi_cycle)
    have "gspi_at ws m Q (5 + 64 * length ws + 2 * length ([] :: bool list)) ?s' got (crossed ws [])"
      by (rule gspi_at.samp) (use m y f isr got d dir in \<open>simp_all add: msb_word_def\<close>)
    then show ?thesis by (intro advancesI [OF c, where j = "5 + 64 * length ws"]) (simp_all add: edge_bit_def d)
  qed
qed


lemma step_samp:
  assumes ok: "gspi_ok ws m Q" and S: "length S < 32 * m" and pc: "sm_pc s = 7" and dir: "\<not> data_dir s" "\<not> side_pin s"
    and y: "sm_y s = of_nat (32 * m - 1 - length S)" and fetch: "fetch_at (txn ws m) Q (64 + 32 * length ws) s"
    and isr: "isr_n s = length S mod 32" "isr s = msb_word (drop (32 * (length S div 32)) S)" and got: "got @ rx_q s = in_words S"
  shows "advances ws m Q pin (5 + 64 * length ws + 2 * length S) s got (crossed ws S)"
proof -
  have pre: "Q = take (length Q) (txn ws m)" using ok by (simp add: gspi_ok_def)
  let ?r = "refill (s\<lparr>side_pin := True\<rparr>)" and ?v = "push_bit 1 (isr s) OR of_bool pin"
  have f: "fetch_at (txn ws m) Q (64 + 32 * length ws) ?r" by (rule fetch_refill_any [OF fetch pre]) simp_all
  have n: "isr_n s < 32" using isr(1) by simp
  have v: "?v = msb_word (drop (32 * (length S div 32)) (S @ [pin]))" by (simp add: isr(2) msb_word_snoc)
  have e: "crossed ws S @ edge_bit pin s s' = crossed ws (S @ [pin])" if "side_pin s'" "data_dir s' = data_dir s" for s'
    using that dir by (simp add: edge_bit_def crossed_snoc)
  show ?thesis
  proof (cases "length S mod 32 = 31")
    case False
    let ?s' = "?r\<lparr>isr := ?v, isr_n := isr_n s + 1, sm_pc := 8\<rparr>"
    have l: "isr_n s + 1 < 32" "Suc (length S) mod 32 = Suc (length S mod 32)" "Suc (length S) div 32 = length S div 32"
      using n isr(1) False by (simp_all add: mod_Suc div_Suc)
    have c: "pio_cycle gspi_cfg gspi_program pin s = Some ?s'" using pc n l(1) by (simp add: gspi_cycle)
    have "in_words (S @ [pin]) = in_words S" using l(2) by (simp add: in_words_snoc)
    then have "gspi_at ws m Q (6 + 64 * length ws + 2 * length S) ?s' got (crossed ws (S @ [pin]))"
      by (intro gspi_at.count [OF S]) (use dir y f isr(1) l v got in simp_all)
    then show ?thesis by (intro advancesI [OF c, where j = "6 + 64 * length ws + 2 * length S"]) (simp_all add: e dir)
  next
    case True
    then have l: "Suc (length S) mod 32 = 0" "Suc (length S) div 32 = Suc (length S div 32)" "isr_n s = 31"
      using isr(1) by (simp_all add: mod_Suc div_Suc)
    have d: "drop (32 * Suc (length S div 32)) (S @ [pin]) = []"
      using div_mult_mod_eq [of "length S" 32] True by simp
    show ?thesis
    proof (cases "length (rx_q s) < 4")
      case room: True
      let ?s' = "?r\<lparr>rx_q := rx_q s @ [?v], isr := 0, isr_n := 0, sm_pc := 8\<rparr>"
      have c: "pio_cycle gspi_cfg gspi_program pin s = Some ?s'" using pc l(3) room by (simp add: gspi_cycle)
      have "in_words (S @ [pin]) = in_words S @ [?v]" using l(1) v by (simp add: in_words_snoc)
      then have w: "got @ rx_q s @ [?v] = in_words (S @ [pin])" using got by (metis append_assoc)
      have "gspi_at ws m Q (6 + 64 * length ws + 2 * length S) ?s' got (crossed ws (S @ [pin]))"
        by (rule gspi_at.count [OF S]) (use dir y f l(1,2) d w in \<open>simp_all add: msb_word_def\<close>)
      then show ?thesis by (intro advancesI [OF c, where j = "6 + 64 * length ws + 2 * length S"]) (simp_all add: e dir)
    next
      case full: False
      let ?s' = "?r\<lparr>isr := ?v, isr_n := 32\<rparr>"
      have c: "pio_cycle gspi_cfg gspi_program pin s = Some ?s'" using pc l(3) full by (simp add: gspi_cycle)
      have "gspi_at ws m Q (5 + 64 * length ws + 2 * length S) ?s' got (crossed ws (S @ [pin]))"
        by (rule gspi_at.hold [OF S l(1)]) (use pc dir y f v got in simp_all)
      then show ?thesis by (intro advancesI [OF c, where j = "5 + 64 * length ws + 2 * length S"]) (use full in \<open>auto simp: e dir\<close>)
    qed
  qed
qed

lemma step_hold:
  assumes ok: "gspi_ok ws m Q" and S: "length S < 32 * m" "Suc (length S) mod 32 = 0" and pc: "sm_pc s = 7"
    and dir: "\<not> data_dir s" "side_pin s" and y: "sm_y s = of_nat (32 * m - 1 - length S)"
    and fetch: "fetch_at (txn ws m) Q (64 + 32 * length ws) s"
    and isr: "isr_n s = 32" "isr s = msb_word (drop (32 * (length S div 32)) (S @ [b]))" and got: "got @ rx_q s = in_words S"
  shows "advances ws m Q pin (5 + 64 * length ws + 2 * length S) s got (crossed ws (S @ [b]))"
proof -
  have pre: "Q = take (length Q) (txn ws m)" using ok by (simp add: gspi_ok_def)
  let ?r = "refill (s\<lparr>side_pin := True\<rparr>)"
  have f: "fetch_at (txn ws m) Q (64 + 32 * length ws) ?r" by (rule fetch_refill_any [OF fetch pre]) simp_all
  have l: "Suc (length S) div 32 = Suc (length S div 32)" "length S mod 32 = 31"
    using S(2) by (simp_all add: mod_Suc div_Suc split: if_splits)
  have d: "drop (32 * Suc (length S div 32)) (S @ [b]) = []" using div_mult_mod_eq [of "length S" 32] l(2) by simp
  show ?thesis
  proof (cases "length (rx_q s) < 4")
    case room: True
    let ?s' = "?r\<lparr>rx_q := rx_q s @ [isr s], isr := 0, isr_n := 0, sm_pc := 8\<rparr>"
    have c: "pio_cycle gspi_cfg gspi_program pin s = Some ?s'" using pc isr(1) room by (simp add: gspi_cycle)
    have "in_words (S @ [b]) = in_words S @ [isr s]" using S(2) isr(2) by (simp add: in_words_snoc)
    then have w: "got @ rx_q s @ [isr s] = in_words (S @ [b])" using got by (metis append_assoc)
    have "gspi_at ws m Q (6 + 64 * length ws + 2 * length S) ?s' got (crossed ws (S @ [b]))"
      by (rule gspi_at.count [OF S(1)]) (use dir y f S(2) l d w in \<open>simp_all add: msb_word_def\<close>)
    then show ?thesis
      by (intro advancesI [OF c, where j = "6 + 64 * length ws + 2 * length S"]) (simp_all add: edge_bit_def dir)
  next
    case full: False
    have c: "pio_cycle gspi_cfg gspi_program pin s = Some ?r" using pc isr(1) full by (simp add: gspi_cycle)
    have "gspi_at ws m Q (5 + 64 * length ws + 2 * length S) ?r got (crossed ws (S @ [b]))"
      by (rule gspi_at.hold [OF S]) (use pc dir y f isr got in simp_all)
    then show ?thesis by (intro advancesI [OF c, where j = "5 + 64 * length ws + 2 * length S"]) (use full in \<open>auto simp: edge_bit_def dir\<close>)
  qed
qed

lemma step_count:
  assumes ok: "gspi_ok ws m Q" and S: "length S < 32 * m" and pc: "sm_pc s = 8" and dir: "\<not> data_dir s"
    and y: "sm_y s = of_nat (32 * m - 1 - length S)" and fetch: "fetch_at (txn ws m) Q (64 + 32 * length ws) s"
    and isr: "isr_n s = Suc (length S) mod 32" "isr s = msb_word (drop (32 * (Suc (length S) div 32)) (S @ [b]))"
    and got: "got @ rx_q s = in_words (S @ [b])"
  shows "advances ws m Q pin (6 + 64 * length ws + 2 * length S) s got (crossed ws (S @ [b]))"
proof -
  have pre: "Q = take (length Q) (txn ws m)" and n: "32 * m < 2 ^ 32" using ok by (simp_all add: gspi_ok_def)
  let ?r = "refill (s\<lparr>side_pin := False\<rparr>)"
  let ?s' = "?r\<lparr>sm_pc := (if sm_y s \<noteq> 0 then 7 else 0), sm_y := sm_y s - 1\<rparr>"
  have c: "pio_cycle gspi_cfg gspi_program pin s = Some ?s'" using pc by (simp add: gspi_cycle)
  have f: "fetch_at (txn ws m) Q (64 + 32 * length ws) ?r" by (rule fetch_refill_any [OF fetch pre]) simp_all
  note k = count_down [OF n S]
  show ?thesis
  proof (cases "Suc (length S) < 32 * m")
    case True
    have "gspi_at ws m Q (5 + 64 * length ws + 2 * length (S @ [b])) ?s' got (crossed ws (S @ [b]))"
      by (rule gspi_at.samp) (use True k y f dir isr got in simp_all)
    then show ?thesis
      by (intro advancesI [OF c, where j = "5 + 64 * length ws + 2 * length (S @ [b])"]) (simp_all add: edge_bit_def)
  next
    case False
    then have l: "Suc (length S) = 32 * m" using S by simp
    then have "gspi_at ws m Q (gspi_steps ws m) ?s' got (crossed ws (S @ [b]))"
      by (intro gspi_at.over) (use False k y f isr got in \<open>simp_all add: msb_word_def\<close>)
    moreover have "gspi_steps ws m = Suc (6 + 64 * length ws + 2 * length S)" using l by (simp add: gspi_steps_def)
    ultimately show ?thesis by (intro advancesI [OF c, where j = "gspi_steps ws m"]) (simp_all add: edge_bit_def)
  qed
qed

lemma step_over:
  assumes ok: "gspi_ok ws m Q" and S: "length S = 32 * m" and pc: "sm_pc s = 0" and side: "\<not> side_pin s"
    and fetch: "fetch_at (txn ws m) Q (64 + 32 * length ws) s"
    and isr: "isr_n s = 0" "isr s = 0" and got: "got @ rx_q s = in_words S"
  shows "advances ws m Q pin (gspi_steps ws m) s got (crossed ws S)"
proof -
  have pre: "Q = take (length Q) (txn ws m)" using ok by (simp add: gspi_ok_def)
  then have "length Q \<le> Suc (Suc (length ws))" by (metis length_take min.cobounded1 min.commute txn_def length_Cons nat_le_linear take_all)
  moreover have "(64 + 32 * length ws) div 32 = Suc (Suc (length ws))" by simp
  ultimately have n: "32 \<le> osr_n s" using fetch by (auto simp: fetch_at_def)
  let ?r = "refill (s\<lparr>side_pin := False\<rparr>)"
  have c: "pio_cycle gspi_cfg gspi_program pin s = Some ?r" using pc n by (simp add: gspi_cycle)
  have "gspi_at ws m Q (gspi_steps ws m) ?r got (crossed ws S)"
    by (rule gspi_at.over [OF S]) (use pc isr got fetch_refill_any [OF fetch pre] in simp_all)
  then show ?thesis by (intro advancesI [OF c, where j = "gspi_steps ws m"]) (use n pc in \<open>auto simp: edge_bit_def\<close>)
qed

lemma gspi_step:
  assumes ok: "gspi_ok ws m Q" and at: "gspi_at ws m Q i s got E"
  shows "advances ws m Q pin i s got E"
  using at
proof cases
  case head
  show ?thesis unfolding head(1) by (rule step_head [OF ok]) (use head in simp_all)
next
  case (put b)
  show ?thesis unfolding put(1,2) by (rule step_put [OF ok put(3-)])
next
  case (clk b)
  show ?thesis unfolding clk(1,2) by (rule step_clk [OF ok clk(3-)])
next
  case (turn d)
  show ?thesis unfolding turn(1,2) by (rule step_turn [OF ok turn(3-)])
next
  case (samp S)
  show ?thesis unfolding samp(1,2) by (rule step_samp [OF ok samp(3-)])
next
  case (hold S b)
  show ?thesis unfolding hold(1,2) by (rule step_hold [OF ok hold(3-)])
next
  case (count S b)
  show ?thesis unfolding count(1,2) by (rule step_count [OF ok count(3-)])
next
  case (over S)
  show ?thesis unfolding over(1,2) by (rule step_over [OF ok over(3-)])
qed


section \<open>Runs\<close>

primrec bus_log ::
  "(nat \<Rightarrow> bool) \<Rightarrow> (nat \<Rightarrow> u32 list) \<Rightarrow> (nat \<Rightarrow> nat) \<Rightarrow> pio_sm \<Rightarrow> nat \<Rightarrow> (bool \<times> bool) list" where
  "bus_log p arr rd s0 0 = []"
| "bus_log p arr rd s0 (Suc n) = bus_log p arr rd s0 n @
     (case (pio_run gspi_cfg gspi_program p arr rd n s0, pio_run gspi_cfg gspi_program p arr rd (Suc n) s0) of
        (Some (s, _), Some (s', _)) \<Rightarrow> edge_bit (p n) s s'
      | _ \<Rightarrow> [])"

definition gspi_idle :: "pio_sm \<Rightarrow> bool" where
  "gspi_idle s \<longleftrightarrow> sm_pc s = 0 \<and> osr_n s = 32 \<and> isr_n s = 0 \<and> isr s = 0 \<and> \<not> side_pin s \<and> tx_q s = [] \<and> rx_q s = []"

lemma gspi_run_step:
  assumes run: "pio_run gspi_cfg gspi_program p arr rd n s0 = Some (s, got)"
    and at: "gspi_at ws m (written arr n) i s got (bus_log p arr rd s0 n)" and ok: "gspi_ok ws m (written arr (Suc n))"
  shows "\<exists>s' j. pio_run gspi_cfg gspi_program p arr rd (Suc n) s0 = Some (s', got @ take (rd n) (rx_q s))
    \<and> pio_cycle gspi_cfg gspi_program (p n) (s\<lparr>tx_q := tx_q s @ arr n, rx_q := drop (rd n) (rx_q s)\<rparr>) = Some s'
    \<and> gspi_at ws m (written arr (Suc n)) j s' (got @ take (rd n) (rx_q s)) (bus_log p arr rd s0 (Suc n))
    \<and> (j = Suc i \<or> j = i \<and> (32 \<le> osr_n s \<and> sm_pc s \<in> {0, 1, 3} \<or> 4 \<le> length (drop (rd n) (rx_q s))))"
proof -
  let ?s = "s\<lparr>tx_q := tx_q s @ arr n, rx_q := drop (rd n) (rx_q s)\<rparr>" and ?got = "got @ take (rd n) (rx_q s)"
  have "gspi_at ws m (written arr (Suc n)) i ?s ?got (bus_log p arr rd s0 n)" using gspi_arrive [OF at] by simp
  from gspi_step [OF ok this, of "p n"] obtain s' j where
    c: "pio_cycle gspi_cfg gspi_program (p n) ?s = Some s'"
    "gspi_at ws m (written arr (Suc n)) j s' ?got (bus_log p arr rd s0 n @ edge_bit (p n) ?s s')"
    "j = Suc i \<or> j = i \<and> (32 \<le> osr_n ?s \<and> sm_pc ?s \<in> {0, 1, 3} \<or> 4 \<le> length (rx_q ?s))"
    unfolding advances_def by blast
  note r = pio_run_step [OF run c(1)]
  have "bus_log p arr rd s0 (Suc n) = bus_log p arr rd s0 n @ edge_bit (p n) ?s s'"
    unfolding bus_log.simps run r by (simp add: edge_bit_def)
  with c r show ?thesis by (intro exI [of _ s'] exI [of _ j]) simp
qed

lemma gspi_at_start: "gspi_idle s0 \<Longrightarrow> gspi_at ws m [] 0 s0 [] []"
  by (rule gspi_at.head) (simp_all add: gspi_idle_def fetch_at_def)

lemma gspi_run:
  assumes idle: "gspi_idle s0" and ok: "\<forall>n. gspi_ok ws m (written arr n)"
  shows "\<exists>s got i. pio_run gspi_cfg gspi_program p arr rd n s0 = Some (s, got)
    \<and> gspi_at ws m (written arr n) i s got (bus_log p arr rd s0 n)"
proof (induction n)
  case 0
  then show ?case using gspi_at_start [OF idle] by auto
next
  case (Suc n)
  then obtain s got i where "pio_run gspi_cfg gspi_program p arr rd n s0 = Some (s, got)"
    "gspi_at ws m (written arr n) i s got (bus_log p arr rd s0 n)" by blast
  from gspi_run_step [OF this] ok show ?case by blast
qed

text \<open>What is known of the bus and the words read at every step.\<close>

definition bus_ok :: "u32 list \<Rightarrow> nat \<Rightarrow> pio_sm \<Rightarrow> u32 list \<Rightarrow> (bool \<times> bool) list \<Rightarrow> bool" where
  "bus_ok ws m s got E \<longleftrightarrow> (\<exists>b S. E = map (Pair True) (take b (bus_bits ws)) @ map (Pair False) S
     \<and> (S = [] \<or> b = 32 * length ws) \<and> length S \<le> 32 * m \<and> prefix (got @ rx_q s) (in_words S)
     \<and> (sm_pc s = 0 \<and> S \<noteq> [] \<longrightarrow> length S = 32 * m \<and> got @ rx_q s = in_words S))"

lemma bus_okI:
  "E = map (Pair True) (take b (bus_bits ws)) @ map (Pair False) S \<Longrightarrow> S = [] \<or> b = 32 * length ws \<Longrightarrow> length S \<le> 32 * m \<Longrightarrow>
     prefix (got @ rx_q s) (in_words S) \<Longrightarrow> (sm_pc s = 0 \<and> S \<noteq> [] \<longrightarrow> length S = 32 * m \<and> got @ rx_q s = in_words S) \<Longrightarrow>
     bus_ok ws m s got E"
  unfolding bus_ok_def by blast

lemma gspi_at_bus:
  assumes "gspi_at ws m Q i s got E"
  shows "bus_ok ws m s got E"
  using assms
proof cases
  case head
  then show ?thesis by (intro bus_okI [of _ 0 _ "[]"]) simp_all
next
  case (put b)
  then show ?thesis by (intro bus_okI [of _ b _ "[]"]) (simp_all add: driven_def)
next
  case (clk b)
  then show ?thesis by (intro bus_okI [of _ b _ "[]"]) (simp_all add: driven_def)
next
  case (turn d)
  then show ?thesis by (intro bus_okI [of _ "32 * length ws" _ "[]"]) (simp_all add: driven_def crossed_def)
next
  case (samp S)
  then show ?thesis by (intro bus_okI [of _ "32 * length ws" _ S]) (simp_all add: driven_def crossed_def)
next
  case (hold S b)
  have "prefix (in_words S) (in_words (S @ [b]))" by (simp add: in_words_snoc)
  with hold show ?thesis by (intro bus_okI [of _ "32 * length ws" _ "S @ [b]"]) (simp_all add: driven_def crossed_def)
next
  case (count S b)
  then show ?thesis by (intro bus_okI [of _ "32 * length ws" _ "S @ [b]"]) (simp_all add: driven_def crossed_def)
next
  case (over S)
  then show ?thesis by (intro bus_okI [of _ "32 * length ws" _ S]) (simp_all add: driven_def crossed_def)
qed

text \<open>With every word there and every word read away, the machine never waits but for the first word.\<close>

lemma refill_fresh: "osr_n (refill s) = 32 \<Longrightarrow> tx_q (refill s) = []"
  by (simp add: refill_def split: list.splits if_splits)

lemma gspi_cycle_fresh:
  assumes "pio_cycle gspi_cfg gspi_program pin s = Some s'"
  shows "(osr_n s' = 32 \<longrightarrow> tx_q s' = []) \<and> length (rx_q s') \<le> Suc (length (rx_q s))"
proof -
  have "sm_pc s < 9" using assms by (simp add: pio_cycle_def gspi_program_def split: if_splits)
  then consider "sm_pc s = 0" | "sm_pc s = 1" | "sm_pc s = 2" | "sm_pc s = 3" | "sm_pc s = 4" | "sm_pc s = 5"
    | "sm_pc s = 6" | "sm_pc s = 7" | "sm_pc s = 8" by linarith
  then show ?thesis
    by cases (use assms in \<open>auto simp: gspi_cycle Let_def refill_fresh split: if_splits\<close>)
qed

lemma gspi_waits_at_end:
  assumes "gspi_at ws m (txn ws m) i s got E" and "32 \<le> osr_n s" and "tx_q s = []" and "sm_pc s \<in> {0, 1, 3}"
  shows "i = gspi_steps ws m"
proof -
  have late: "2 + length ws \<le> pos div 32" if "fetch_at (txn ws m) (txn ws m) pos s" for pos
  proof -
    have "pos mod 32 < 32" by simp
    then have "drop (pos div 32) (txn ws m) = []" using that assms(2,3) by (auto simp: fetch_at_def)
    then show ?thesis by (simp add: txn_def)
  qed
  show ?thesis
    using assms(1)
  proof cases
    case head
    have "2 + length ws \<le> i" using late [OF head(7)] by simp
    then show ?thesis using head(2,3) assms(4) by auto
  next
    case (put b)
    have "(64 + b) div 32 < 2 + length ws" using put(3) by (simp add: div_less_iff_less_mult)
    then show ?thesis using late [OF put(8)] by simp
  next
    case (turn d)
    then show ?thesis using assms(4) by auto
  qed (use assms(4) in simp_all)
qed


lemma written_once: "written (at_once ws) (Suc k) = ws"
  by (induction k) (simp_all add: at_once_def)

lemma gspi_on_time:
  assumes idle: "gspi_idle s0" and ok: "gspi_ok ws m (txn ws m)" and rd: "\<forall>t. 0 < rd t"
  shows "n \<le> gspi_steps ws m \<Longrightarrow> \<exists>s got. pio_run gspi_cfg gspi_program p (at_once (txn ws m)) rd (Suc n) s0 = Some (s, got)
    \<and> gspi_at ws m (txn ws m) n s got (bus_log p (at_once (txn ws m)) rd s0 (Suc n))
    \<and> (osr_n s = 32 \<longrightarrow> tx_q s = []) \<and> length (rx_q s) \<le> 1"
proof (induction n)
  case 0
  let ?W = "txn ws m" and ?arr = "at_once (txn ws m)"
  let ?s = "s0\<lparr>tx_q := ?W, rx_q := [], side_pin := False\<rparr>"
  have i: "sm_pc s0 = 0" "osr_n s0 = 32" "isr_n s0 = 0" "isr s0 = 0" "\<not> side_pin s0" "tx_q s0 = []" "rx_q s0 = []"
    using idle by (simp_all add: gspi_idle_def)
  have c: "pio_cycle gspi_cfg gspi_program (p 0) (s0\<lparr>tx_q := tx_q s0 @ ?arr 0, rx_q := drop (rd 0) (rx_q s0)\<rparr>) = Some (refill ?s)"
    using i by (simp add: gspi_cycle at_once_def)
  have r: "pio_run gspi_cfg gspi_program p ?arr rd (Suc 0) s0 = Some (refill ?s, [])"
    using pio_run_step [of gspi_cfg gspi_program p ?arr rd 0 s0 s0 "[]", OF _ c] i by simp
  have "fetch_at ?W ?W 0 (refill ?s)" by (rule fetch_refill) (simp_all add: i)
  then have "gspi_at ws m ?W 0 (refill ?s) [] []" by (intro gspi_at.head) (simp_all add: i)
  moreover have "bus_log p ?arr rd s0 (Suc 0) = []" unfolding bus_log.simps r by (simp add: edge_bit_def)
  ultimately show ?case using r refill_fresh by auto
next
  case (Suc n)
  let ?arr = "at_once (txn ws m)"
  obtain s got where s: "pio_run gspi_cfg gspi_program p ?arr rd (Suc n) s0 = Some (s, got)"
    "gspi_at ws m (txn ws m) n s got (bus_log p ?arr rd s0 (Suc n))" "osr_n s = 32 \<longrightarrow> tx_q s = []" "length (rx_q s) \<le> 1"
    using Suc.IH [OF Suc_leD [OF Suc.prems]] by blast
  note w = written_once [of "txn ws m"]
  have none: "drop (rd (Suc n)) (rx_q s) = []" using s(4) spec [OF rd, of "Suc n"] by simp
  have ok': "gspi_ok ws m (written ?arr (Suc (Suc n)))" unfolding w by (rule ok)
  from gspi_run_step [OF s(1) _ ok', of n] s(2) obtain s' j where
    j: "pio_run gspi_cfg gspi_program p ?arr rd (Suc (Suc n)) s0 = Some (s', got @ take (rd (Suc n)) (rx_q s))"
    "pio_cycle gspi_cfg gspi_program (p (Suc n)) (s\<lparr>tx_q := tx_q s @ ?arr (Suc n), rx_q := drop (rd (Suc n)) (rx_q s)\<rparr>) = Some s'"
    "gspi_at ws m (txn ws m) j s' (got @ take (rd (Suc n)) (rx_q s)) (bus_log p ?arr rd s0 (Suc (Suc n)))"
    "j = Suc n \<or> j = n \<and> (32 \<le> osr_n s \<and> sm_pc s \<in> {0, 1, 3} \<or> 4 \<le> length (drop (rd (Suc n)) (rx_q s)))"
    unfolding w by blast
  have "osr_n s \<le> 32" if "fetch_at (txn ws m) (txn ws m) pos s" for pos
    using that mod_less_divisor [of 32 pos] by (auto simp: fetch_at_def)
  with s(2) have le: "osr_n s \<le> 32" by (elim gspi_at.cases) blast+
  have "j = Suc n"
  proof (rule ccontr)
    assume "j \<noteq> Suc n"
    with j(4) none have "32 \<le> osr_n s" "sm_pc s \<in> {0, 1, 3}" by auto
    with gspi_waits_at_end [OF s(2)] s(3) le have "n = gspi_steps ws m" by simp
    with Suc.prems show False by simp
  qed
  moreover have "(osr_n s' = 32 \<longrightarrow> tx_q s' = []) \<and> length (rx_q s') \<le> 1" using gspi_cycle_fresh [OF j(2)] none by simp
  ultimately show ?case using j(1,3) by blast
qed

lemma gspi_at_over:
  assumes "gspi_at ws m Q (gspi_steps ws m) s got E" and "0 < length ws" and "0 < m"
  shows "\<exists>S. sm_pc s = 0 \<and> length S = 32 * m \<and> got @ rx_q s = in_words S
    \<and> E = map (Pair True) (bus_bits ws) @ map (Pair False) S"
  using assms(1)
proof cases
  case (over S)
  then show ?thesis by (intro exI [of _ S]) (simp add: crossed_def driven_def)
qed (use assms(2,3) in \<open>simp_all add: gspi_steps_def\<close>)

section \<open>The transactions of the driver\<close>

lemma bit_count_word:
  assumes "0 < n" and "n < 2 ^ 27"
  shows "sat_dec (sat_mul32 (of_nat n)) = of_nat (32 * n - 1)"
proof -
  have "unat (of_nat (32 * n - 1) :: u32) = 32 * n - 1" using assms by (simp only: unsigned_of_nat take_bit_eq_mod) simp
  then have "unat (sat_dec (sat_mul32 (of_nat n))) = unat (of_nat (32 * n - 1) :: u32)" using bit_count [OF assms] by simp
  then show ?thesis by (rule unsigned_word_eqI)
qed

lemma write_words_txn: "0 < length ws \<Longrightarrow> length ws < 2 ^ 27 \<Longrightarrow> write_words ws = txn ws 1"
  by (simp add: write_words_def txn_def bit_count_word)

lemma read_words_txn: "n + 1 < 2 ^ 27 \<Longrightarrow> read_words cmd n = txn [cmd] (n + 1)"
  using bit_count_word [of "n + 1"] sat_inc_of_nat [of n] by (simp add: read_words_def txn_def)

section \<open>Properties\<close>

text \<open>C21. The gSPI program carries one transaction of the driver. The words \<open>txn ws m\<close> are those of \<open>cmd_write\<close> (m = 1) and of
  \<open>cmd_read\<close> (ws = [cmd], m = n + 1). Whenever the words are written and the answers read, the machine runs, and the rising edges of
  the clock carry the bits of the command words, most significant first, driven by the host, and after them at most 32 m bits of the
  chip; the words in the receive FIFO are the words of those bits; back at the first instruction the chip has sent exactly
  32 m of them. With the words there at once and the FIFO read every cycle that takes 6 + 64 (length ws + m) cycles.\<close>

theorem gspi_transaction:
  assumes "gspi_idle s0" and "0 < length ws" and "length ws < 2 ^ 27" and "0 < m" and "m < 2 ^ 27"
    and "\<forall>n. prefix (written arr n) (txn ws m)"
  shows "(\<exists>s got. pio_run gspi_cfg gspi_program p arr rd n s0 = Some (s, got) \<and> bus_ok ws m s got (bus_log p arr rd s0 n))
    \<and> (arr = at_once (txn ws m) \<and> (\<forall>t. 0 < rd t) \<longrightarrow>
         (\<exists>s got S. pio_run gspi_cfg gspi_program p arr rd (Suc (gspi_steps ws m)) s0 = Some (s, got) \<and> sm_pc s = 0
            \<and> length S = 32 * m \<and> got @ rx_q s = in_words S
            \<and> bus_log p arr rd s0 (Suc (gspi_steps ws m)) = map (Pair True) (bus_bits ws) @ map (Pair False) S))
    \<and> write_words ws = txn ws 1 \<and> (\<forall>cmd k. k + 1 < 2 ^ 27 \<longrightarrow> read_words cmd k = txn [cmd] (k + 1))"
proof (intro conjI impI allI)
  have ok: "gspi_ok ws m Q" if "prefix Q (txn ws m)" for Q
    using assms(2-5) that by (auto simp: gspi_ok_def prefix_def)
  from gspi_run [OF assms(1), of ws m arr p rd n] assms(6) ok
  show "\<exists>s got. pio_run gspi_cfg gspi_program p arr rd n s0 = Some (s, got) \<and> bus_ok ws m s got (bus_log p arr rd s0 n)"
    using gspi_at_bus by blast
  assume "arr = at_once (txn ws m) \<and> (\<forall>t. 0 < rd t)"
  then have arr: "arr = at_once (txn ws m)" and rd: "\<forall>t. 0 < rd t" by blast+
  from gspi_on_time [OF assms(1) ok [OF prefix_order.refl] rd order.refl, of p] obtain s got where
    s: "pio_run gspi_cfg gspi_program p arr rd (Suc (gspi_steps ws m)) s0 = Some (s, got)"
    "gspi_at ws m (txn ws m) (gspi_steps ws m) s got (bus_log p arr rd s0 (Suc (gspi_steps ws m)))"
    unfolding arr by blast
  from gspi_at_over [OF s(2)] assms(2,4) s(1)
  show "\<exists>s got S. pio_run gspi_cfg gspi_program p arr rd (Suc (gspi_steps ws m)) s0 = Some (s, got) \<and> sm_pc s = 0
     \<and> length S = 32 * m \<and> got @ rx_q s = in_words S
     \<and> bus_log p arr rd s0 (Suc (gspi_steps ws m)) = map (Pair True) (bus_bits ws) @ map (Pair False) S" by blast
qed (use assms write_words_txn read_words_txn in simp_all)

text \<open>\<open>cmd_read\<close> of two words, with the chip driving ones.\<close>

theorem gspi_transaction_witness:
  "\<exists>s got S. pio_run gspi_cfg gspi_program (\<lambda>_. True) (at_once (txn [0xAB] 3)) (\<lambda>_. 1) 262 sm_start = Some (s, got) \<and> sm_pc s = 0
     \<and> length S = 96 \<and> got @ rx_q s = in_words S
     \<and> bus_log (\<lambda>_. True) (at_once (txn [0xAB] 3)) (\<lambda>_. 1) sm_start 262 = map (Pair True) (bus_bits [0xAB]) @ map (Pair False) S"
proof -
  have idle: "gspi_idle sm_start" by (simp add: gspi_idle_def sm_start_def)
  have w: "prefix (written (at_once (txn [0xAB] 3)) n) (txn [0xAB] 3)" for n
    using written_once [of "txn [0xAB] 3" "n - 1"] by (cases n) (simp_all del: written_simps(2))
  have n: "Suc (gspi_steps [0xAB] 3) = 262" by (simp add: gspi_steps_def)
  show ?thesis
    using conjunct1 [OF conjunct2 [OF gspi_transaction [OF idle, of "[0xAB]" 3 "at_once (txn [0xAB] 3)" _ "\<lambda>_. 1"]]] w
    unfolding n by simp
qed

end
