(* ===== verification/Boot.thy ===== *)
theory Boot
  imports Clock Status Nic Gspi
begin

text \<open>
  Start-up: the pins and the state machine of the gSPI bus (\<^verbatim>\<open>src/wireless.rs\<close>), the start of core 1 with its stack frame and
  trampoline (\<^verbatim>\<open>src/multicore_riscv.rs\<close>, \<^verbatim>\<open>setup_eth_mac\<close> of \<^verbatim>\<open>src/main.rs\<close>), the bring-up of the radio and its flags, the USB serial
  number and the watchdog. The power and reset controller, the memory and the radio's driver are parameters.
\<close>

section \<open>Pins\<close>

text \<open>The output and output-enable registers of SIO, and of each pin its pad and its function.\<close>

record pad =
  pad_ie :: bool
  pad_od :: bool
  pad_iso :: bool

record sio =
  gpio_out :: u32
  gpio_oe_bits :: u32
  pads :: "nat \<Rightarrow> pad"
  funcsel :: "nat \<Rightarrow> nat"

definition PIN_DATA :: nat where "PIN_DATA = 24"
definition PIN_CS :: nat where "PIN_CS = 25"
definition PIN_CLK :: nat where "PIN_CLK = 29"

definition gpio_set :: "nat \<Rightarrow> sio \<Rightarrow> sio" where
  "gpio_set n s = s\<lparr>gpio_out := gpio_out s OR push_bit n 1\<rparr>"

definition gpio_clr :: "nat \<Rightarrow> sio \<Rightarrow> sio" where
  "gpio_clr n s = s\<lparr>gpio_out := gpio_out s AND NOT (push_bit n 1)\<rparr>"

definition gpio_oe :: "nat \<Rightarrow> bool \<Rightarrow> sio \<Rightarrow> sio" where
  "gpio_oe n output s =
     (if output then s\<lparr>gpio_oe_bits := gpio_oe_bits s OR push_bit n 1\<rparr>
      else s\<lparr>gpio_oe_bits := gpio_oe_bits s AND NOT (push_bit n 1)\<rparr>)"

definition gpio_to_sio :: "nat \<Rightarrow> sio \<Rightarrow> sio" where
  "gpio_to_sio n s =
     (let s = s\<lparr>pads := (pads s)(n := (pads s n)\<lparr>pad_ie := True, pad_od := False, pad_iso := False\<rparr>)\<rparr>
      in s\<lparr>funcsel := (funcsel s)(n := 5)\<rparr>)"

text \<open>The pins of the state machine, clock and data, are driven low before it starts.\<close>

definition gspi_bus_idle :: "pio_sm \<Rightarrow> pio_sm" where
  "gspi_bus_idle sm = (sm\<lparr>data_dir := True\<rparr>)\<lparr>side_pin := False, data_pin := False\<rparr>"

definition pio_spi_new :: "sio \<Rightarrow> pio_sm \<Rightarrow> sio \<times> pio_sm" where
  "pio_spi_new s sm =
     (let s = gpio_to_sio PIN_CS s;
          s = gpio_oe PIN_CS True s;
          s = gpio_set PIN_CS s
      in (s, gspi_bus_idle sm))"

section \<open>Core 1\<close>

text \<open>Resetting core 1 through the power controller; the loop waits until the bit reads back set.\<close>

record 's psm =
  frce_off_write :: "bool \<Rightarrow> 's \<Rightarrow> 's"
  frce_off_read :: "'s \<Rightarrow> bool \<times> 's"

partial_function (option) reset_wait :: "'s psm \<Rightarrow> 's \<Rightarrow> 's option" where
  "reset_wait P s = (case frce_off_read P s of (off, s) \<Rightarrow> if off then Some s else reset_wait P s)"

text \<open>The frame on the new stack, at the top of \<open>len\<close> words from \<open>base\<close>.\<close>

definition frame_sp :: "u32 \<Rightarrow> nat \<Rightarrow> u32" where
  "frame_sp base len = base + of_nat (4 * (len - 4))"

definition write_frame :: "u32 \<Rightarrow> u32 \<Rightarrow> u32 \<Rightarrow> u32 \<Rightarrow> u32 \<Rightarrow> (u32 \<Rightarrow> u32) \<Rightarrow> (u32 \<Rightarrow> u32)" where
  "write_frame sp entry base wrapper gp mem =
     mem(sp := entry, sp + 4 := base, sp + 8 := wrapper, sp + 12 := gp)"

definition launch_core1_riscv ::
  "'s psm \<Rightarrow> 's sio_fifo \<Rightarrow> u32 \<Rightarrow> nat \<Rightarrow> u32 \<Rightarrow> u32 \<Rightarrow> u32 \<Rightarrow> u32 \<Rightarrow> u32 \<Rightarrow> (u32 \<Rightarrow> u32) \<Rightarrow> 's
     \<Rightarrow> ((launch_error + unit) \<times> (u32 \<times> u32 option) list \<times> (u32 \<Rightarrow> u32) \<times> 's) option" where
  "launch_core1_riscv P F base len entry wrapper trampoline mtvec gp mem s = do {
     s \<leftarrow> reset_wait P (frce_off_write P True s);
     let s = frce_off_write P False s;
     let sp = frame_sp base len;
     let mem = write_frame sp entry base wrapper gp mem;
     let (r, log, s) = launch_core1 F mtvec sp trampoline s;
     Some (r, log, mem, s)
   }"

text \<open>The trampoline, for a machine with the few instructions it uses.\<close>

datatype rv_reg = A0 | A1 | A2 | GP | SP
datatype rv_instr = LW rv_reg nat rv_reg | ADDI rv_reg rv_reg nat | JR rv_reg

record hart =
  regs :: "rv_reg \<Rightarrow> u32"
  hart_pc :: u32

definition core1_trampoline :: "rv_instr list" where
  "core1_trampoline = [LW A0 0 SP, LW A1 4 SP, LW A2 8 SP, LW GP 12 SP, ADDI SP SP 16, JR A2]"

definition rv_exec :: "(u32 \<Rightarrow> u32) \<Rightarrow> rv_instr \<Rightarrow> hart \<Rightarrow> hart" where
  "rv_exec mem i h =
     (case i of
        LW d off a \<Rightarrow> h\<lparr>regs := (regs h)(d := mem (regs h a + of_nat off)), hart_pc := hart_pc h + 4\<rparr>
      | ADDI d a n \<Rightarrow> h\<lparr>regs := (regs h)(d := regs h a + of_nat n), hart_pc := hart_pc h + 4\<rparr>
      | JR a \<Rightarrow> h\<lparr>hart_pc := regs h a\<rparr>)"

text \<open>\<^verbatim>\<open>core1_wrapper\<close> calls its first argument; its second is not used.\<close>

definition core1_wrapper :: "u32 \<Rightarrow> u32 \<Rightarrow> u32" where
  "core1_wrapper entry stack_bottom = entry"

text \<open>\<^verbatim>\<open>setup_eth_mac\<close>: the receive engine is in place before core 1 runs.\<close>

record start_up =
  up_mac :: eth_mac
  up_core1_ok :: bool
  up_rx :: rx_state
  up_mem :: "u32 \<Rightarrow> u32"
  up_log :: "(u32 \<times> u32 option) list"

definition setup_eth_mac ::
  "'s psm \<Rightarrow> 's sio_fifo \<Rightarrow> u32 \<Rightarrow> nat \<Rightarrow> u32 \<Rightarrow> u32 \<Rightarrow> u32 \<Rightarrow> u32 \<Rightarrow> u32 \<Rightarrow> (u32 \<Rightarrow> u32)
     \<Rightarrow> nat \<Rightarrow> eth_rx \<Rightarrow> rx_state \<Rightarrow> 's \<Rightarrow> (start_up \<times> 's) option" where
  "setup_eth_mac P F stack len entry wrapper trampoline mtvec gp mem now rx st s = do {
     let tx = tx_new now;
     let (_, st) = install_rx st rx OUR_MAC;
     (r, log, mem, s) \<leftarrow> launch_core1_riscv P F stack len entry wrapper trampoline mtvec gp mem s;
     Some (\<lparr>up_mac = mac_new tx, up_core1_ok = (case r of Inr _ \<Rightarrow> True | Inl _ \<Rightarrow> False), up_rx = st, up_mem = mem, up_log = log\<rparr>, s)
   }"

section \<open>The radio\<close>

definition AP_SSID :: string where "AP_SSID = ''pico-10bt-router''"
definition AP_PASSPHRASE :: string where "AP_PASSPHRASE = ''change-me-please''"
definition AP_CHANNEL :: u8 where "AP_CHANNEL = 6"

text \<open>The calls the task makes to the driver's control handle; each is awaited. The task pool may have no slot for a new task.\<close>

record 'd wl_control =
  wl_init :: "'d \<Rightarrow> 'd"
  wl_no_power_save :: "'d \<Rightarrow> 'd"
  wl_start_ap_wpa2 :: "string \<Rightarrow> string \<Rightarrow> u8 \<Rightarrow> 'd \<Rightarrow> 'd"
  wl_address :: "'d \<Rightarrow> mac"
  wl_gpio_set :: "nat \<Rightarrow> bool \<Rightarrow> 'd \<Rightarrow> 'd"
  wl_slot_runner :: bool
  wl_slot_net :: bool

datatype boot_stage = AwaitNew | AwaitInit | AwaitPower | AwaitAp | AwaitAddress | AwaitLed | AwaitTimer

record 'd bring_up =
  bu_stage :: boot_stage
  bu_flags :: lan_stats
  bu_runner :: bool
  bu_net :: "mac option"
  bu_led :: bool
  bu_dev :: 'd

text \<open>What the task does when the call it waits for has completed, up to the next one.\<close>

definition blink :: "'d wl_control \<Rightarrow> 'd bring_up \<Rightarrow> 'd bring_up" where
  "blink W b = (let on = \<not> bu_led b in b\<lparr>bu_led := on, bu_dev := wl_gpio_set W 0 on (bu_dev b), bu_stage := AwaitLed\<rparr>)"

definition bootstrap_turn :: "'d wl_control \<Rightarrow> 'd bring_up \<Rightarrow> 'd bring_up" where
  "bootstrap_turn W b =
     (case bu_stage b of
        AwaitNew \<Rightarrow> b\<lparr>bu_flags := (bu_flags b)\<lparr>cyw43_new_done := 1\<rparr>, bu_runner := wl_slot_runner W,
          bu_dev := wl_init W (bu_dev b), bu_stage := AwaitInit\<rparr>
      | AwaitInit \<Rightarrow> b\<lparr>bu_flags := (bu_flags b)\<lparr>cyw43_init_done := 1\<rparr>, bu_dev := wl_no_power_save W (bu_dev b),
          bu_stage := AwaitPower\<rparr>
      | AwaitPower \<Rightarrow> b\<lparr>bu_dev := wl_start_ap_wpa2 W AP_SSID AP_PASSPHRASE AP_CHANNEL (bu_dev b), bu_stage := AwaitAp\<rparr>
      | AwaitAp \<Rightarrow> b\<lparr>bu_flags := (bu_flags b)\<lparr>cyw43_ap_done := 1\<rparr>, bu_stage := AwaitAddress\<rparr>
      | AwaitAddress \<Rightarrow> blink W (b\<lparr>bu_net := (if wl_slot_net W then Some (wl_address W (bu_dev b)) else None), bu_led := False\<rparr>)
      | AwaitLed \<Rightarrow> b\<lparr>bu_flags := (bu_flags b)\<lparr>cyw43_led_done := 1\<rparr>, bu_stage := AwaitTimer\<rparr>
      | AwaitTimer \<Rightarrow> blink W b)"

definition bootstrap_start :: "lan_stats \<Rightarrow> 'd \<Rightarrow> 'd bring_up" where
  "bootstrap_start ls d = \<lparr>bu_stage = AwaitNew, bu_flags = ls, bu_runner = False, bu_net = None, bu_led = False, bu_dev = d\<rparr>"

section \<open>The serial number\<close>

definition upper_digit :: "nat \<Rightarrow> char" where
  "upper_digit d = (if d < 10 then char_of (48 + d) else char_of (55 + d))"

fun upper_hex :: "nat \<Rightarrow> string" where
  "upper_hex n = (if n < 16 then [upper_digit n] else upper_hex (n div 16) @ [upper_digit (n mod 16)])"

declare upper_hex.simps [simp del]

text \<open>The ids of the chip as the boot ROM answers them, or none.\<close>

definition serial_str :: "(u32 \<times> u32) option \<Rightarrow> string" where
  "serial_str info =
     (case info of
        Some (wafer_id, device_id) \<Rightarrow>
          push_all 16 (pad0 8 (upper_hex (unat wafer_id)) @ pad0 8 (upper_hex (unat device_id))) []
      | None \<Rightarrow> write_fmt 16 [Lit ''0000000000000000''] [])"

section \<open>The chip select\<close>

text \<open>After \<^verbatim>\<open>PioSpiCyw43::new\<close> the chip select is driven high and the bus is idle; no other pin has changed.\<close>

lemma PIN_CS_less: "PIN_CS < 32"
  by (simp add: PIN_CS_def)

lemma pio_spi_new_pins:
  assumes "pio_spi_new s sm_start = (s', sm)"
  shows "bit (gpio_out s') PIN_CS" and "bit (gpio_oe_bits s') PIN_CS" and "funcsel s' PIN_CS = 5"
    and "pad_ie (pads s' PIN_CS)" and "\<not> pad_od (pads s' PIN_CS)" and "\<not> pad_iso (pads s' PIN_CS)"
    and "n \<noteq> PIN_CS \<Longrightarrow> bit (gpio_out s') n = bit (gpio_out s) n \<and> bit (gpio_oe_bits s') n = bit (gpio_oe_bits s) n
      \<and> pads s' n = pads s n \<and> funcsel s' n = funcsel s n"
    and "gspi_idle sm" and "\<not> data_pin sm" and "data_dir sm"
  using assms
  by (auto simp: pio_spi_new_def gpio_set_def gpio_oe_def gpio_to_sio_def gspi_bus_idle_def gspi_idle_def sm_start_def
      Let_def bit_simps PIN_CS_less)

section \<open>The stack frame\<close>

lemma reset_wait_returns:
  "fst (frce_off_read P (((\<lambda>s. snd (frce_off_read P s)) ^^ n) s)) \<Longrightarrow> \<exists>s'. reset_wait P s = Some s'"
proof (induction n arbitrary: s)
  case 0
  then show ?case by (subst reset_wait.simps) (auto split: prod.split)
next
  case (Suc n)
  have "\<exists>s'. reset_wait P (snd (frce_off_read P s)) = Some s'"
    by (rule Suc.IH) (use Suc.prems in \<open>simp only: funpow_Suc_right o_apply\<close>)
  then show ?case by (subst reset_wait.simps) (auto split: prod.split)
qed

lemma write_frame_words:
  "write_frame sp entry base wrapper gp mem sp = entry" "write_frame sp entry base wrapper gp mem (sp + 4) = base"
  "write_frame sp entry base wrapper gp mem (sp + 8) = wrapper" "write_frame sp entry base wrapper gp mem (sp + 12) = gp"
  by (simp_all add: write_frame_def)

lemma write_frame_other: "16 \<le> a - sp \<Longrightarrow> write_frame sp entry base wrapper gp mem a = mem a"
  by (auto simp: write_frame_def)

lemma frame_top: "4 \<le> len \<Longrightarrow> frame_sp base len + 16 = base + of_nat (4 * len)"
proof -
  assume "4 \<le> len"
  then have "4 * len = 4 * (len - 4) + 16" by simp
  then have "(of_nat (4 * len) :: u32) = of_nat (4 * (len - 4)) + 16" by (metis of_nat_add of_nat_numeral)
  then show ?thesis by (simp add: frame_sp_def add.assoc)
qed

text \<open>The registers the trampoline leaves behind.\<close>

lemma trampoline_run:
  assumes "mem = write_frame sp entry base wrapper gp m" and "regs h SP = sp"
  shows "let h' = fold (rv_exec mem) core1_trampoline h in
    hart_pc h' = wrapper \<and> regs h' A0 = entry \<and> regs h' A1 = base \<and> regs h' GP = gp \<and> regs h' SP = sp + 16"
  using assms by (simp add: core1_trampoline_def rv_exec_def write_frame_words)

section \<open>The flags of the bring-up\<close>

definition stage_no :: "boot_stage \<Rightarrow> nat" where
  "stage_no st = (case st of AwaitNew \<Rightarrow> 0 | AwaitInit \<Rightarrow> 1 | AwaitPower \<Rightarrow> 2 | AwaitAp \<Rightarrow> 3 | AwaitAddress \<Rightarrow> 4 | AwaitLed \<Rightarrow> 5 | AwaitTimer \<Rightarrow> 6)"

definition bring_up_inv :: "'d bring_up \<Rightarrow> bool" where
  "bring_up_inv b \<longleftrightarrow> flags_ok (bu_flags b)
     \<and> (cyw43_new_done (bu_flags b) = 1 \<longleftrightarrow> 1 \<le> stage_no (bu_stage b))
     \<and> (cyw43_init_done (bu_flags b) = 1 \<longleftrightarrow> 2 \<le> stage_no (bu_stage b))
     \<and> (cyw43_ap_done (bu_flags b) = 1 \<longleftrightarrow> 4 \<le> stage_no (bu_stage b))
     \<and> (cyw43_led_done (bu_flags b) = 1 \<longrightarrow> 5 \<le> stage_no (bu_stage b))
     \<and> (bu_net b \<noteq> None \<longrightarrow> 5 \<le> stage_no (bu_stage b))"

lemma bring_up_start:
  "flags_ok ls \<Longrightarrow> cyw43_new_done ls = 0 \<Longrightarrow> cyw43_init_done ls = 0 \<Longrightarrow> cyw43_ap_done ls = 0 \<Longrightarrow> cyw43_led_done ls = 0 \<Longrightarrow>
     bring_up_inv (bootstrap_start ls d)"
  by (simp add: bring_up_inv_def bootstrap_start_def stage_no_def)

lemma bring_up_turn: "bring_up_inv b \<Longrightarrow> bring_up_inv (bootstrap_turn W b)"
  by (cases "bu_stage b")
    (simp_all add: bring_up_inv_def bootstrap_turn_def blink_def stage_no_def flags_ok_def Let_def)

section \<open>The serial number\<close>

definition hex_value :: "string \<Rightarrow> nat" where
  "hex_value s = foldl (\<lambda>a c. 16 * a + (if of_char c < (58 :: nat) then of_char c - 48 else of_char c - 55)) 0 s"

lemma hex_value_snoc: "d < 16 \<Longrightarrow> hex_value (s @ [upper_digit d]) = 16 * hex_value s + d"
  by (simp add: hex_value_def upper_digit_def)

lemma upper_hex_spec: "n < 16 ^ k \<Longrightarrow> 0 < k \<Longrightarrow> hex_value (upper_hex n) = n \<and> length (upper_hex n) \<le> k"
proof (induction n arbitrary: k rule: upper_hex.induct)
  case (1 n)
  show ?case
  proof (cases "n < 16")
    case True
    then show ?thesis using 1(3) hex_value_snoc [of n "[]"] by (simp add: upper_hex.simps [of n] hex_value_def)
  next
    case False
    with 1(2,3) obtain j where j: "k = Suc j" "0 < j"
      by (metis gr0_implies_Suc gr0I power_one_right One_nat_def)
    then have "n div 16 < 16 ^ j" using 1(2) by (simp add: less_mult_imp_div_less mult.commute)
    from 1(1) [OF False this j(2)] False j show ?thesis by (simp add: upper_hex.simps [of n] hex_value_snoc)
  qed
qed

lemma hex_value_zeros: "hex_value (concat (replicate k ''0'') @ s) = hex_value s"
  by (induction k) (simp_all add: hex_value_def)

text \<open>Sixteen characters, never cut, and no two chips share one.\<close>

lemma serial_half:
  "length (concat (pad0 8 (upper_hex (unat (w :: u32))))) = 8" "hex_value (concat (pad0 8 (upper_hex (unat w)))) = unat w"
proof -
  have h: "hex_value (upper_hex (unat w)) = unat w" "length (upper_hex (unat w)) \<le> 8"
    using upper_hex_spec [of "unat w" 8] unat_u32_lt [of w] by simp_all
  have "length (concat (replicate j ''0'')) = j" for j by (induction j) simp_all
  then show "length (concat (pad0 8 (upper_hex (unat w)))) = 8" using h by (simp add: pad0_def)
  show "hex_value (concat (pad0 8 (upper_hex (unat w)))) = unat w" using h hex_value_zeros by (simp add: pad0_def)
qed

lemma serial_str_whole:
  "serial_str (Some (a, b)) = concat (pad0 8 (upper_hex (unat a))) @ concat (pad0 8 (upper_hex (unat b)))"
  using serial_half(1) [of a] serial_half(1) [of b] by (simp add: serial_str_def push_all_fits)

lemma serial_str_inj: "serial_str (Some (a, b)) = serial_str (Some (c, d)) \<Longrightarrow> a = c \<and> b = d"
proof -
  assume e: "serial_str (Some (a, b)) = serial_str (Some (c, d))"
  have "concat (pad0 8 (upper_hex (unat a))) = concat (pad0 8 (upper_hex (unat c)))
    \<and> concat (pad0 8 (upper_hex (unat b))) = concat (pad0 8 (upper_hex (unat d)))"
    using e serial_half(1) by (simp add: serial_str_whole append_eq_append_conv)
  then have "unat a = unat c" "unat b = unat d" using serial_half(2) by metis+
  then show "a = c \<and> b = d" by (intro conjI unsigned_word_eqI)
qed

section \<open>Property\<close>


text \<open>A FIFO behind which core 1 echoes every command.\<close>

definition echo_fifo :: "(bool \<times> u32 option) sio_fifo" where
  "echo_fifo = \<lparr>fifo_read = (\<lambda>(off, w). (w, off, None)), fifo_drain = (\<lambda>(off, w). (off, None)),
     fifo_write_blocking = (\<lambda>c (off, w). (off, Some c)), sev = id\<rparr>"

definition echo_psm :: "(bool \<times> u32 option) psm" where
  "echo_psm = \<lparr>frce_off_write = (\<lambda>b (off, w). (b, w)), frce_off_read = (\<lambda>(off, w). (off, off, w))\<rparr>"


end
