(* ===== verification/Spec2Isabelle.thy ===== *)
theory Spec2Isabelle
  imports Link Router Board Selftest Nic Validator OpenLoop Boot
begin

text \<open>
  A verification development for \<^verbatim>\<open>pico-10base-t-rs\<close>.
\<close>

end
